(* ===== verification/Prelude.thy ===== *)
theory Prelude
  imports Main "HOL-Library.AList" "HOL-Library.Sublist"
begin

text \<open>
  Shared vocabulary of the development: the errors the Python code raises, results that are
  either an error or a value, Python's string predicates, and the insertion-ordered
  dictionary, which is an association list here because the code relies on the order
  (\<open>popitem\<close>, iteration over \<open>items()\<close>).  The collections \<open>py_simps\<close> and
  \<open>res_simps\<close> gather the rewrite rules the component theories pass to the simplifier.
\<close>

named_theorems py_simps \<open>rewrite rules for Python strings and dictionaries\<close>
named_theorems res_simps \<open>rewrite rules for results that may be an error\<close>

subsection \<open>Errors and results\<close>

datatype py_error =
    RuntimeError
  | ValueError
  | TimeoutError
  | AssertionError
  | KeyError
  | IndexError
  | AttributeError
  | JSONDecodeError
  | NotImplementedError
  | FileNotFoundError

type_synonym 'a res = "py_error + 'a"

definition rbind :: "'e + 'a \<Rightarrow> ('a \<Rightarrow> 'e + 'b) \<Rightarrow> 'e + 'b" where
  "rbind m f = (case m of Inl e \<Rightarrow> Inl e | Inr x \<Rightarrow> f x)"

lemma rbind_simps [simp, res_simps]:
  "rbind (Inl e) f = Inl e"
  "rbind (Inr x) f = f x"
  by (simp_all add: rbind_def)

lemma rbind_cong [fundef_cong]:
  "m = m' \<Longrightarrow> (\<And>x. m' = Inr x \<Longrightarrow> f x = f' x) \<Longrightarrow> rbind m f = rbind m' f'"
  by (cases m') simp_all

lemma rbind_Inr_iff [res_simps]:
  "rbind m f = Inr y \<longleftrightarrow> (\<exists>x. m = Inr x \<and> f x = Inr y)"
  by (cases m) simp_all

lemma rbind_assoc [res_simps]:
  "rbind (rbind m f) g = rbind m (\<lambda>x. rbind (f x) g)"
  by (cases m) simp_all

definition guard_err :: "bool \<Rightarrow> 'e \<Rightarrow> 'e + unit" where
  "guard_err b e = (if b then Inr () else Inl e)"

lemma guard_err_Inr_iff [simp, res_simps]: "guard_err b e = Inr u \<longleftrightarrow> b"
  by (simp add: guard_err_def)

lemma guard_err_bind [res_simps]:
  "rbind (guard_err b e) f = (if b then f () else Inl e)"
  by (simp add: guard_err_def)

lemma Ex_Not [simp]: "Ex Not"
  by blast

subsection \<open>Python strings\<close>

definition py_startswith :: "string \<Rightarrow> string \<Rightarrow> bool" where
  "py_startswith s p \<longleftrightarrow> take (length p) s = p"

definition py_endswith :: "string \<Rightarrow> string \<Rightarrow> bool" where
  "py_endswith s p \<longleftrightarrow> length p \<le> length s \<and> drop (length s - length p) s = p"

fun py_contains :: "string \<Rightarrow> string \<Rightarrow> bool" where
  "py_contains [] p \<longleftrightarrow> p = []"
| "py_contains (c # s) p \<longleftrightarrow> py_startswith (c # s) p \<or> py_contains s p"

lemma py_startswith_prefix [py_simps]: "py_startswith s p \<longleftrightarrow> prefix p s"
  by (metis append_eq_conv_conj append_take_drop_id prefix_def py_startswith_def)

lemma py_endswith_suffix [py_simps]: "py_endswith s p \<longleftrightarrow> suffix p s"
proof
  assume "py_endswith s p"
  then show "suffix p s"
    by (metis py_endswith_def suffix_drop)
next
  assume "suffix p s"
  then show "py_endswith s p"
    by (auto simp: py_endswith_def suffix_def)
qed

lemma py_contains_sublist [py_simps]: "py_contains s p \<longleftrightarrow> sublist p s"
  by (induction s) (auto simp: py_startswith_prefix sublist_Cons_right)

lemma py_startswith_append [simp]: "py_startswith (p @ s) p"
  by (simp add: py_startswith_def)

lemma py_endswith_append [simp]: "py_endswith (s @ p) p"
  by (simp add: py_endswith_def)

lemma py_contains_append [simp]: "py_contains (a @ p @ b) p"
  by (simp add: py_contains_sublist)

text \<open>\<open>s.rsplit(c, 1)[-1]\<close> and \<open>s.rstrip(c)\<close> for one character, and \<open>str(n)\<close>.\<close>

definition after_last :: "char \<Rightarrow> string \<Rightarrow> string" where
  "after_last c s = rev (takeWhile (\<lambda>x. x \<noteq> c) (rev s))"

definition rstrip_char :: "char \<Rightarrow> string \<Rightarrow> string" where
  "rstrip_char c s = rev (dropWhile (\<lambda>x. x = c) (rev s))"

fun py_str_nat :: "nat \<Rightarrow> string" where
  "py_str_nat n = (if n < 10 then [char_of (48 + n)] else py_str_nat (n div 10) @ [char_of (48 + n mod 10)])"

declare py_str_nat.simps [simp del]

lemma py_str_nat_0 [simp]: "py_str_nat 0 = ''0''"
  by code_simp

definition digit_val :: "char \<Rightarrow> nat" where
  "digit_val c = of_char c - 48"

definition nat_of_digits :: "string \<Rightarrow> nat" where
  "nat_of_digits s = foldl (\<lambda>n c. 10 * n + digit_val c) 0 s"

lemma nat_of_digits_snoc: "nat_of_digits (s @ [c]) = 10 * nat_of_digits s + digit_val c"
  by (simp add: nat_of_digits_def)

lemma digit_val_char: "d < 10 \<Longrightarrow> digit_val (char_of (48 + d)) = d"
  by (simp add: digit_val_def)

lemma nat_of_py_str_nat [simp]: "nat_of_digits (py_str_nat n) = n"
proof (induction n rule: py_str_nat.induct)
  case (1 n)
  show ?case
  proof (cases "n < 10")
    case True
    then show ?thesis
      by (simp add: py_str_nat.simps [of n] nat_of_digits_def digit_val_char)
  next
    case False
    then show ?thesis
      using 1 by (simp add: py_str_nat.simps [of n] nat_of_digits_snoc digit_val_char)
  qed
qed

lemma py_str_nat_inject [simp]: "py_str_nat a = py_str_nat b \<longleftrightarrow> a = b"
  by (metis nat_of_py_str_nat)

lemma py_str_nat_digits: "c \<in> set (py_str_nat n) \<Longrightarrow> 48 \<le> (of_char c :: nat) \<and> (of_char c :: nat) < 58"
proof (induction n rule: py_str_nat.induct)
  case (1 n)
  then show ?case
    by (cases "n < 10") (auto simp: py_str_nat.simps [of n])
qed

subsection \<open>Python dictionaries\<close>

text \<open>A dictionary literal or comprehension: later entries overwrite, the first keeps its place.\<close>

definition py_dict :: "('k \<times> 'v) list \<Rightarrow> ('k \<times> 'v) list" where
  "py_dict kvs = fold (\<lambda>(k, v). AList.update k v) kvs []"

lemma map_of_fold_update:
  "map_of (fold (\<lambda>(k, v). AList.update k v) kvs al) = map_of al ++ map_of (rev kvs)"
proof (induction kvs arbitrary: al)
  case (Cons kv kvs)
  then show ?case by (cases kv) (simp add: update_conv map_add_def fun_eq_iff split: option.splits)
qed simp

lemma map_of_py_dict [simp, py_simps]: "map_of (py_dict kvs) = map_of (rev kvs)"
  by (simp add: py_dict_def map_of_fold_update)

lemma dom_map_of_fst: "map_of al k \<noteq> None \<longleftrightarrow> k \<in> fst ` set al"
  by (simp add: map_of_eq_None_iff)

lemma update_new: "k \<notin> set (map fst al) \<Longrightarrow> AList.update k v al = al @ [(k, v)]"
  by (induction al) auto

end
