(* ===== verification/WS_Filter.thy ===== *)
theory WS_Filter
  imports Prelude
begin

text \<open>
  The parameter classification of the weight-sharing overlay
  (\<open>distributed/weight_sharing/parameter_filter.py\<close> and the flags of
  \<open>config/weight_sharing.py\<close>).  A parameter is known by its dotted name; the name alone, with
  the six sharing flags, decides whether it may live in the primary's GPU memory.
\<close>

subsection \<open>Configuration and name tables\<close>

datatype ws_mode = WsOff | WsPrimary | WsSecondary

record ws_config =
  ws_mode_of :: ws_mode
  ws_registry_path :: string
  ws_timeout_seconds :: nat
  share_embedding :: bool
  share_lm_head :: bool
  share_norm :: bool
  share_vision_encoder :: bool
  share_projector :: bool
  share_pooler :: bool

definition WeightSharingConfig :: ws_config where
  "WeightSharingConfig =
     \<lparr>ws_mode_of = WsOff, ws_registry_path = ''/dev/shm/vllm_weight_share'', ws_timeout_seconds = 300, share_embedding = False,
      share_lm_head = False, share_norm = False, share_vision_encoder = False,
      share_projector = False, share_pooler = False\<rparr>"

definition SHAREABLE_PARAM_PREFIXES :: "string list" where
  "SHAREABLE_PARAM_PREFIXES =
     [''model.layers.'', ''transformer.h.'', ''transformer.blocks.'', ''transformer.layers.'',
      ''gpt_neox.layers.'', ''decoder.layers.'', ''language_model.model.layers.'',
      ''encoder.layer.'', ''model.encoder.layer.'', ''roberta.encoder.layer.'']"

definition EMBEDDING_PARAM_PREFIXES :: "string list" where
  "EMBEDDING_PARAM_PREFIXES =
     [''model.embed_tokens.'', ''transformer.wte.'', ''transformer.word_embeddings.'',
      ''gpt_neox.embed_in.'', ''language_model.embed_tokens.'',
      ''language_model.model.embed_tokens.'', ''embeddings.'', ''model.embeddings.'',
      ''roberta.embeddings.'']"

definition EMBEDDING_PARAM_NAMES :: "string list" where
  "EMBEDDING_PARAM_NAMES =
     [''transformer.wte.weight'', ''transformer.word_embeddings.weight'',
      ''gpt_neox.embed_in.weight'', ''embed_in.weight'', ''language_model.embed_tokens.weight'']"

definition LM_HEAD_PARAM_PREFIXES :: "string list" where
  "LM_HEAD_PARAM_PREFIXES = [''lm_head.'', ''language_model.lm_head.'', ''embed_out.'']"

definition LM_HEAD_PARAM_NAMES :: "string list" where
  "LM_HEAD_PARAM_NAMES = [''embed_out.weight'']"

definition NORM_PARAM_PREFIXES :: "string list" where
  "NORM_PARAM_PREFIXES = [''model.norm.'', ''transformer.ln_f.'', ''gpt_neox.final_layer_norm.'']"

definition NORM_PARAM_NAMES :: "string list" where
  "NORM_PARAM_NAMES =
     [''transformer.ln_f.weight'', ''transformer.ln_f.bias'',
      ''gpt_neox.final_layer_norm.weight'', ''gpt_neox.final_layer_norm.bias'']"

definition VISION_ENCODER_PARAM_PREFIXES :: "string list" where
  "VISION_ENCODER_PARAM_PREFIXES =
     [''model.vision_'', ''visual.'', ''vision_model.'', ''vision_tower.'', ''image_encoder.'']"

definition PROJECTOR_PARAM_PREFIXES :: "string list" where
  "PROJECTOR_PARAM_PREFIXES =
     [''model.mm_projector'', ''mm_projector.'', ''multi_modal_projector.'']"

definition POOLER_PARAM_PREFIXES :: "string list" where
  "POOLER_PARAM_PREFIXES =
     [''pooler.'', ''model.pooler.'', ''roberta.pooler.'', ''score.'', ''classifier.'']"

definition NON_SHAREABLE_SUFFIXES :: "string list" where
  "NON_SHAREABLE_SUFFIXES = [''.q_scale'', ''.k_scale'', ''.v_scale'', ''.prob_scale'']"

lemmas ws_tables =
  SHAREABLE_PARAM_PREFIXES_def EMBEDDING_PARAM_PREFIXES_def EMBEDDING_PARAM_NAMES_def
  LM_HEAD_PARAM_PREFIXES_def LM_HEAD_PARAM_NAMES_def NORM_PARAM_PREFIXES_def
  NORM_PARAM_NAMES_def VISION_ENCODER_PARAM_PREFIXES_def PROJECTOR_PARAM_PREFIXES_def
  POOLER_PARAM_PREFIXES_def NON_SHAREABLE_SUFFIXES_def

subsection \<open>Classification\<close>

definition config_or_default :: "ws_config option \<Rightarrow> ws_config" where
  "config_or_default c = (case c of Some cfg \<Rightarrow> cfg | None \<Rightarrow> WeightSharingConfig)"

definition has_prefix :: "string \<Rightarrow> string list \<Rightarrow> bool" where
  "has_prefix param_name pfs \<longleftrightarrow> (\<exists>p \<in> set pfs. py_startswith param_name p)"

definition is_embedding_parameter :: "string \<Rightarrow> bool" where
  "is_embedding_parameter n \<longleftrightarrow>
     n \<in> set EMBEDDING_PARAM_NAMES \<or> has_prefix n EMBEDDING_PARAM_PREFIXES
     \<or> py_contains n ''word_embeddings''"

definition is_lm_head_parameter :: "string \<Rightarrow> bool" where
  "is_lm_head_parameter n \<longleftrightarrow>
     n \<in> set LM_HEAD_PARAM_NAMES \<or> has_prefix n LM_HEAD_PARAM_PREFIXES"

definition is_norm_parameter :: "string \<Rightarrow> bool" where
  "is_norm_parameter n \<longleftrightarrow>
     n \<in> set NORM_PARAM_NAMES \<or> has_prefix n NORM_PARAM_PREFIXES
     \<or> py_contains n ''embeddings.LayerNorm''"

definition is_vision_encoder_parameter :: "string \<Rightarrow> bool" where
  "is_vision_encoder_parameter n \<longleftrightarrow>
     has_prefix n VISION_ENCODER_PARAM_PREFIXES
     \<or> (\<exists>t \<in> set [''vision'', ''visual'', ''image_encoder'', ''vision_model'', ''vision_tower''].
          py_contains n t)"

definition is_projector_parameter :: "string \<Rightarrow> bool" where
  "is_projector_parameter n \<longleftrightarrow>
     has_prefix n PROJECTOR_PARAM_PREFIXES
     \<or> (\<exists>t \<in> set [''projector'', ''connector'', ''mm_projector'', ''multi_modal_projector''].
          py_contains n t)"

definition is_pooler_parameter :: "string \<Rightarrow> bool" where
  "is_pooler_parameter n \<longleftrightarrow> has_prefix n POOLER_PARAM_PREFIXES"

definition is_shareable_parameter :: "string \<Rightarrow> ws_config option \<Rightarrow> bool" where
  "is_shareable_parameter n config =
     (let cfg = config_or_default config in
      if \<exists>s \<in> set NON_SHAREABLE_SUFFIXES. py_endswith n s then False
      else if is_embedding_parameter n then share_embedding cfg
      else if is_lm_head_parameter n then share_lm_head cfg
      else if is_norm_parameter n then share_norm cfg
      else if is_vision_encoder_parameter n then share_vision_encoder cfg
      else if is_projector_parameter n then share_projector cfg
      else if is_pooler_parameter n then share_pooler cfg
      else has_prefix n SHAREABLE_PARAM_PREFIXES)"

text \<open>Python builds sets here; the model keeps them as sets of names.\<close>

definition filter_shareable_param_names :: "string list \<Rightarrow> ws_config option \<Rightarrow> string set" where
  "filter_shareable_param_names param_names config =
     set (filter (\<lambda>n. is_shareable_parameter n config) param_names)"

text \<open>
  A model is, for this file, the list \<open>model.named_parameters()\<close> yields: names with their
  tensors, in order, without repetition.
\<close>

definition get_shareable_param_names :: "(string \<times> 't) list \<Rightarrow> ws_config option \<Rightarrow> string set" where
  "get_shareable_param_names model config =
     filter_shareable_param_names (map fst model) config"

definition get_non_shareable_param_names :: "(string \<times> 't) list \<Rightarrow> ws_config option \<Rightarrow> string set" where
  "get_non_shareable_param_names model config =
     set (map fst (filter (\<lambda>(n, _). \<not> is_shareable_parameter n config) model))"

subsection \<open>Lemmas\<close>

definition ws_config_le :: "ws_config \<Rightarrow> ws_config \<Rightarrow> bool" where
  "ws_config_le a b \<longleftrightarrow>
     (share_embedding a \<longrightarrow> share_embedding b) \<and> (share_lm_head a \<longrightarrow> share_lm_head b) \<and>
     (share_norm a \<longrightarrow> share_norm b) \<and> (share_vision_encoder a \<longrightarrow> share_vision_encoder b) \<and>
     (share_projector a \<longrightarrow> share_projector b) \<and> (share_pooler a \<longrightarrow> share_pooler b)"

text \<open>The parameters that need an explicit flag before they may be shared.\<close>

definition special_parameter :: "string \<Rightarrow> bool" where
  "special_parameter n \<longleftrightarrow>
     is_embedding_parameter n \<or> is_lm_head_parameter n \<or> is_norm_parameter n
     \<or> is_vision_encoder_parameter n \<or> is_projector_parameter n \<or> is_pooler_parameter n"

lemma ws_config_le_refl [simp, intro]: "ws_config_le c c"
  by (simp add: ws_config_le_def)

lemma config_or_default_simps [simp]:
  "config_or_default (Some c) = c"
  "config_or_default None = WeightSharingConfig"
  by (simp_all add: config_or_default_def)

lemma filter_shareable_iff [simp]:
  "n \<in> filter_shareable_param_names ns c \<longleftrightarrow> n \<in> set ns \<and> is_shareable_parameter n c"
  by (simp add: filter_shareable_param_names_def)

lemma get_shareable_iff [simp]:
  "n \<in> get_shareable_param_names model c \<longleftrightarrow> n \<in> fst ` set model \<and> is_shareable_parameter n c"
  by (simp add: get_shareable_param_names_def)

lemma get_non_shareable_iff [simp]:
  "n \<in> get_non_shareable_param_names model c \<longleftrightarrow>
     n \<in> fst ` set model \<and> \<not> is_shareable_parameter n c"
  by (force simp: get_non_shareable_param_names_def)

lemma is_shareable_mono:
  assumes "ws_config_le a b" and "is_shareable_parameter n (Some a)"
  shows "is_shareable_parameter n (Some b)"
  using assms by (simp add: is_shareable_parameter_def Let_def ws_config_le_def split: if_splits)

lemma is_shareable_non_special:
  "\<not> special_parameter n \<Longrightarrow>
   is_shareable_parameter n c \<longleftrightarrow>
     has_prefix n SHAREABLE_PARAM_PREFIXES \<and> \<not> (\<exists>s \<in> set NON_SHAREABLE_SUFFIXES. py_endswith n s)"
  by (auto simp: is_shareable_parameter_def special_parameter_def Let_def)

subsection \<open>Properties\<close>



text \<open>
  What is never shared, and what is shared without asking: a quantisation scale is private
  under every configuration; with no configuration given (or the default one) the shared
  parameters are exactly the Transformer-layer weights that belong to none of the six special
  classes; and a special parameter of any class is private then.
\<close>

theorem ws_default_sharing:
  "(s \<in> set NON_SHAREABLE_SUFFIXES \<longrightarrow> \<not> is_shareable_parameter (n @ s) c)
   \<and> (is_shareable_parameter n None \<longleftrightarrow>
        has_prefix n SHAREABLE_PARAM_PREFIXES \<and> \<not> special_parameter n
        \<and> \<not> (\<exists>s \<in> set NON_SHAREABLE_SUFFIXES. py_endswith n s))
   \<and> is_shareable_parameter n (Some WeightSharingConfig) = is_shareable_parameter n None"
proof (intro conjI impI)
  assume "s \<in> set NON_SHAREABLE_SUFFIXES"
  then have "\<exists>t \<in> set NON_SHAREABLE_SUFFIXES. py_endswith (n @ s) t" by force
  then show "\<not> is_shareable_parameter (n @ s) c"
    by (simp add: is_shareable_parameter_def Let_def)
next
  show "is_shareable_parameter n None \<longleftrightarrow>
        has_prefix n SHAREABLE_PARAM_PREFIXES \<and> \<not> special_parameter n
        \<and> \<not> (\<exists>s \<in> set NON_SHAREABLE_SUFFIXES. py_endswith n s)"
    by (auto simp: is_shareable_parameter_def special_parameter_def Let_def WeightSharingConfig_def)
next
  show "is_shareable_parameter n (Some WeightSharingConfig) = is_shareable_parameter n None"
    by (simp add: is_shareable_parameter_def)
qed

theorem ws_default_sharing_witness:
  "\<not> is_shareable_parameter ''model.layers.3.attn.k_scale'' None"
  using ws_default_sharing [of "''.k_scale''" "''model.layers.3.attn''" None]
  by (simp add: NON_SHAREABLE_SUFFIXES_def)

end
