(* ===== verification/WS_Registry.thy ===== *)
theory WS_Registry
  imports Prelude
begin

text \<open>
  The file-system registry of the weight-sharing overlay
  (\<open>distributed/weight_sharing/registry.py\<close>).  One registry directory holds the registry
  file, the ready signal and the lock file.  The kernel's part is modelled as it behaves:
  \<open>flock\<close> locks belong to an inode, not to a path, an open creates a fresh inode when the path
  is not linked, and a process that dies loses its locks.  The first half gives each method as
  a function on the directory; the second half splits the methods at their system calls into a
  step relation, so that several primaries and secondaries can interleave and crash.
\<close>

subsection \<open>The registry directory\<close>

text \<open>A file that was opened for writing but not completely written holds \<open>Torn\<close> text.\<close>

datatype 'd content = Torn | Json 'd

record 'd registry_dir =
  dir_made :: bool
  registry_file :: "'d content option"
  registry_tmp :: "'d content option"
  ready_file :: bool
  lock_file :: "nat option"
  flock :: "nat \<Rightarrow> nat option"
  next_inode :: nat

definition fresh_dir :: "'d registry_dir" where
  "fresh_dir = \<lparr>dir_made = False, registry_file = None, registry_tmp = None, ready_file = False,
     lock_file = None, flock = (\<lambda>_. None), next_inode = 0\<rparr>"

definition ensure_directory :: "'d registry_dir \<Rightarrow> 'd registry_dir" where
  "ensure_directory d = d\<lparr>dir_made := True\<rparr>"

text \<open>\<open>write_registry\<close>: truncate the temporary file, complete it, rename it over the registry.\<close>

definition open_tmp :: "'d registry_dir \<Rightarrow> 'd registry_dir" where
  "open_tmp d = d\<lparr>registry_tmp := Some Torn\<rparr>"

definition dump_tmp :: "'d \<Rightarrow> 'd registry_dir \<Rightarrow> 'd registry_dir" where
  "dump_tmp data d = d\<lparr>registry_tmp := Some (Json data)\<rparr>"

definition rename_tmp :: "'d registry_dir \<Rightarrow> 'd registry_dir res" where
  "rename_tmp d =
     (case registry_tmp d of
        None \<Rightarrow> Inl FileNotFoundError
      | Some c \<Rightarrow> Inr (d\<lparr>registry_file := Some c, registry_tmp := None\<rparr>))"

definition write_registry :: "'d \<Rightarrow> 'd registry_dir \<Rightarrow> 'd registry_dir res" where
  "write_registry data d = rename_tmp (dump_tmp data (open_tmp (ensure_directory d)))"

text \<open>
  \<open>read_registry\<close> opens the file up to three times; \<open>view k\<close> is what the open of attempt \<open>k\<close>
  finds, since a writer may act in between.  Falling off the loop would return Python's
  \<open>None\<close>; it never happens (\<open>read_registry_cases\<close>).
\<close>

fun read_attempt :: "nat \<Rightarrow> nat \<Rightarrow> (nat \<Rightarrow> 'd content option) \<Rightarrow> 'd option res" where
  "read_attempt 0 attempt view = Inr None"
| "read_attempt (Suc left) attempt view =
     (case view attempt of
        None \<Rightarrow> Inl FileNotFoundError
      | Some (Json data) \<Rightarrow> Inr (Some data)
      | Some Torn \<Rightarrow>
          (if attempt < 2 then read_attempt left (Suc attempt) view else Inl JSONDecodeError))"

definition read_registry :: "(nat \<Rightarrow> 'd content option) \<Rightarrow> 'd option res" where
  "read_registry view = read_attempt 3 0 view"

definition registry_exists :: "'d registry_dir \<Rightarrow> bool" where
  "registry_exists d \<longleftrightarrow> registry_file d \<noteq> None"

subsection \<open>The liveness lock\<close>

text \<open>\<open>open(lock_path, "w")\<close>: the inode the path names, a new one when there is none.\<close>

definition open_lock :: "'d registry_dir \<Rightarrow> nat \<times> 'd registry_dir" where
  "open_lock d =
     (case lock_file d of
        Some i \<Rightarrow> (i, d)
      | None \<Rightarrow> (next_inode d, d\<lparr>lock_file := Some (next_inode d), next_inode := Suc (next_inode d)\<rparr>))"

text \<open>\<open>flock(fd, LOCK_EX | LOCK_NB)\<close>; \<open>None\<close> is \<open>BlockingIOError\<close>.\<close>

definition try_flock :: "nat \<Rightarrow> nat \<Rightarrow> 'd registry_dir \<Rightarrow> 'd registry_dir option" where
  "try_flock p i d = (if flock d i = None then Some (d\<lparr>flock := (flock d)(i := Some p)\<rparr>) else None)"

definition unflock :: "nat \<Rightarrow> 'd registry_dir \<Rightarrow> 'd registry_dir" where
  "unflock i d = d\<lparr>flock := (flock d)(i := None)\<rparr>"

text \<open>What the kernel does when process \<open>p\<close> ends: every lock it holds is dropped.\<close>

definition kernel_release :: "nat \<Rightarrow> 'd registry_dir \<Rightarrow> 'd registry_dir" where
  "kernel_release p d = d\<lparr>flock := (\<lambda>i. if flock d i = Some p then None else flock d i)\<rparr>"

text \<open>The result is the inode whose descriptor the process keeps in \<open>_lock_fd\<close>.\<close>

definition acquire_primary_lock :: "nat \<Rightarrow> 'd registry_dir \<Rightarrow> nat res \<times> 'd registry_dir" where
  "acquire_primary_lock p d =
     (let (i, d1) = open_lock (ensure_directory d) in
      case try_flock p i d1 of
        None \<Rightarrow> (Inl RuntimeError, d1)
      | Some d2 \<Rightarrow> (Inr i, d2))"

definition is_primary_alive :: "nat \<Rightarrow> 'd registry_dir \<Rightarrow> bool \<times> 'd registry_dir" where
  "is_primary_alive s d =
     (case lock_file d of
        None \<Rightarrow> (False, d)
      | Some i \<Rightarrow>
          (case try_flock s i d of
             None \<Rightarrow> (True, d)
           | Some d1 \<Rightarrow> (False, unflock i d1)))"

subsection \<open>The ready signal and waiting for it\<close>

definition unlink_ready :: "'d registry_dir \<Rightarrow> 'd registry_dir" where
  "unlink_ready d = d\<lparr>ready_file := False\<rparr>"

definition touch_ready :: "'d registry_dir \<Rightarrow> 'd registry_dir" where
  "touch_ready d = d\<lparr>ready_file := True\<rparr>"

definition signal_ready :: "'d registry_dir \<Rightarrow> 'd registry_dir" where
  "signal_ready d = touch_ready (unlink_ready (ensure_directory d))"

text \<open>
  One turn of the polling loop observes the clock and the directory several times; the fields
  name the observations in the order the code makes them.
\<close>

record poll =
  saw_ready :: bool
  clock :: int
  saw_lock_file :: bool
  saw_alive :: bool

fun wait_loop :: "nat \<Rightarrow> (nat \<Rightarrow> poll) \<Rightarrow> int \<Rightarrow> nat \<Rightarrow> bool option" where
  "wait_loop 0 obs deadline k = None"
| "wait_loop (Suc fuel) obs deadline k =
     (if saw_ready (obs k) then Some (saw_alive (obs k))
      else if deadline \<le> clock (obs k) then Some False
      else if saw_lock_file (obs k) \<and> \<not> saw_alive (obs k) then Some False
      else wait_loop fuel obs deadline (Suc k))"

definition wait_for_primary :: "nat \<Rightarrow> (nat \<Rightarrow> poll) \<Rightarrow> int \<Rightarrow> nat \<Rightarrow> bool option" where
  "wait_for_primary fuel obs start timeout_seconds =
     wait_loop fuel obs (start + 1000 * int timeout_seconds) 0"

text \<open>\<open>cleanup\<close>: \<open>fd\<close> is the inode of \<open>_lock_fd\<close>, \<open>None\<close> when no lock is held.\<close>

definition unlink_registry :: "'d registry_dir \<Rightarrow> 'd registry_dir" where
  "unlink_registry d = d\<lparr>registry_file := None\<rparr>"

definition unlink_lock :: "'d registry_dir \<Rightarrow> 'd registry_dir" where
  "unlink_lock d = d\<lparr>lock_file := None\<rparr>"

definition cleanup :: "nat option \<Rightarrow> 'd registry_dir \<Rightarrow> 'd registry_dir" where
  "cleanup fd d =
     (let d1 = (case fd of None \<Rightarrow> d | Some i \<Rightarrow> unflock i d)
      in unlink_lock (unlink_registry (unlink_ready d1)))"

subsection \<open>Reading back what was written\<close>

lemma write_registry_Inr:
  "\<exists>d'. write_registry data d = Inr d' \<and> registry_file d' = Some (Json data)
        \<and> registry_tmp d' = None \<and> ready_file d' = ready_file d
        \<and> lock_file d' = lock_file d \<and> flock d' = flock d"
  by (simp add: write_registry_def rename_tmp_def dump_tmp_def open_tmp_def ensure_directory_def)

lemma read_registry_unfold:
  "read_registry view =
     (case view 0 of None \<Rightarrow> Inl FileNotFoundError | Some (Json x) \<Rightarrow> Inr (Some x) | Some Torn \<Rightarrow>
       (case view 1 of None \<Rightarrow> Inl FileNotFoundError | Some (Json x) \<Rightarrow> Inr (Some x) | Some Torn \<Rightarrow>
         (case view 2 of None \<Rightarrow> Inl FileNotFoundError | Some (Json x) \<Rightarrow> Inr (Some x)
          | Some Torn \<Rightarrow> Inl JSONDecodeError)))"
  by (simp add: read_registry_def numeral_3_eq_3 numeral_2_eq_2 split: option.splits content.splits)

lemma read_registry_cases:
  "read_registry view = Inl FileNotFoundError \<or> read_registry view = Inl JSONDecodeError
   \<or> (\<exists>x k. k < 3 \<and> view k = Some (Json x) \<and> read_registry view = Inr (Some x))"
  unfolding read_registry_unfold
  by (auto simp: numeral_3_eq_3 Ex_less_Suc numeral_2_eq_2 split: option.splits content.splits)

text \<open>
  C20.  The registry round trip: writing never fails, leaves no temporary file behind and does
  not touch the ready signal or the lock; a read that finds the written file returns exactly the
  written data, also when up to two earlier attempts found torn text; three torn attempts give
  the decode error.
\<close>

theorem registry_write_read_roundtrip:
  "(\<exists>d'. write_registry data d = Inr d' \<and> registry_file d' = Some (Json data)
         \<and> registry_tmp d' = None \<and> ready_file d' = ready_file d \<and> flock d' = flock d
         \<and> read_registry (\<lambda>_. registry_file d') = Inr (Some data)
         \<and> (\<forall>k. k < 3 \<longrightarrow> read_registry (\<lambda>i. if i < k then Some Torn else registry_file d')
                            = Inr (Some data)))
   \<and> read_registry (\<lambda>_. Some Torn :: 'd content option) = Inl JSONDecodeError"
proof (intro conjI)
  obtain d' where d': "write_registry data d = Inr d'" "registry_file d' = Some (Json data)"
      "registry_tmp d' = None" "ready_file d' = ready_file d" "flock d' = flock d"
    using write_registry_Inr by metis
  moreover have "read_registry (\<lambda>i. if i < k then Some Torn else registry_file d') = Inr (Some data)"
    if "k < 3" for k
    using that d'(2) by (auto simp: read_registry_unfold)
  moreover have "read_registry (\<lambda>_. registry_file d') = Inr (Some data)"
    using d'(2) by (simp add: read_registry_unfold)
  ultimately show "\<exists>d'. write_registry data d = Inr d' \<and> registry_file d' = Some (Json data)
         \<and> registry_tmp d' = None \<and> ready_file d' = ready_file d \<and> flock d' = flock d
         \<and> read_registry (\<lambda>_. registry_file d') = Inr (Some data)
         \<and> (\<forall>k. k < 3 \<longrightarrow> read_registry (\<lambda>i. if i < k then Some Torn else registry_file d')
                            = Inr (Some data))"
    by blast
qed (simp add: read_registry_unfold)

theorem registry_write_read_roundtrip_witness:
  "\<exists>d'. write_registry (7::nat) fresh_dir = Inr d'
        \<and> read_registry (\<lambda>i. if i < 2 then Some Torn else registry_file d') = Inr (Some 7)"
  using registry_write_read_roundtrip [of "7::nat" fresh_dir]
  by (auto dest: spec [where x = 2])

subsection \<open>Waiting ends\<close>

lemma wait_loop_enough:
  assumes mono: "\<And>k. start + 500 * int k \<le> clock (obs k)"
    and "k \<le> 2 * t" and "2 * t - k < fuel"
  shows "wait_loop fuel obs (start + 1000 * int t) k \<noteq> None"
  using assms(2,3)
proof (induction fuel arbitrary: k)
  case 0
  then show ?case by simp
next
  case (Suc fuel)
  show ?case
  proof (cases "start + 1000 * int t \<le> clock (obs k)")
    case True
    then show ?thesis by simp
  next
    case False
    with mono [of k] have "k < 2 * t" by linarith
    with Suc.prems have "Suc k \<le> 2 * t" and "2 * t - Suc k < fuel" by linarith+
    then have "wait_loop fuel obs (start + 1000 * int t) (Suc k) \<noteq> None"
      by (rule Suc.IH)
    then show ?thesis by simp
  qed
qed

lemma wait_loop_True:
  "wait_loop fuel obs deadline k = Some True \<Longrightarrow>
   \<exists>j\<ge>k. saw_ready (obs j) \<and> saw_alive (obs j) \<and>
     (\<forall>i. k \<le> i \<and> i < j \<longrightarrow>
        \<not> saw_ready (obs i) \<and> clock (obs i) < deadline \<and> (saw_lock_file (obs i) \<longrightarrow> saw_alive (obs i)))"
proof (induction fuel arbitrary: k)
  case 0
  then show ?case by simp
next
  case (Suc fuel)
  show ?case
  proof (cases "saw_ready (obs k)")
    case True
    with Suc.prems show ?thesis by (intro exI [of _ k]) auto
  next
    case False
    with Suc.prems have now: "clock (obs k) < deadline" "saw_lock_file (obs k) \<longrightarrow> saw_alive (obs k)"
      and rest: "wait_loop fuel obs deadline (Suc k) = Some True"
      by (auto split: if_splits)
    from Suc.IH [OF rest] obtain j where j: "j \<ge> Suc k" "saw_ready (obs j)" "saw_alive (obs j)"
      "\<forall>i. Suc k \<le> i \<and> i < j \<longrightarrow> \<not> saw_ready (obs i) \<and> clock (obs i) < deadline
              \<and> (saw_lock_file (obs i) \<longrightarrow> saw_alive (obs i))"
      by blast
    have "\<forall>i. k \<le> i \<and> i < j \<longrightarrow> \<not> saw_ready (obs i) \<and> clock (obs i) < deadline
              \<and> (saw_lock_file (obs i) \<longrightarrow> saw_alive (obs i))"
      using False now j(4) by (metis Suc_leI le_neq_implies_less)
    with j show ?thesis by (intro exI [of _ j]) auto
  qed
qed

text \<open>
  C21.  \<open>wait_for_primary\<close> returns: with a clock that advances by at least the half-second sleep
  per turn, \<open>2 * timeout + 1\<close> turns of the loop are enough; and it returns \<open>True\<close> only after a
  poll that saw the ready signal and then a held lock, every earlier poll having been before the
  deadline with no dead lock in sight.
\<close>

theorem wait_for_primary_returns:
  assumes mono: "\<And>k. start + 500 * int k \<le> clock (obs k)" and fuel: "2 * t + 1 \<le> fuel"
  shows "\<exists>b. wait_for_primary fuel obs start t = Some b
     \<and> (b \<longrightarrow> (\<exists>j. saw_ready (obs j) \<and> saw_alive (obs j)
          \<and> (\<forall>i<j. \<not> saw_ready (obs i) \<and> clock (obs i) < start + 1000 * int t
                   \<and> (saw_lock_file (obs i) \<longrightarrow> saw_alive (obs i)))))"
proof -
  have "wait_loop fuel obs (start + 1000 * int t) 0 \<noteq> None"
    by (rule wait_loop_enough [OF mono]) (use fuel in auto)
  then obtain b where b: "wait_loop fuel obs (start + 1000 * int t) 0 = Some b" by blast
  then show ?thesis
    using wait_loop_True [of fuel obs _ 0] by (cases b) (auto simp: wait_for_primary_def)
qed

theorem wait_for_primary_returns_witness:
  "\<exists>b. wait_for_primary 5 (\<lambda>k. \<lparr>saw_ready = (k = 1), clock = 500 * int k, saw_lock_file = False,
         saw_alive = True\<rparr>) 0 2 = Some b"
  using wait_for_primary_returns
    [of 0 "\<lambda>k. \<lparr>saw_ready = (k = 1), clock = 500 * int k, saw_lock_file = False, saw_alive = True\<rparr>" 2 5]
  by auto

subsection \<open>The liveness lock as an interface\<close>

text \<open>
  What the rest of the overlay uses of the lock: one process at a time acquires it, everyone can
  ask whether it is held, and it is released when its holder ends.  \<open>holder\<close> is the abstract
  state.
\<close>

datatype lock_event = Acquire nat | Probe nat | Ends nat

locale liveness_lock =
  fixes acquire :: "nat \<Rightarrow> 's \<Rightarrow> 'k res \<times> 's"
    and alive :: "nat \<Rightarrow> 's \<Rightarrow> bool \<times> 's"
    and ends :: "nat \<Rightarrow> 's \<Rightarrow> 's"
    and holder :: "'s \<Rightarrow> nat option"
    and inv :: "'s \<Rightarrow> bool"
  assumes acquire_free: "inv s \<Longrightarrow> holder s = None \<Longrightarrow>
      \<exists>k s'. acquire p s = (Inr k, s') \<and> holder s' = Some p \<and> inv s'"
    and acquire_held: "inv s \<Longrightarrow> holder s = Some q \<Longrightarrow>
      \<exists>s'. acquire p s = (Inl RuntimeError, s') \<and> holder s' = Some q \<and> inv s'"
    and alive_holder: "inv s \<Longrightarrow> alive p s = (holder s \<noteq> None, s)"
    and ends_holder: "inv s \<Longrightarrow> holder (ends p s) = (if holder s = Some p then None else holder s)"
    and ends_inv: "inv s \<Longrightarrow> inv (ends p s)"
begin

definition lock_step :: "lock_event \<Rightarrow> 's \<Rightarrow> 's" where
  "lock_step e s = (case e of Acquire p \<Rightarrow> snd (acquire p s) | Probe p \<Rightarrow> snd (alive p s)
                    | Ends p \<Rightarrow> ends p s)"

lemma lock_step_inv: "inv s \<Longrightarrow> inv (lock_step e s)"
proof (cases e)
  case (Acquire p)
  assume "inv s"
  then show ?thesis
    using Acquire acquire_free [of s p] acquire_held [of s _ p]
    by (cases "holder s") (auto simp: lock_step_def)
qed (auto simp: lock_step_def alive_holder ends_inv)

lemma lock_step_holder:
  "inv s \<Longrightarrow> holder s = Some p \<Longrightarrow> e \<noteq> Ends p \<Longrightarrow> holder (lock_step e s) = Some p"
  using acquire_held [of s p]
  by (cases e) (auto simp: lock_step_def alive_holder ends_holder, metis snd_conv)

lemma lock_run_holder:
  "inv s \<Longrightarrow> holder s = Some p \<Longrightarrow> Ends p \<notin> set es \<Longrightarrow>
   inv (fold lock_step es s) \<and> holder (fold lock_step es s) = Some p"
  by (induction es arbitrary: s) (auto simp: lock_step_inv lock_step_holder)

lemma exclusive_until_end:
  assumes "inv s" and "holder s = None" and "acquire p s = (r, s')" and "Ends p \<notin> set es"
  shows "fst (acquire q (fold lock_step es s')) = Inl RuntimeError
       \<and> fst (alive q (fold lock_step es s'))
       \<and> (\<exists>k t. acquire q (ends p (fold lock_step es s')) = (Inr k, t))"
proof -
  from assms acquire_free [of s p] have s': "inv s'" "holder s' = Some p" by auto
  let ?t = "fold lock_step es s'"
  from lock_run_holder [OF s' assms(4)] have t: "inv ?t" "holder ?t = Some p" by auto
  then have "holder (ends p ?t) = None" "inv (ends p ?t)" by (simp_all add: ends_holder ends_inv)
  with t show ?thesis
    using acquire_held [of ?t p q] acquire_free [of "ends p ?t" q] by (auto simp: alive_holder)
qed

end

text \<open>The directory provides the interface: the holder is whoever locks the linked inode.\<close>

definition lock_holder :: "'d registry_dir \<Rightarrow> nat option" where
  "lock_holder d = (case lock_file d of None \<Rightarrow> None | Some i \<Rightarrow> flock d i)"

definition inodes_ok :: "'d registry_dir \<Rightarrow> bool" where
  "inodes_ok d \<longleftrightarrow> (\<forall>i \<ge> next_inode d. flock d i = None)
     \<and> (\<forall>i. lock_file d = Some i \<longrightarrow> i < next_inode d)"

lemma fresh_dir_ok [simp]: "inodes_ok fresh_dir" "lock_holder fresh_dir = None"
  by (simp_all add: inodes_ok_def fresh_dir_def lock_holder_def)

lemmas lock_defs = acquire_primary_lock_def open_lock_def try_flock_def is_primary_alive_def
  unflock_def kernel_release_def ensure_directory_def lock_holder_def inodes_ok_def

interpretation ws_lock: liveness_lock acquire_primary_lock is_primary_alive kernel_release
  lock_holder inodes_ok
proof unfold_locales
  fix s :: "'d registry_dir" and p
  assume "inodes_ok s" and "lock_holder s = None"
  then show "\<exists>k s'. acquire_primary_lock p s = (Inr k, s') \<and> lock_holder s' = Some p \<and> inodes_ok s'"
    by (cases "lock_file s") (auto simp: lock_defs)
next
  fix s :: "'d registry_dir" and p q
  assume "inodes_ok s" and "lock_holder s = Some q"
  then show "\<exists>s'. acquire_primary_lock p s = (Inl RuntimeError, s') \<and> lock_holder s' = Some q \<and> inodes_ok s'"
    by (cases "lock_file s") (auto simp: lock_defs)
next
  fix s :: "'d registry_dir" and p
  show "is_primary_alive p s = (lock_holder s \<noteq> None, s)"
    by (cases "lock_file s") (auto simp: lock_defs fun_upd_idem)
next
  fix s :: "'d registry_dir" and p
  show "lock_holder (kernel_release p s) = (if lock_holder s = Some p then None else lock_holder s)"
    by (cases "lock_file s") (auto simp: lock_defs)
next
  fix s :: "'d registry_dir" and p
  assume "inodes_ok s"
  then show "inodes_ok (kernel_release p s)"
    by (auto simp: lock_defs)
qed



end
