(* ===== verification/WS_Protocol.thy ===== *)
theory WS_Protocol
  imports WS_Registry
begin

text \<open>
  The registry under concurrency: any number of primaries and secondaries on one directory,
  every method of \<open>WS_Registry\<close> split at its system calls.  A process is a program counter;
  \<open>ws_do p a w\<close> is what process \<open>p\<close> does next when it performs \<open>a\<close>, \<open>None\<close> when its program
  counter does not allow it.  A primary runs \<open>acquire_primary_lock\<close>, \<open>write_registry\<close> and
  \<open>signal_ready\<close> in the order of \<open>WeightSharingManager.export_weights\<close>; a secondary runs
  \<open>wait_for_primary\<close> and then \<open>read_registry\<close>.  The data a primary writes is abbreviated by its
  process id, the registry's \<open>primary_pid\<close>.
\<close>

datatype ws_pc =
    Idle
  | POpened nat | PLocked nat | PTorn nat | PDumped nat | PRenamed nat | PUnlinked nat
  | PRunning nat | PClean1 | PClean2 | PClean3
  | SWaiting | SChecking | SOpened bool nat | SProbing nat | SPassed | SImported nat
  | Dead

record ws_world =
  wdir :: "nat registry_dir"
  wpc :: "nat \<Rightarrow> ws_pc"

definition ws_init :: ws_world where
  "ws_init = \<lparr>wdir = fresh_dir, wpc = (\<lambda>_. Idle)\<rparr>"

datatype ws_action =
    AcqOpen | AcqFlock | WriteOpen | WriteDump | WriteRename | ReadyUnlink | ReadyTouch
  | CleanUnlock | CleanReady | CleanRegistry | CleanLock
  | WaitStart | WaitReady | WaitPoll | WaitTimeout | CheckOpen | ProbeFlock | ProbeUnlock
  | ReadRegistry | Die

definition set_pc :: "nat \<Rightarrow> ws_pc \<Rightarrow> nat registry_dir \<Rightarrow> ws_world \<Rightarrow> ws_world" where
  "set_pc p c d w = w\<lparr>wdir := d, wpc := (wpc w)(p := c)\<rparr>"

definition ws_do :: "nat \<Rightarrow> ws_action \<Rightarrow> ws_world \<Rightarrow> ws_world option" where
  "ws_do p a w = (let d = wdir w in case a of
     AcqOpen \<Rightarrow> (case wpc w p of Idle \<Rightarrow>
        (let (i, d') = open_lock (ensure_directory d) in Some (set_pc p (POpened i) d' w)) | _ \<Rightarrow> None)
   | AcqFlock \<Rightarrow> (case wpc w p of POpened i \<Rightarrow>
        (case try_flock p i d of Some d' \<Rightarrow> Some (set_pc p (PLocked i) d' w)
         | None \<Rightarrow> Some (set_pc p Dead d w)) | _ \<Rightarrow> None)
   | WriteOpen \<Rightarrow> (case wpc w p of PLocked i \<Rightarrow> Some (set_pc p (PTorn i) (open_tmp d) w) | _ \<Rightarrow> None)
   | WriteDump \<Rightarrow> (case wpc w p of PTorn i \<Rightarrow> Some (set_pc p (PDumped i) (dump_tmp p d) w) | _ \<Rightarrow> None)
   | WriteRename \<Rightarrow> (case wpc w p of PDumped i \<Rightarrow>
        (case rename_tmp d of Inr d' \<Rightarrow> Some (set_pc p (PRenamed i) d' w)
         | Inl _ \<Rightarrow> Some (set_pc p Dead (kernel_release p d) w)) | _ \<Rightarrow> None)
   | ReadyUnlink \<Rightarrow> (case wpc w p of PRenamed i \<Rightarrow> Some (set_pc p (PUnlinked i) (unlink_ready d) w) | _ \<Rightarrow> None)
   | ReadyTouch \<Rightarrow> (case wpc w p of PUnlinked i \<Rightarrow> Some (set_pc p (PRunning i) (touch_ready d) w) | _ \<Rightarrow> None)
   | CleanUnlock \<Rightarrow> (case wpc w p of PRunning i \<Rightarrow> Some (set_pc p PClean1 (unflock i d) w) | _ \<Rightarrow> None)
   | CleanReady \<Rightarrow> (case wpc w p of PClean1 \<Rightarrow> Some (set_pc p PClean2 (unlink_ready d) w) | _ \<Rightarrow> None)
   | CleanRegistry \<Rightarrow> (case wpc w p of PClean2 \<Rightarrow> Some (set_pc p PClean3 (unlink_registry d) w) | _ \<Rightarrow> None)
   | CleanLock \<Rightarrow> (case wpc w p of PClean3 \<Rightarrow> Some (set_pc p Dead (unlink_lock d) w) | _ \<Rightarrow> None)
   | WaitStart \<Rightarrow> (case wpc w p of Idle \<Rightarrow> Some (set_pc p SWaiting d w) | _ \<Rightarrow> None)
   | WaitReady \<Rightarrow> (case wpc w p of SWaiting \<Rightarrow>
        (if ready_file d then Some (set_pc p SChecking d w) else None) | _ \<Rightarrow> None)
   | WaitPoll \<Rightarrow> (case wpc w p of SWaiting \<Rightarrow>
        (case lock_file d of Some i \<Rightarrow> Some (set_pc p (SOpened False i) d w) | None \<Rightarrow> None) | _ \<Rightarrow> None)
   | WaitTimeout \<Rightarrow> (case wpc w p of SWaiting \<Rightarrow> Some (set_pc p Dead d w) | _ \<Rightarrow> None)
   | CheckOpen \<Rightarrow> (case wpc w p of SChecking \<Rightarrow>
        (case lock_file d of Some i \<Rightarrow> Some (set_pc p (SOpened True i) d w)
         | None \<Rightarrow> Some (set_pc p Dead d w)) | _ \<Rightarrow> None)
   | ProbeFlock \<Rightarrow> (case wpc w p of SOpened final i \<Rightarrow>
        (case try_flock p i d of
           None \<Rightarrow> Some (set_pc p (if final then SPassed else SWaiting) d w)
         | Some d' \<Rightarrow> Some (set_pc p (SProbing i) d' w)) | _ \<Rightarrow> None)
   | ProbeUnlock \<Rightarrow> (case wpc w p of SProbing i \<Rightarrow> Some (set_pc p Dead (unflock i d) w) | _ \<Rightarrow> None)
   | ReadRegistry \<Rightarrow> (case wpc w p of SPassed \<Rightarrow>
        (case registry_file d of Some (Json q) \<Rightarrow> Some (set_pc p (SImported q) d w)
         | _ \<Rightarrow> Some (set_pc p Dead d w)) | _ \<Rightarrow> None)
   | Die \<Rightarrow> Some (set_pc p Dead (kernel_release p d) w))"

inductive ws_step :: "ws_world \<Rightarrow> ws_world \<Rightarrow> bool" where
  does: "ws_do p a w = Some w' \<Longrightarrow> ws_step w w'"

text \<open>All runs, and the runs in which primaries only ever end by crashing or exiting without
  \<open>cleanup\<close>.\<close>

inductive ws_reach :: "ws_world \<Rightarrow> bool" where
  start: "ws_reach ws_init"
| step: "ws_reach w \<Longrightarrow> ws_step w w' \<Longrightarrow> ws_reach w'"

fun cleaning :: "ws_pc \<Rightarrow> bool" where
  "cleaning PClean1 = True" | "cleaning PClean2 = True" | "cleaning PClean3 = True"
| "cleaning _ = False"

inductive crash_reach :: "ws_world \<Rightarrow> bool" where
  start: "crash_reach ws_init"
| step: "crash_reach w \<Longrightarrow> ws_step w w' \<Longrightarrow> \<forall>p. \<not> cleaning (wpc w' p) \<Longrightarrow> crash_reach w'"

inductive_cases ws_stepE: "ws_step w w'"

fun ws_run :: "(nat \<times> ws_action) list \<Rightarrow> ws_world \<Rightarrow> ws_world option" where
  "ws_run [] w = Some w"
| "ws_run ((p, a) # es) w = (case ws_do p a w of None \<Rightarrow> None | Some w' \<Rightarrow> ws_run es w')"

subsection \<open>The invariant of crash-only runs\<close>

fun held_inode :: "ws_pc \<Rightarrow> nat option" where
  "held_inode (PLocked i) = Some i" | "held_inode (PTorn i) = Some i"
| "held_inode (PDumped i) = Some i" | "held_inode (PRenamed i) = Some i"
| "held_inode (PUnlinked i) = Some i" | "held_inode (PRunning i) = Some i"
| "held_inode (SProbing i) = Some i" | "held_inode _ = None"

fun opened_inode :: "ws_pc \<Rightarrow> nat option" where
  "opened_inode (POpened i) = Some i" | "opened_inode (SOpened b i) = Some i"
| "opened_inode c = held_inode c"

fun published :: "ws_pc \<Rightarrow> bool" where
  "published (PRenamed _) = True" | "published (PUnlinked _) = True"
| "published (PRunning _) = True" | "published _ = False"

definition ws_inv :: "ws_world \<Rightarrow> bool" where
  "ws_inv w \<longleftrightarrow>
     (\<forall>p i. held_inode (wpc w p) = Some i \<longleftrightarrow> flock (wdir w) i = Some p)
   \<and> (\<forall>p i. opened_inode (wpc w p) = Some i \<longrightarrow> lock_file (wdir w) = Some i)
   \<and> (\<forall>p. (\<exists>i. wpc w p = PDumped i) \<longrightarrow> registry_tmp (wdir w) = Some (Json p))
   \<and> (\<forall>p. published (wpc w p) \<longrightarrow> registry_file (wdir w) = Some (Json p))
   \<and> (\<forall>q. registry_file (wdir w) = Some (Json q) \<longrightarrow> published (wpc w q) \<or> wpc w q = Dead)
   \<and> (\<forall>s q. wpc w s = SImported q \<longrightarrow> published (wpc w q) \<or> wpc w q = Dead)
   \<and> registry_file (wdir w) \<noteq> Some Torn
   \<and> (\<forall>p. \<not> cleaning (wpc w p))"

lemmas ws_dir_defs = open_lock_def try_flock_def unflock_def kernel_release_def ensure_directory_def
  open_tmp_def dump_tmp_def rename_tmp_def unlink_ready_def touch_ready_def
  unlink_registry_def unlink_lock_def set_pc_def

lemma ws_inv_init: "ws_inv ws_init"
  by (simp add: ws_inv_def ws_init_def fresh_dir_def)

lemma held_opened: "held_inode c = Some i \<Longrightarrow> opened_inode c = Some i"
  by (cases c) auto

lemma ws_inv_exclusive:
  assumes "ws_inv w" and "held_inode (wpc w p) = Some i" and "held_inode (wpc w q) = Some j"
  shows "p = q"
proof -
  have "opened_inode (wpc w p) = Some i" "opened_inode (wpc w q) = Some j"
    using assms(2,3) by (auto intro: held_opened)
  with assms(1) have "lock_file (wdir w) = Some i" "lock_file (wdir w) = Some j"
    unfolding ws_inv_def by blast+
  then have "i = j" by simp
  moreover from assms have "flock (wdir w) i = Some p" "flock (wdir w) j = Some q"
    by (auto simp: ws_inv_def)
  ultimately show ?thesis by simp
qed

text \<open>One process moves: what its new program counter and directory must satisfy.\<close>

lemma ws_inv_set_pc:
  assumes inv: "ws_inv w"
    and oth: "\<And>q i. q \<noteq> p \<Longrightarrow> flock d' i = Some q \<longleftrightarrow> flock (wdir w) i = Some q"
    and own: "\<And>i. flock d' i = Some p \<longleftrightarrow> held_inode c = Some i"
    and lck: "\<And>i. lock_file (wdir w) = Some i \<Longrightarrow> lock_file d' = Some i"
    and opn: "\<And>i. opened_inode c = Some i \<Longrightarrow> lock_file d' = Some i"
    and tmp: "registry_tmp d' = registry_tmp (wdir w) \<or> (\<forall>q i. q \<noteq> p \<longrightarrow> wpc w q \<noteq> PDumped i)"
    and dmp: "\<And>i. c = PDumped i \<Longrightarrow> registry_tmp d' = Some (Json p)"
    and reg: "registry_file d' = registry_file (wdir w) \<or>
              registry_file d' = Some (Json p) \<and> published c \<and> (\<forall>q. q \<noteq> p \<longrightarrow> \<not> published (wpc w q))"
    and pub: "published c \<Longrightarrow> registry_file d' = Some (Json p)"
    and stay: "published (wpc w p) \<or> wpc w p = Dead \<Longrightarrow> published c \<or> c = Dead"
    and imp: "\<And>q. c = SImported q \<Longrightarrow> q \<noteq> p \<and> registry_file (wdir w) = Some (Json q)"
    and cln: "\<not> cleaning c"
  shows "ws_inv (set_pc p c d' w)"
  unfolding ws_inv_def
proof (intro conjI allI impI)
  note I = inv [unfolded ws_inv_def]
  fix q i
  show "(held_inode (wpc (set_pc p c d' w) q) = Some i) = (flock (wdir (set_pc p c d' w)) i = Some q)"
    using I oth [of q i] own [of i] by (simp add: set_pc_def)
next
  note I = inv [unfolded ws_inv_def]
  fix q i assume "opened_inode (wpc (set_pc p c d' w) q) = Some i"
  then show "lock_file (wdir (set_pc p c d' w)) = Some i"
    using I opn lck by (auto simp: set_pc_def split: if_splits)
next
  note I = inv [unfolded ws_inv_def]
  fix q assume "\<exists>i. wpc (set_pc p c d' w) q = PDumped i"
  then show "registry_tmp (wdir (set_pc p c d' w)) = Some (Json q)"
    using I tmp dmp by (auto simp: set_pc_def split: if_splits)
next
  note I = inv [unfolded ws_inv_def]
  fix q assume "published (wpc (set_pc p c d' w) q)"
  then show "registry_file (wdir (set_pc p c d' w)) = Some (Json q)"
    using I reg pub by (auto simp: set_pc_def split: if_splits)
next
  note I = inv [unfolded ws_inv_def]
  fix q assume "registry_file (wdir (set_pc p c d' w)) = Some (Json q)"
  with reg have "registry_file (wdir w) = Some (Json q) \<or> q = p \<and> published c"
    by (auto simp: set_pc_def)
  with I have "published (wpc w q) \<or> wpc w q = Dead \<or> q = p \<and> published c" by blast
  then show "published (wpc (set_pc p c d' w) q) \<or> wpc (set_pc p c d' w) q = Dead"
    using stay by (auto simp: set_pc_def)
next
  note I = inv [unfolded ws_inv_def]
  fix s q assume "wpc (set_pc p c d' w) s = SImported q"
  then show "published (wpc (set_pc p c d' w) q) \<or> wpc (set_pc p c d' w) q = Dead"
    using I stay imp by (auto simp: set_pc_def split: if_splits)
next
  show "registry_file (wdir (set_pc p c d' w)) \<noteq> Some Torn"
    using inv reg by (auto simp: set_pc_def ws_inv_def)
next
  fix q show "\<not> cleaning (wpc (set_pc p c d' w) q)"
    using inv cln by (simp add: set_pc_def ws_inv_def)
qed

lemma ws_do_cases:
  assumes "ws_do p a w = Some w'" and "\<not> cleaning (wpc w' p)" and "\<not> cleaning (wpc w p)"
  obtains
    (open_lock) i d where "wpc w p = Idle" "open_lock (ensure_directory (wdir w)) = (i, d)"
      "w' = set_pc p (POpened i) d w"
  | (lock) i c where "flock (wdir w) i = None" "held_inode c = Some i" "lock_file (wdir w) = Some i \<longrightarrow> opened_inode (wpc w p) = Some i"
      "c = PLocked i \<and> wpc w p = POpened i \<or> c = SProbing i \<and> (\<exists>b. wpc w p = SOpened b i)"
      "w' = set_pc p c (wdir w\<lparr>flock := (flock (wdir w))(i := Some p)\<rparr>) w"
  | (truncate) i where "wpc w p = PLocked i" "w' = set_pc p (PTorn i) (open_tmp (wdir w)) w"
  | (dump) i where "wpc w p = PTorn i" "w' = set_pc p (PDumped i) (dump_tmp p (wdir w)) w"
  | (rename) i d where "wpc w p = PDumped i" "rename_tmp (wdir w) = Inr d" "w' = set_pc p (PRenamed i) d w"
  | (ready) c i where "wpc w p = PRenamed i \<and> c = PUnlinked i \<or> wpc w p = PUnlinked i \<and> c = PRunning i"
      "\<exists>b. w' = set_pc p c (wdir w\<lparr>ready_file := b\<rparr>) w"
  | (goes) c where "held_inode (wpc w p) = None" "\<not> published (wpc w p)" "wpc w p \<noteq> Dead"
      "held_inode c = None" "\<not> published c" "\<And>i. c \<noteq> PDumped i" "\<not> cleaning c"
      "\<And>i. opened_inode c = Some i \<Longrightarrow> lock_file (wdir w) = Some i"
      "\<And>q. c = SImported q \<Longrightarrow> wpc w p = SPassed \<and> registry_file (wdir w) = Some (Json q)"
      "w' = set_pc p c (wdir w) w"
  | (unlock) i where "wpc w p = SProbing i" "w' = set_pc p Dead (unflock i (wdir w)) w"
  | (dies) "w' = set_pc p Dead (kernel_release p (wdir w)) w"
proof (cases a)
  case AcqOpen
  with assms that(1) show thesis by (auto simp: ws_do_def Let_def split: ws_pc.splits prod.splits)
next
  case AcqFlock
  with assms that(2) that(7) [of Dead] show thesis
    by (cases "wpc w p") (auto simp: ws_do_def Let_def try_flock_def split: if_splits option.splits)
next
  case WriteOpen
  with assms that(3) show thesis by (cases "wpc w p") (auto simp: ws_do_def Let_def)
next
  case WriteDump
  with assms that(4) show thesis by (cases "wpc w p") (auto simp: ws_do_def Let_def)
next
  case WriteRename
  with assms that(5,9) show thesis by (cases "wpc w p") (auto simp: ws_do_def Let_def split: sum.splits)
next
  case ReadyUnlink
  with assms that(6) show thesis by (cases "wpc w p") (auto simp: ws_do_def Let_def unlink_ready_def)
next
  case ReadyTouch
  with assms that(6) show thesis by (cases "wpc w p") (auto simp: ws_do_def Let_def touch_ready_def)
next
  case CleanUnlock
  with assms show thesis by (cases "wpc w p") (auto simp: ws_do_def Let_def set_pc_def)
next
  case CleanReady
  with assms show thesis by (cases "wpc w p") (auto simp: ws_do_def Let_def set_pc_def)
next
  case CleanRegistry
  with assms show thesis by (cases "wpc w p") (auto simp: ws_do_def Let_def set_pc_def)
next
  case CleanLock
  with assms show thesis by (cases "wpc w p") (auto simp: ws_do_def Let_def set_pc_def)
next
  case WaitStart
  with assms that(7) [of SWaiting] show thesis by (cases "wpc w p") (auto simp: ws_do_def Let_def)
next
  case WaitReady
  with assms that(7) [of SChecking] show thesis
    by (cases "wpc w p") (auto simp: ws_do_def Let_def split: if_splits)
next
  case WaitPoll
  with assms that(7) [of "SOpened False (the (lock_file (wdir w)))"] show thesis by (cases "wpc w p") (auto simp: ws_do_def Let_def split: option.splits)
next
  case WaitTimeout
  with assms that(7) [of Dead] show thesis by (cases "wpc w p") (auto simp: ws_do_def Let_def)
next
  case CheckOpen
  then show thesis
  proof (cases "lock_file (wdir w)")
    case None
    with CheckOpen assms that(7) [of Dead] show thesis
      by (cases "wpc w p") (auto simp: ws_do_def Let_def)
  next
    case (Some i)
    with CheckOpen assms that(7) [of "SOpened True i"] show thesis
      by (cases "wpc w p") (auto simp: ws_do_def Let_def)
  qed
next
  case ProbeFlock
  with assms(1) obtain f i where pc: "wpc w p = SOpened f i"
    by (cases "wpc w p") (auto simp: ws_do_def Let_def)
  show thesis
  proof (cases "flock (wdir w) i")
    case None
    with pc ProbeFlock assms(1) that(2) [of i "SProbing i"] show thesis
      by (auto simp: ws_do_def Let_def try_flock_def)
  next
    case (Some q)
    with pc ProbeFlock assms(1) that(7) [of "if f then SPassed else SWaiting"] show thesis
      by (cases f) (simp_all add: ws_do_def Let_def try_flock_def)
  qed
next
  case ProbeUnlock
  with assms that(8) show thesis by (cases "wpc w p") (auto simp: ws_do_def Let_def)
next
  case ReadRegistry
  then show thesis
  proof (cases "\<exists>q. registry_file (wdir w) = Some (Json q)")
    case True
    then obtain q where "registry_file (wdir w) = Some (Json q)" ..
    with ReadRegistry assms that(7) [of "SImported q"] show thesis
      by (cases "wpc w p") (auto simp: ws_do_def Let_def)
  next
    case False
    with ReadRegistry assms that(7) [of Dead] show thesis
      by (cases "wpc w p") (auto simp: ws_do_def Let_def split: option.splits content.splits)
  qed
next
  case Die
  with assms that(9) show thesis by (auto simp: ws_do_def Let_def)
qed


lemma ws_do_inv:
  assumes inv: "ws_inv w" and d: "ws_do p a w = Some w'" and nc: "\<not> cleaning (wpc w' p)"
  shows "ws_inv w'"
proof -
  note I = inv [unfolded ws_inv_def]
  have ncw: "\<not> cleaning (wpc w p)" using I by blast
  have excl: "held_inode (wpc w p) = Some i \<Longrightarrow> q \<noteq> p \<Longrightarrow> held_inode (wpc w q) = None" for q i
    using ws_inv_exclusive [OF inv, of p i q] by (cases "held_inode (wpc w q)") auto
  have F: "flock (wdir w) i = Some q \<longleftrightarrow> held_inode (wpc w q) = Some i" for i q using I by blast
  have R: "held_inode (wpc w q) = Some i \<Longrightarrow> lock_file (wdir w) = Some i" for q i
    using I held_opened by blast
  have held: "published c \<Longrightarrow> held_inode c \<noteq> None" "c = PDumped i \<Longrightarrow> held_inode c \<noteq> None" for c i
    by (cases c; simp)+
  have alone: "held_inode (wpc w p) = Some i \<Longrightarrow> q \<noteq> p \<Longrightarrow> \<not> published (wpc w q) \<and> wpc w q \<noteq> PDumped j"
    for i j q using excl [of i q] held by blast
  note intr = ws_inv_set_pc [OF inv]
  from d nc ncw show ?thesis
  proof (cases rule: ws_do_cases)
    case (open_lock i d)
    with R show ?thesis
      by (auto intro!: intr simp: open_lock_def ensure_directory_def F split: option.splits)
  next
    case (lock i c)
    have "opened_inode (wpc w p) = Some i" using lock(4) by auto
    with I have "lock_file (wdir w) = Some i" by blast
    moreover have "flock (wdir w) j \<noteq> Some p" for j using F [of j p] lock(4) by auto
    ultimately show ?thesis using lock by (auto intro!: intr split: if_splits)
  next
    case (truncate i)
    then show ?thesis using alone [of i] R [of p i]
      by (auto intro!: intr simp: open_tmp_def F)
  next
    case (dump i)
    then show ?thesis using alone [of i] R [of p i]
      by (auto intro!: intr simp: dump_tmp_def F)
  next
    case (rename i d)
    moreover have "registry_tmp (wdir w) = Some (Json p)" using I rename(1) by blast
    ultimately show ?thesis using alone [of i] R [of p i]
      by (auto intro!: intr simp: rename_tmp_def F)
  next
    case (ready c i)
    then have pub: "published (wpc w p)" and hld: "held_inode (wpc w p) = Some i" by auto
    have "registry_file (wdir w) = Some (Json p)" using I pub by blast
    moreover have "lock_file (wdir w) = Some i" using R [OF hld] .
    ultimately show ?thesis using ready by (auto intro!: intr simp: F)
  next
    case (goes c)
    have "c = SImported q \<Longrightarrow> q \<noteq> p" for q
      using goes I by force
    with goes show ?thesis using I by (auto intro!: intr simp: F)
  next
    case (unlock i)
    have own: "flock (wdir w) j = Some p \<longleftrightarrow> j = i" for j using F unlock(1) by auto
    have "flock (unflock i (wdir w)) j = Some q \<longleftrightarrow> q \<noteq> p \<and> flock (wdir w) j = Some q" for q j
      using own [of j] own [of i] by (auto simp: unflock_def)
    then show ?thesis unfolding unlock(2) using unlock(1)
      by (intro intr) (simp_all, simp_all add: unflock_def)
  next
    case dies
    then show ?thesis by (auto intro!: intr simp: kernel_release_def split: if_splits)
  qed
qed


lemma crash_reach_inv: "crash_reach w \<Longrightarrow> ws_inv w"
proof (induction rule: crash_reach.induct)
  case start
  show ?case by (rule ws_inv_init)
next
  case (step w w')
  then show ?case by (auto elim!: ws_stepE intro: ws_do_inv)
qed

text \<open>Runs given as schedules.\<close>

lemma ws_run_reach: "ws_reach w \<Longrightarrow> ws_run es w = Some w' \<Longrightarrow> ws_reach w'"
proof (induction es arbitrary: w)
  case (Cons e es)
  from Cons.prems(2) obtain p a w1 where w1: "ws_do p a w = Some w1" "ws_run es w1 = Some w'"
    by (cases e) (auto split: option.splits)
  from Cons.prems(1) w1(1) have "ws_reach w1" by (blast intro: ws_reach.step ws_step.does)
  from this w1(2) show ?case by (rule Cons.IH)
qed simp

fun ws_clean_free :: "(nat \<times> ws_action) list \<Rightarrow> bool" where
  "ws_clean_free [] = True"
| "ws_clean_free ((_, a) # es) = (a \<noteq> CleanUnlock \<and> ws_clean_free es)"

lemma ws_do_not_cleaning:
  "\<forall>q. \<not> cleaning (wpc w q) \<Longrightarrow> a \<noteq> CleanUnlock \<Longrightarrow> ws_do p a w = Some w' \<Longrightarrow>
   \<not> cleaning (wpc w' q)"
  using spec [where x = p and P = "\<lambda>q. \<not> cleaning (wpc w q)"]
  by (cases a; cases "wpc w p")
    (auto simp: ws_do_def Let_def set_pc_def split: option.splits if_splits sum.splits prod.splits content.splits)

lemma ws_run_crash_reach:
  "crash_reach w \<Longrightarrow> ws_clean_free es \<Longrightarrow> ws_run es w = Some w' \<Longrightarrow> crash_reach w'"
proof (induction es arbitrary: w)
  case (Cons e es)
  obtain p a where e: "e = (p, a)" by (cases e)
  with Cons.prems obtain w1 where w1: "ws_do p a w = Some w1" "ws_run es w1 = Some w'"
    by (auto split: option.splits)
  have "\<forall>q. \<not> cleaning (wpc w q)"
    using crash_reach_inv [OF Cons.prems(1)] by (simp add: ws_inv_def)
  then have "\<forall>q. \<not> cleaning (wpc w1 q)"
    using ws_do_not_cleaning [OF _ _ w1(1)] Cons.prems(2) e by auto
  then have "crash_reach w1"
    using Cons.prems(1) w1(1) by (blast intro: crash_reach.step ws_step.does)
  with Cons.IH Cons.prems(2) w1(2) e show ?case by auto
qed simp

subsection \<open>Properties\<close>

fun primary_holding :: "ws_pc \<Rightarrow> bool" where
  "primary_holding (SProbing _) = False"
| "primary_holding c = (held_inode c \<noteq> None)"



text \<open>
  C17.  What a passed liveness check means: when a secondary's final probe is blocked, some other
  process holds the lock of the registry at that very moment; that process is a primary or
  another secondary in the middle of its own probe; and if it is a primary that has already
  renamed its registry into place, the registry the secondary is about to read is that
  primary's.
\<close>

theorem liveness_check_meaning:
  assumes "crash_reach w" and "wpc w s = SOpened True i" and "ws_do s ProbeFlock w = Some w'"
    and "wpc w' s = SPassed"
  shows "\<exists>q. q \<noteq> s \<and> flock (wdir w) i = Some q \<and> lock_file (wdir w) = Some i
       \<and> (primary_holding (wpc w q) \<or> wpc w q = SProbing i)
       \<and> (published (wpc w q) \<longrightarrow> registry_file (wdir w) = Some (Json q))"
proof -
  have I: "ws_inv w" by (rule crash_reach_inv [OF assms(1)])
  from assms(2-4) obtain q where q: "flock (wdir w) i = Some q"
    by (cases "flock (wdir w) i") (auto simp: ws_do_def Let_def set_pc_def try_flock_def)
  with I have h: "held_inode (wpc w q) = Some i" unfolding ws_inv_def by blast
  with assms(2) have "q \<noteq> s" by auto
  moreover from h have "primary_holding (wpc w q) \<or> wpc w q = SProbing i" by (cases "wpc w q") auto
  moreover have "lock_file (wdir w) = Some i"
    using I assms(2) unfolding ws_inv_def by (metis opened_inode.simps(2))
  moreover have "published (wpc w q) \<longrightarrow> registry_file (wdir w) = Some (Json q)"
    using I unfolding ws_inv_def by blast
  ultimately show ?thesis using q by blast
qed

lemma ws_eval: "ws_run es ws_init = Some w \<Longrightarrow> ws_clean_free es \<Longrightarrow> crash_reach w"
  by (rule ws_run_crash_reach [OF crash_reach.start])

lemmas ws_run_defs = ws_do_def ws_init_def fresh_dir_def ws_dir_defs

theorem liveness_check_meaning_witness:
  "\<exists>w w'. ws_do 7 ProbeFlock w = Some w' \<and> wpc w' 7 = SPassed
     \<and> (\<exists>q. q \<noteq> 7 \<and> flock (wdir w) 0 = Some q \<and> lock_file (wdir w) = Some 0
            \<and> (published (wpc w q) \<longrightarrow> registry_file (wdir w) = Some (Json q)))"
proof -
  define es where "es = [(1::nat, AcqOpen), (7, WaitStart), (1, AcqFlock), (1, WriteOpen), (1, WriteDump),
      (1, WriteRename), (1, ReadyUnlink), (1, ReadyTouch), (7, WaitReady), (7, CheckOpen)]"
  have "\<exists>w w'. ws_run es ws_init = Some w \<and> wpc w 7 = SOpened True 0
       \<and> ws_do 7 ProbeFlock w = Some w' \<and> wpc w' 7 = SPassed"
    by (simp add: es_def ws_run_defs)
  then obtain w w' where w: "ws_run es ws_init = Some w" "wpc w 7 = SOpened True 0"
    "ws_do 7 ProbeFlock w = Some w'" "wpc w' 7 = SPassed" by blast
  have "crash_reach w" by (rule ws_eval [OF w(1)]) (simp add: es_def)
  from liveness_check_meaning [OF this w(2-4)] w(3,4) show ?thesis by blast
qed

text \<open>
  C18.  The restart window: a primary that publishes and dies leaves its ready signal and registry
  behind; when the next primary has taken the lock but not yet rewritten the registry, a
  secondary's \<open>wait_for_primary\<close> answers that the primary is alive and the secondary imports the
  dead primary's registry.  \<open>is_primary_alive\<close> says it detects exactly such stale files.
\<close>

theorem stale_registry_after_restart:
  "\<exists>w. crash_reach w \<and> wpc w 7 = SImported 1 \<and> wpc w 1 = Dead \<and> wpc w 2 = PLocked 0"
proof -
  define es where "es = [(1::nat, AcqOpen), (1, AcqFlock), (1, WriteOpen), (1, WriteDump), (1, WriteRename),
      (1, ReadyUnlink), (1, ReadyTouch), (1, Die), (2, AcqOpen), (2, AcqFlock),
      (7, WaitStart), (7, WaitReady), (7, CheckOpen), (7, ProbeFlock), (7, ReadRegistry)]"
  have "\<exists>w. ws_run es ws_init = Some w \<and> wpc w 7 = SImported 1 \<and> wpc w 1 = Dead \<and> wpc w 2 = PLocked 0"
    by (simp add: es_def ws_run_defs)
  then obtain w where w: "ws_run es ws_init = Some w"
    "wpc w 7 = SImported 1" "wpc w 1 = Dead" "wpc w 2 = PLocked 0" by blast
  have "crash_reach w" by (rule ws_eval [OF w(1)]) (simp add: es_def)
  with w(2-4) show ?thesis by blast
qed

text \<open>
  C19.  Two probes at once: with no primary left alive, a secondary that probes while another
  secondary's probe holds the lock for its instant takes that probe for a living primary, and
  imports a dead primary's registry.
\<close>

theorem concurrent_probes_mask_death:
  "\<exists>w. crash_reach w \<and> wpc w 7 = SImported 1
     \<and> wpc w 1 = Dead \<and> {p. wpc w p \<noteq> Idle} = {1, 7, 8}
     \<and> {p. primary_holding (wpc w p)} = {}"
proof -
  define es where "es = [(1::nat, AcqOpen), (1, AcqFlock), (1, WriteOpen), (1, WriteDump), (1, WriteRename),
      (1, ReadyUnlink), (1, ReadyTouch), (1, Die),
      (7, WaitStart), (8, WaitStart), (7, WaitReady), (8, WaitReady), (7, CheckOpen), (8, CheckOpen),
      (8, ProbeFlock), (7, ProbeFlock), (8, ProbeUnlock), (7, ReadRegistry)]"
  have "\<exists>w. ws_run es ws_init = Some w \<and> wpc w 7 = SImported 1
     \<and> wpc w 1 = Dead \<and> {p. wpc w p \<noteq> Idle} = {1, 7, 8}
     \<and> {p. primary_holding (wpc w p)} = {}"
    by (simp add: es_def ws_run_defs set_eq_iff)
  then obtain w where w: "ws_run es ws_init = Some w" "wpc w 7 = SImported 1
     \<and> wpc w 1 = Dead \<and> {p. wpc w p \<noteq> Idle} = {1, 7, 8}
     \<and> {p. primary_holding (wpc w p)} = {}"
    by blast
  have "crash_reach w" by (rule ws_eval [OF w(1)]) (simp add: es_def)
  with w(2) show ?thesis by blast
qed

text \<open>
  \<open>cleanup\<close> unlocks before it unlinks: a primary that starts in between publishes into files
  the first one then deletes, lock file included, so a third process locks a new inode and two
  primaries serve the same directory.
\<close>

theorem cleanup_breaks_exclusion:
  "\<exists>w. ws_reach w \<and> wpc w 2 = PRunning 0 \<and> wpc w 3 = PRunning 1
     \<and> registry_file (wdir w) = Some (Json 3)"
proof -
  define es where "es = [(1::nat, AcqOpen), (1, AcqFlock), (1, WriteOpen), (1, WriteDump), (1, WriteRename),
      (1, ReadyUnlink), (1, ReadyTouch), (1, CleanUnlock),
      (2, AcqOpen), (2, AcqFlock), (2, WriteOpen), (2, WriteDump), (2, WriteRename), (2, ReadyUnlink),
      (2, ReadyTouch), (1, CleanReady), (1, CleanRegistry), (1, CleanLock),
      (3, AcqOpen), (3, AcqFlock), (3, WriteOpen), (3, WriteDump), (3, WriteRename), (3, ReadyUnlink),
      (3, ReadyTouch)]"
  have "\<exists>w. ws_run es ws_init = Some w \<and> wpc w 2 = PRunning 0 \<and> wpc w 3 = PRunning 1
     \<and> registry_file (wdir w) = Some (Json 3)"
    by (simp add: es_def ws_run_defs)
  then show ?thesis using ws_run_reach [OF ws_reach.start] by blast
qed

end
