(* ===== verification/WS_Codec.thy ===== *)
theory WS_Codec
  imports Prelude
begin

text \<open>
  The text encoding of an IPC handle (\<open>serialize_ipc_handle\<close> and \<open>deserialize_ipc_handle\<close> in
  \<open>distributed/weight_sharing/registry.py\<close>): Base64 over the pickled bytes.  Bytes are naturals
  below 256.  The decoder is the lenient one \<open>base64.b64decode\<close> runs: it skips characters outside
  the alphabet, stops at a completed padding, and fails when the text ends inside a quadruple.
  What \<open>pickle\<close> makes of a handle is not modelled here: a handle is its pickled bytes.
\<close>

definition b64_alphabet :: string where
  "b64_alphabet = ''ABCDEFGHIJKLMNOPQRSTUVWXYZabcdefghijklmnopqrstuvwxyz0123456789+/''"

definition b64_char :: "nat \<Rightarrow> char" where
  "b64_char n = b64_alphabet ! n"

fun index_from :: "nat \<Rightarrow> 'a \<Rightarrow> 'a list \<Rightarrow> nat option" where
  "index_from k x [] = None"
| "index_from k x (y # ys) = (if x = y then Some k else index_from (Suc k) x ys)"

definition b64_val :: "char \<Rightarrow> nat option" where
  "b64_val c = index_from 0 c b64_alphabet"

fun b64encode :: "nat list \<Rightarrow> string" where
  "b64encode [] = []"
| "b64encode [a] = [b64_char (a div 4), b64_char (a mod 4 * 16), CHR ''='', CHR ''='']"
| "b64encode [a, b] =
     [b64_char (a div 4), b64_char (a mod 4 * 16 + b div 16), b64_char (b mod 16 * 4), CHR ''='']"
| "b64encode (a # b # c # bs) =
     b64_char (a div 4) # b64_char (a mod 4 * 16 + b div 16)
       # b64_char (b mod 16 * 4 + c div 64) # b64_char (c mod 64) # b64encode bs"

text \<open>\<open>q\<close>: position in the quadruple, \<open>left\<close>: bits not yet emitted, \<open>pads\<close>: paddings seen.\<close>

fun a2b_go :: "nat \<Rightarrow> nat \<Rightarrow> nat \<Rightarrow> string \<Rightarrow> nat list option" where
  "a2b_go q left pads [] = (if q = 0 then Some [] else None)"
| "a2b_go q left pads (c # cs) =
     (if c = CHR ''='' then
        (if q \<ge> 2 then (if q + Suc pads \<ge> 4 then Some [] else a2b_go q left (Suc pads) cs)
         else a2b_go q left pads cs)
      else (case b64_val c of
              None \<Rightarrow> a2b_go q left pads cs
            | Some v \<Rightarrow>
                (if q = 0 then a2b_go 1 v 0 cs
                 else if q = 1 then map_option ((#) (left * 4 + v div 16)) (a2b_go 2 (v mod 16) 0 cs)
                 else if q = 2 then map_option ((#) (left * 16 + v div 4)) (a2b_go 3 (v mod 4) 0 cs)
                 else map_option ((#) (left * 64 + v)) (a2b_go 0 0 0 cs))))"

definition b64decode :: "string \<Rightarrow> nat list res" where
  "b64decode s = (case a2b_go 0 0 0 s of None \<Rightarrow> Inl ValueError | Some bs \<Rightarrow> Inr bs)"

definition serialize_ipc_handle :: "nat list \<Rightarrow> string" where
  "serialize_ipc_handle pickled = b64encode pickled"

definition deserialize_ipc_handle :: "string \<Rightarrow> nat list res" where
  "deserialize_ipc_handle b64_str = b64decode b64_str"

subsection \<open>The alphabet\<close>

lemma b64_table: "list_all (\<lambda>n. b64_val (b64_char n) = Some n \<and> b64_char n \<noteq> CHR ''='') [0..<64]"
  by code_simp

lemma b64_val_char [simp]: "n < 64 \<Longrightarrow> b64_val (b64_char n) = Some n"
  and b64_char_pad [simp]: "n < 64 \<Longrightarrow> b64_char n \<noteq> CHR ''=''"
  using b64_table by (auto simp: list_all_iff)

lemma digit_split [simp]:
  "y < n \<Longrightarrow> (x * n + y) div n = x" "y < n \<Longrightarrow> (x * n + y) mod n = y" for n x y :: nat
  by simp_all

lemma b64_digits [simp]:
  "(a::nat) < 256 \<Longrightarrow> a div 4 < 64" "(b::nat) < 256 \<Longrightarrow> b div 16 < 16" "(c::nat) < 256 \<Longrightarrow> c div 64 < 4"
  by (simp_all add: div_less_iff_less_mult)

lemma b64_split [simp]:
  "a mod 4 * 16 < (64::nat)" "b mod 16 * 4 < (64::nat)"
  "b < 256 \<Longrightarrow> a mod 4 * 16 + b div 16 < (64::nat)"
  "c < 256 \<Longrightarrow> b mod 16 * 4 + c div 64 < (64::nat)"
proof -
  have "a mod 4 < 4" and "b mod 16 < 16" by simp_all
  then show "a mod 4 * 16 < 64" "b mod 16 * 4 < 64" by linarith+
  show "b < 256 \<Longrightarrow> a mod 4 * 16 + b div 16 < 64"
    using \<open>a mod 4 < 4\<close> b64_digits(2) [of b] by linarith
  show "c < 256 \<Longrightarrow> b mod 16 * 4 + c div 64 < 64"
    using \<open>b mod 16 < 16\<close> b64_digits(3) [of c] by linarith
qed

lemma b64_join:
  "a div 4 * 4 + (a mod 4 * 16 + b div 16) div 16 = a"
  "(a mod 4 * 16 + b div 16) mod 16 * 16 + (b mod 16 * 4 + c div 64) div 4 = b"
  "(b mod 16 * 4 + c div 64) mod 4 * 64 + c mod 64 = c"
  if "(b::nat) < 256" "(c::nat) < 256" for a
  using that by (simp_all only: b64_digits digit_split div_mult_mod_eq)

lemma a2b_b64encode: "\<forall>b \<in> set bs. b < 256 \<Longrightarrow> a2b_go 0 0 0 (b64encode bs) = Some bs"
proof (induction bs rule: b64encode.induct)
  case (2 a)
  then show ?case using b64_join(1) [where a = a and b = 0 and c = 0] by (simp del: mult_mod_left)
next
  case (3 a b)
  then show ?case using b64_join(1,2) [where a = a and b = b and c = 0] by (simp del: mult_mod_left)
next
  case (4 a b c bs)
  then show ?case using b64_join(1,2) [where a = a and b = b and c = c] b64_join(3) [where b = b and c = c] by (simp del: mult_mod_left)
qed simp

lemma b64encode_clean: "\<forall>b \<in> set bs. b < 256 \<Longrightarrow> set (b64encode bs) \<subseteq> insert (CHR ''='') (set b64_alphabet)"
proof -
  have ch: "n < 64 \<Longrightarrow> b64_char n \<in> set b64_alphabet" for n
    unfolding b64_char_def by (rule nth_mem) (simp add: b64_alphabet_def)
  show "\<forall>b \<in> set bs. b < 256 \<Longrightarrow> set (b64encode bs) \<subseteq> insert (CHR ''='') (set b64_alphabet)"
    by (induction bs rule: b64encode.induct) (simp_all add: ch)
qed

lemma length_b64encode: "length (b64encode bs) = 4 * ((length bs + 2) div 3)"
proof (induction bs rule: b64encode.induct)
  case (4 a b c bs)
  have "(length bs + 3 + 2) div 3 = Suc ((length bs + 2) div 3)" by presburger
  with 4 show ?case by simp
qed simp_all

subsection \<open>The codec as an interface\<close>

locale handle_codec =
  fixes ser :: "'h \<Rightarrow> 's" and des :: "'s \<Rightarrow> 'h res" and ok :: "'h \<Rightarrow> bool"
  assumes des_ser: "ok h \<Longrightarrow> des (ser h) = Inr h"
begin

lemma ser_inj: "ok h \<Longrightarrow> ok h' \<Longrightarrow> ser h = ser h' \<Longrightarrow> h = h'"
  using des_ser by (metis sum.inject(2))

lemma des_all: "(\<And>h. h \<in> set hs \<Longrightarrow> ok h) \<Longrightarrow> map des (map ser hs) = map Inr hs"
  by (induction hs) (simp_all add: des_ser)

end

definition is_bytes :: "nat list \<Rightarrow> bool" where
  "is_bytes bs \<longleftrightarrow> (\<forall>b \<in> set bs. b < 256)"

interpretation b64: handle_codec serialize_ipc_handle deserialize_ipc_handle is_bytes
  by unfold_locales
    (simp add: serialize_ipc_handle_def deserialize_ipc_handle_def b64decode_def is_bytes_def a2b_b64encode)



end
