(* ===== verification/WS_Manager.thy ===== *)
theory WS_Manager
  imports WS_Filter WS_Registry WS_Codec "HOL-Library.List_Lexorder" "HOL-Library.Char_ord"
begin

text \<open>
  The orchestrator of the weight-sharing overlay (\<open>distributed/weight_sharing/manager.py\<close>): the
  primary's export and the secondary's pre-open and import.  PyTorch's IPC calls and SHA-256 are
  arguments (\<open>torch_api\<close>); a handle is the bytes \<open>pickle\<close> makes of it.  A model is the list of its
  named parameters; the secondary's state adds the buffers' devices, the class-level cache of
  pre-opened tensors and whether the watchdog and the exit hook are installed.
\<close>

subsection \<open>Tensors, the environment and the registry's data\<close>

datatype device = Cpu | Cuda nat

record tensor =
  t_dtype :: string
  t_shape :: "nat list"
  t_contiguous :: bool
  t_device :: device
  t_storage :: nat

record torch_api =
  contiguous :: "tensor \<Rightarrow> tensor"
  reduce_tensor :: "tensor \<Rightarrow> nat list"
  rebuild_tensor :: "nat list \<Rightarrow> nat \<Rightarrow> tensor option"
  sha256_hex :: "string \<Rightarrow> string"

record ws_env =
  env_pid :: nat
  env_tp_rank :: nat
  env_pp_rank :: nat
  env_tp_size :: nat
  env_device :: nat
  env_gpu_uuid :: string
  env_model_path :: string
  env_time :: nat

datatype json_val = JStr string | JNats "nat list"

type_synonym weight_info = "(string \<times> json_val) list"

record registry_data =
  rd_model_hash :: string
  rd_primary_pid :: nat
  rd_device_index :: nat
  rd_tp_rank :: nat
  rd_tp_size :: nat
  rd_gpu_uuids :: "(string \<times> nat) list"
  rd_timestamp :: nat
  rd_weights :: "(string \<times> weight_info) list"

type_synonym named_params = "(string \<times> tensor) list"

definition os_path_join :: "string \<Rightarrow> string \<Rightarrow> string" where
  "os_path_join a b =
     (if py_startswith b ''/'' then b else if a = [] \<or> py_endswith a ''/'' then a @ b else a @ ''/'' @ b)"

definition derive_model_id :: "torch_api \<Rightarrow> ws_env \<Rightarrow> string" where
  "derive_model_id api env =
     (let model = env_model_path env;
          h = take 12 (sha256_hex api model);
          safe = map (\<lambda>c. if c = CHR '' '' then CHR ''_'' else c)
                   (after_last (CHR ''/'') (rstrip_char (CHR ''/'') model))
      in safe @ ''-'' @ h)"

definition rank_dir :: "nat \<Rightarrow> nat \<Rightarrow> string" where
  "rank_dir pp tp = ''pp'' @ py_str_nat pp @ ''_tp'' @ py_str_nat tp"

definition nested_registry_path :: "torch_api \<Rightarrow> ws_env \<Rightarrow> string \<Rightarrow> string" where
  "nested_registry_path api env base =
     os_path_join (os_path_join base (derive_model_id api env)) (rank_dir (env_pp_rank env) (env_tp_rank env))"

definition compute_model_hash :: "torch_api \<Rightarrow> ws_env \<Rightarrow> named_params \<Rightarrow> string" where
  "compute_model_hash api env model =
     take 16 (sha256_hex api (env_model_path env @ py_str_nat (length model)
        @ (case model of [] \<Rightarrow> [] | (_, t) # _ \<Rightarrow> t_dtype t)))"

text \<open>The element size of a dtype string, as \<open>_dtype_from_string\<close> and \<open>element_size\<close> give it.\<close>

definition dtype_from_string :: "string \<Rightarrow> nat res" where
  "dtype_from_string s =
     (if s = ''bfloat16'' then Inr 2 else if s = ''float16'' then Inr 2
      else if s = ''float32'' then Inr 4 else if s = ''float8_e4m3fn'' then Inr 1
      else if s = ''float8_e5m2'' then Inr 1 else if s = ''int8'' then Inr 1
      else if s = ''uint8'' then Inr 1 else Inl ValueError)"

definition has_lora :: "string list \<Rightarrow> bool" where
  "has_lora class_names \<longleftrightarrow>
     (\<exists>t \<in> set class_names. py_contains t ''LoRA''
        \<or> py_contains (map (\<lambda>c. if CHR ''A'' \<le> c \<and> c \<le> CHR ''Z'' then char_of (of_char c + 32 :: nat) else c) t) ''lora'')"

subsection \<open>Export\<close>

definition make_contiguous :: "torch_api \<Rightarrow> tensor \<Rightarrow> tensor" where
  "make_contiguous api t = (if t_contiguous t then t else contiguous api t)"

definition export_entry :: "torch_api \<Rightarrow> ws_env \<Rightarrow> tensor \<Rightarrow> weight_info" where
  "export_entry api env t =
     py_dict [(''dtype'', JStr (after_last (CHR ''.'') (t_dtype t))), (''shape'', JNats (t_shape t)),
              (env_gpu_uuid env, JStr (serialize_ipc_handle (reduce_tensor api t)))]"

text \<open>The byte count both sides log: it fails on a dtype the table does not know.\<close>

fun total_bytes :: "(string \<times> weight_info) list \<Rightarrow> nat res" where
  "total_bytes [] = Inr 0"
| "total_bytes ((_, info) # ws) =
     (case (map_of info ''dtype'', map_of info ''shape'') of
        (Some (JStr s), Some (JNats sh)) \<Rightarrow>
          rbind (dtype_from_string s) (\<lambda>sz. rbind (total_bytes ws) (\<lambda>n. Inr (prod_list sh * sz + n)))
      | (Some _, Some _) \<Rightarrow> Inl ValueError
      | _ \<Rightarrow> Inl KeyError)"

definition exported_params :: "torch_api \<Rightarrow> string set \<Rightarrow> named_params \<Rightarrow> named_params" where
  "exported_params api names model =
     map (\<lambda>(n, t). (n, if n \<in> names then make_contiguous api t else t)) model"

definition export_data :: "torch_api \<Rightarrow> ws_env \<Rightarrow> string list \<Rightarrow> named_params \<Rightarrow> registry_data" where
  "export_data api env names model =
     \<lparr>rd_model_hash = compute_model_hash api env model, rd_primary_pid = env_pid env,
      rd_device_index = env_device env, rd_tp_rank = env_tp_rank env, rd_tp_size = env_tp_size env,
      rd_gpu_uuids = [(env_gpu_uuid env, env_device env)], rd_timestamp = env_time env,
      rd_weights = map (\<lambda>n. (n, export_entry api env (the (map_of model n)))) names\<rparr>"

definition export_weights ::
  "torch_api \<Rightarrow> ws_env \<Rightarrow> ws_config \<Rightarrow> named_params \<Rightarrow> registry_data registry_dir
     \<Rightarrow> unit res \<times> named_params \<times> registry_data registry_dir" where
  "export_weights api env cfg model d =
     (if ws_mode_of cfg \<noteq> WsPrimary then (Inl RuntimeError, model, d)
      else
        let names = sort (remdups (filter (\<lambda>n. is_shareable_parameter n (Some cfg)) (map fst model))) in
        if names = [] then (Inr (), model, d)
        else case acquire_primary_lock (env_pid env) d of
            (Inl e, d1) \<Rightarrow> (Inl e, model, d1)
          | (Inr _, d1) \<Rightarrow>
              (let model' = exported_params api (set names) model;
                   data = export_data api env names model'
               in case write_registry data d1 of
                    Inl e \<Rightarrow> (Inl e, model', d1)
                  | Inr d2 \<Rightarrow>
                      (case total_bytes (rd_weights data) of
                         Inl e \<Rightarrow> (Inl e, model', signal_ready d2)
                       | Inr _ \<Rightarrow> (Inr (), model', signal_ready d2))))"

subsection \<open>Pre-open and import\<close>

record secondary =
  s_params :: named_params
  s_buffers :: "(string \<times> device) list"
  s_pre_opened :: "(string \<times> tensor) list"
  s_watchdog :: bool
  s_atexit :: bool

definition find_gpu_uuid_from_registry :: "registry_data \<Rightarrow> string option" where
  "find_gpu_uuid_from_registry rd =
     (case filter (\<lambda>k. k \<noteq> ''dtype'' \<and> k \<noteq> ''shape'') (concat (map (map fst \<circ> snd) (rd_weights rd))) of
        [] \<Rightarrow> None | k # _ \<Rightarrow> Some k)"

definition find_ipc_handle :: "weight_info \<Rightarrow> string \<Rightarrow> json_val option" where
  "find_ipc_handle info uuid = map_of info uuid"

text \<open>Any exception on the way (a bad text, a dead primary) is caught and gives \<open>None\<close>.\<close>

definition reconstruct_tensor :: "torch_api \<Rightarrow> json_val \<Rightarrow> nat \<Rightarrow> tensor option" where
  "reconstruct_tensor api v dev =
     (case v of
        JNats _ \<Rightarrow> None
      | JStr s \<Rightarrow> (case deserialize_ipc_handle s of Inl _ \<Rightarrow> None | Inr h \<Rightarrow> rebuild_tensor api h dev))"

definition cache_key :: "torch_api \<Rightarrow> ws_env \<Rightarrow> string \<Rightarrow> string" where
  "cache_key api env name = derive_model_id api env @ '':'' @ py_str_nat (env_tp_rank env) @ '':'' @ name"

fun pre_open_loop ::
  "torch_api \<Rightarrow> ws_env \<Rightarrow> string \<Rightarrow> nat \<Rightarrow> (string \<times> weight_info) list \<Rightarrow> nat \<Rightarrow> secondary
     \<Rightarrow> nat res \<times> secondary" where
  "pre_open_loop api env uuid dev [] opened st = (Inr opened, st)"
| "pre_open_loop api env uuid dev ((n, info) # rest) opened st =
     (case find_ipc_handle info uuid of
        None \<Rightarrow> (Inl RuntimeError, st)
      | Some v \<Rightarrow>
          (case reconstruct_tensor api v dev of
             None \<Rightarrow> (Inl RuntimeError, st)
           | Some t \<Rightarrow> pre_open_loop api env uuid dev rest (Suc opened)
               (st\<lparr>s_pre_opened := AList.update (cache_key api env n) t (s_pre_opened st)\<rparr>)))"

text \<open>
  \<open>waited\<close> is the result of \<open>wait_for_primary\<close>, \<open>read\<close> that of \<open>read_registry\<close>, and \<open>order\<close> the
  order in which Python happens to iterate over the set of names.
\<close>

definition pre_open_handles ::
  "torch_api \<Rightarrow> ws_env \<Rightarrow> ws_config \<Rightarrow> bool \<Rightarrow> registry_data res \<Rightarrow> string list \<Rightarrow> nat \<Rightarrow> secondary
     \<Rightarrow> nat res \<times> secondary" where
  "pre_open_handles api env cfg waited read order dev st =
     (if ws_mode_of cfg \<noteq> WsSecondary then (Inr 0, st)
      else if \<not> waited then (Inl RuntimeError, st)
      else case read of
          Inl e \<Rightarrow> (Inl e, st)
        | Inr rd \<Rightarrow>
            (case find_gpu_uuid_from_registry rd of
               None \<Rightarrow> (Inl RuntimeError, st)
             | Some uuid \<Rightarrow>
                 pre_open_loop api env uuid dev
                   (map (\<lambda>n. (n, the (map_of (rd_weights rd) n))) order) 0 st))"

fun import_loop ::
  "torch_api \<Rightarrow> ws_env \<Rightarrow> (string \<times> weight_info) list \<Rightarrow> string set \<Rightarrow> secondary
     \<Rightarrow> string set res \<times> secondary" where
  "import_loop api env [] imported st = (Inr imported, st)"
| "import_loop api env ((n, info) # rest) imported st =
     (if n \<notin> fst ` set (s_params st) then import_loop api env rest imported st
      else case map_of (s_pre_opened st) (cache_key api env n) of
          Some t \<Rightarrow>
            import_loop api env rest (insert n imported)
              (st\<lparr>s_params := AList.update n t (s_params st),
                  s_pre_opened := AList.delete (cache_key api env n) (s_pre_opened st)\<rparr>)
        | None \<Rightarrow>
            (case find_ipc_handle info (env_gpu_uuid env) of
               None \<Rightarrow> (Inl RuntimeError, st)
             | Some v \<Rightarrow>
                 (case reconstruct_tensor api v (env_device env) of
                    None \<Rightarrow> (Inl RuntimeError, st)
                  | Some t \<Rightarrow> import_loop api env rest (insert n imported)
                      (st\<lparr>s_params := AList.update n t (s_params st)\<rparr>))))"

definition move_cpu_buffers :: "nat \<Rightarrow> (string \<times> device) list \<Rightarrow> (string \<times> device) list" where
  "move_cpu_buffers dev bufs = map (\<lambda>(n, d). (n, if d = Cpu then Cuda dev else d)) bufs"

definition start_watchdog :: "ws_config \<Rightarrow> secondary \<Rightarrow> secondary" where
  "start_watchdog cfg st = (if ws_mode_of cfg = WsSecondary then st\<lparr>s_watchdog := True\<rparr> else st)"

definition import_weights ::
  "torch_api \<Rightarrow> ws_env \<Rightarrow> ws_config \<Rightarrow> string list \<Rightarrow> bool \<Rightarrow> registry_data res \<Rightarrow> string list \<Rightarrow> secondary
     \<Rightarrow> string set res \<times> secondary" where
  "import_weights api env cfg class_names waited read order st =
     (if ws_mode_of cfg \<noteq> WsSecondary then (Inl RuntimeError, st)
      else if has_lora class_names then (Inl RuntimeError, st)
      else if \<not> waited then (Inl RuntimeError, st)
      else case read of
        Inl e \<Rightarrow> (Inl e, st)
      | Inr rd \<Rightarrow>
        if compute_model_hash api env (s_params st) \<noteq> rd_model_hash rd then (Inl RuntimeError, st)
        else if env_tp_rank env \<noteq> rd_tp_rank rd then (Inl RuntimeError, st)
        else if env_tp_size env \<noteq> rd_tp_size rd then (Inl RuntimeError, st)
        else
          let expected = get_shareable_param_names (s_params st) (Some cfg) in
          if \<not> expected \<subseteq> fst ` set (rd_weights rd) then (Inl RuntimeError, st)
          else
            let weights_data = map (\<lambda>n. (n, the (map_of (rd_weights rd) n))) order in
            case import_loop api env weights_data {} st of
              (Inl e, st1) \<Rightarrow> (Inl e, st1)
            | (Inr imported, st1) \<Rightarrow>
                let st2 = st1\<lparr>s_buffers := move_cpu_buffers (env_device env) (s_buffers st1)\<rparr> in
                if card imported \<noteq> length weights_data then (Inl RuntimeError, st2)
                else
                  (case total_bytes (filter (\<lambda>(n, _). n \<in> imported) weights_data) of
                     Inl e \<Rightarrow> (Inl e, st2)
                   | Inr _ \<Rightarrow> (Inr imported, (start_watchdog cfg st2)\<lparr>s_atexit := True\<rparr>)))"

subsection \<open>Where a rank's registry lives\<close>

lemma rank_dir_inject: "rank_dir p t = rank_dir p' t' \<longleftrightarrow> p = p' \<and> t = t'"
proof
  have no_us: "CHR ''_'' \<notin> set (py_str_nat n)" for n
    using py_str_nat_digits [of "CHR ''_''" n] by auto
  have tw: "takeWhile (\<lambda>c. c \<noteq> CHR ''_'') (py_str_nat n @ ''_tp'' @ s) = py_str_nat n" for n s
    using no_us [of n] by (induction "py_str_nat n") (auto simp: takeWhile_append takeWhile_eq_all_conv)
  assume "rank_dir p t = rank_dir p' t'"
  then have eq: "py_str_nat p @ ''_tp'' @ py_str_nat t = py_str_nat p' @ ''_tp'' @ py_str_nat t'"
    by (simp add: rank_dir_def)
  then have "py_str_nat p = py_str_nat p'" using tw by metis
  with eq show "p = p' \<and> t = t'" by simp
qed simp

lemma os_path_join_rank_inject:
  "os_path_join a (rank_dir p t) = os_path_join a (rank_dir p' t') \<longleftrightarrow> p = p' \<and> t = t'"
  by (auto simp: os_path_join_def rank_dir_def py_startswith_def rank_dir_inject [unfolded rank_dir_def, simplified])

lemma derive_model_id_component:
  assumes "\<And>s. CHR ''/'' \<notin> set (sha256_hex api s)"
  shows "CHR ''/'' \<notin> set (derive_model_id api env)"
proof -
  have "CHR ''/'' \<notin> set (after_last (CHR ''/'') s)" for s
    by (auto simp: after_last_def dest: set_takeWhileD)
  then show ?thesis using assms by (auto simp: derive_model_id_def Let_def dest: in_set_takeD)
qed

subsection \<open>The import loop\<close>

lemma s_names_update: "n \<in> fst ` set al \<Longrightarrow> fst ` set (AList.update n t al) = fst ` set al"
  by (metis dom_map_of_conv_image_fst dom_update insert_absorb insert_is_Un)

lemma get_shareable_subset: "get_shareable_param_names model c \<subseteq> fst ` set model"
  by (simp add: subset_iff)

lemma import_loop_Inr:
  assumes "import_loop api env wd imported st = (Inr S, st')" and "fst ` set wd \<subseteq> fst ` set (s_params st)"
  shows "S = imported \<union> fst ` set wd \<and> fst ` set (s_params st') = fst ` set (s_params st)
       \<and> (\<forall>n. n \<notin> fst ` set wd \<longrightarrow> map_of (s_params st') n = map_of (s_params st) n)
       \<and> s_buffers st' = s_buffers st \<and> s_watchdog st' = s_watchdog st"
  using assms
proof (induction api env wd imported st rule: import_loop.induct)
  case (1 api env imported st)
  then show ?case by simp
next
  case (2 api env n info rest imported st)
  then have n: "n \<in> fst ` set (s_params st)" by auto
  have rest: "fst ` set rest \<subseteq> fst ` set (s_params st)" using 2(5) by auto
  show ?case
  proof (cases "map_of (s_pre_opened st) (cache_key api env n)")
    case (Some t)
    with 2(3) [OF _ Some] 2(4) n rest show ?thesis
      by (auto simp: s_names_update update_conv)
  next
    case None
    from 2(4) n None obtain v t where v: "find_ipc_handle info (env_gpu_uuid env) = Some v"
        and t: "reconstruct_tensor api v (env_device env) = Some t"
      by (auto split: option.splits)
    with 2(2) [OF _ None v t] 2(4) n rest None show ?thesis
      by (auto simp: s_names_update update_conv)
  qed
qed


lemma import_weights_Inr:
  assumes imp: "import_weights api env cfg classes waited read order st = (Inr S, st')"
    and ord: "set order = get_shareable_param_names (s_params st) (Some cfg)"
  obtains rd st1 where "ws_mode_of cfg = WsSecondary" "\<not> has_lora classes" "waited" "read = Inr rd"
    "compute_model_hash api env (s_params st) = rd_model_hash rd"
    "env_tp_rank env = rd_tp_rank rd" "env_tp_size env = rd_tp_size rd"
    "get_shareable_param_names (s_params st) (Some cfg) \<subseteq> fst ` set (rd_weights rd)"
    "import_loop api env (map (\<lambda>n. (n, the (map_of (rd_weights rd) n))) order) {} st = (Inr S, st1)"
    "S = set order"
    "st' = (start_watchdog cfg (st1\<lparr>s_buffers := move_cpu_buffers (env_device env) (s_buffers st1)\<rparr>))\<lparr>s_atexit := True\<rparr>"
proof -
  from imp obtain rd where rd: "read = Inr rd"
    by (auto simp: import_weights_def split: if_splits sum.splits)
  let ?wd = "map (\<lambda>n. (n, the (map_of (rd_weights rd) n))) order"
  obtain r st1 where l: "import_loop api env ?wd {} st = (r, st1)" by (cases "import_loop api env ?wd {} st")
  from imp rd l obtain S1 where r: "r = Inr S1"
    by (cases r) (auto simp: import_weights_def Let_def split: if_splits)
  have "fst ` set ?wd \<subseteq> fst ` set (s_params st)" using ord by (auto simp: image_image)
  from import_loop_Inr [OF l [unfolded r] this] have S1: "S1 = set order" by (simp add: image_image)
  show thesis
    by (rule that [of rd st1]) (use imp rd l r S1 in
      \<open>auto simp: import_weights_def Let_def split: if_splits sum.splits\<close>)
qed




subsection \<open>Export, then import\<close>

definition entry_ok :: "weight_info \<Rightarrow> bool" where
  "entry_ok info \<longleftrightarrow> (\<exists>s sh k. map_of info ''dtype'' = Some (JStr s) \<and> map_of info ''shape'' = Some (JNats sh)
      \<and> dtype_from_string s = Inr k)"

lemma total_bytes_ok: "(\<exists>n. total_bytes ws = Inr n) \<longleftrightarrow> (\<forall>(_, info) \<in> set ws. entry_ok info)"
proof (induction ws)
  case (Cons a ws)
  obtain n info where a: "a = (n, info)" by (cases a)
  show ?case
    using Cons by (auto simp: a entry_ok_def rbind_Inr_iff split: option.splits json_val.splits)
qed simp

lemma total_bytes_subset:
  assumes "total_bytes ws = Inr n" and "set vs \<subseteq> set ws"
  obtains k where "total_bytes vs = Inr k"
proof -
  from assms(1) have "\<forall>(_, info) \<in> set ws. entry_ok info" using total_bytes_ok by blast
  with assms(2) have "\<forall>(_, info) \<in> set vs. entry_ok info" by blast
  with that show thesis using total_bytes_ok by blast
qed

lemma import_loop_succeeds:
  assumes "\<And>n info. (n, info) \<in> set wd \<Longrightarrow> n \<in> fst ` set (s_params st)
        \<and> (\<exists>v. find_ipc_handle info (env_gpu_uuid env) = Some v \<and> reconstruct_tensor api v (env_device env) = Some (f n))"
    and "\<And>n. map_of (s_pre_opened st) (cache_key api env n) = None" and "distinct (map fst wd)"
  shows "\<exists>st'. import_loop api env wd imported st = (Inr (imported \<union> fst ` set wd), st')
      \<and> (\<forall>n \<in> fst ` set wd. map_of (s_params st') n = Some (f n))"
  using assms
proof (induction wd arbitrary: imported st)
  case Nil
  then show ?case by simp
next
  case (Cons a rest)
  obtain n info where a: "a = (n, info)" by (cases a)
  let ?st = "st\<lparr>s_params := AList.update n (f n) (s_params st)\<rparr>"
  from Cons.prems(1) [of n info] obtain v where
    n: "n \<in> fst ` set (s_params st)" and v: "find_ipc_handle info (env_gpu_uuid env) = Some v"
      "reconstruct_tensor api v (env_device env) = Some (f n)"
    by (auto simp: a)
  have "\<exists>st'. import_loop api env rest (insert n imported) ?st = (Inr (insert n imported \<union> fst ` set rest), st')
      \<and> (\<forall>n \<in> fst ` set rest. map_of (s_params st') n = Some (f n))"
    by (rule Cons.IH) (use Cons.prems n in \<open>auto simp: s_names_update a\<close>)
  then obtain st' where st': "import_loop api env rest (insert n imported) ?st = (Inr (insert n imported \<union> fst ` set rest), st')"
      "\<forall>n \<in> fst ` set rest. map_of (s_params st') n = Some (f n)" by blast
  have "fst ` set rest \<subseteq> fst ` set (s_params ?st)" using Cons.prems(1) by (auto simp: s_names_update n a, blast)
  from import_loop_Inr [OF st'(1) this] Cons.prems(3)
  have "map_of (s_params st') n = Some (f n)" by (auto simp: a update_conv)
  with st' n v Cons.prems(2) show ?case by (auto simp: a)
qed


lemma map_of_exported: "map_of (exported_params api ns model) n =
    map_option (\<lambda>t. if n \<in> ns then make_contiguous api t else t) (map_of model n)"
  by (induction model) (auto simp: exported_params_def)

lemma map_of_pairs: "map_of (map (\<lambda>n. (n, g n)) ns) n = (if n \<in> set ns then Some (g n) else None)"
  by (induction ns) auto

lemma export_weights_Inr:
  assumes exp: "export_weights api env cfg model d = (Inr (), model', d')"
    and ne: "get_shareable_param_names model (Some cfg) \<noteq> {}"
  obtains names n where "set names = get_shareable_param_names model (Some cfg)"
    "model' = exported_params api (set names) model"
    "registry_file d' = Some (Json (export_data api env names model'))"
    "total_bytes (rd_weights (export_data api env names model')) = Inr n"
    "ready_file d'" "lock_holder d' = Some (env_pid env)"
proof -
  let ?names = "sort (remdups (filter (\<lambda>n. is_shareable_parameter n (Some cfg)) (map fst model)))"
  have set: "set ?names = get_shareable_param_names model (Some cfg)"
    by (simp add: get_shareable_param_names_def filter_shareable_param_names_def)
  with ne have "?names \<noteq> []" by (metis list.set(1))
  from exp this obtain i d1 where acq: "acquire_primary_lock (env_pid env) d = (Inr i, d1)"
    by (cases "acquire_primary_lock (env_pid env) d")
      (auto simp: export_weights_def Let_def split: if_splits sum.splits)
  then have held: "lock_holder d1 = Some (env_pid env)"
    by (auto simp: acquire_primary_lock_def open_lock_def try_flock_def ensure_directory_def lock_holder_def
        split: option.splits if_splits)
  let ?m = "exported_params api (set ?names) model"
  obtain d2 where w: "write_registry (export_data api env ?names ?m) d1 = Inr d2"
      "registry_file d2 = Some (Json (export_data api env ?names ?m))"
      "lock_file d2 = lock_file d1" "flock d2 = flock d1"
    using write_registry_Inr by metis
  from exp acq w(1) \<open>?names \<noteq> []\<close> obtain n where tb: "total_bytes (rd_weights (export_data api env ?names ?m)) = Inr n"
    and m: "model' = ?m" and d': "d' = signal_ready d2"
    by (auto simp: export_weights_def Let_def split: if_splits sum.splits)
  show thesis
    by (rule that [of ?names n])
      (use set m tb d' w held in \<open>auto simp: signal_ready_def touch_ready_def unlink_ready_def ensure_directory_def lock_holder_def
         split: option.splits\<close>)
qed

definition read_for_import :: "registry_data registry_dir \<Rightarrow> registry_data res" where
  "read_for_import d = (case read_registry (\<lambda>_. registry_file d) of
      Inr (Some rd) \<Rightarrow> Inr rd | Inr None \<Rightarrow> Inl AttributeError | Inl e \<Rightarrow> Inl e)"

text \<open>What PyTorch documents of its CUDA IPC calls: a rebuilt tensor is the exported one, on the
  importing process's device.\<close>

definition ipc_law :: "torch_api \<Rightarrow> tensor set \<Rightarrow> bool" where
  "ipc_law api ts \<longleftrightarrow> (\<forall>t \<in> ts. \<forall>dev. is_bytes (reduce_tensor api t)
      \<and> rebuild_tensor api (reduce_tensor api t) dev = Some (t\<lparr>t_device := Cuda dev\<rparr>))"

lemma export_entry_handle:
  assumes "ipc_law api ts" and "t \<in> ts" and "env_gpu_uuid envp \<noteq> ''dtype''" and "env_gpu_uuid envp \<noteq> ''shape''"
    and "env_gpu_uuid envs = env_gpu_uuid envp"
  shows "\<exists>v. find_ipc_handle (export_entry api envp t) (env_gpu_uuid envs) = Some v
      \<and> reconstruct_tensor api v dev = Some (t\<lparr>t_device := Cuda dev\<rparr>)"
  using assms b64.des_ser [of "reduce_tensor api t"]
  by (simp add: find_ipc_handle_def export_entry_def reconstruct_tensor_def ipc_law_def)





text \<open>
  Registries of different ranks never meet: on one model and base path, two processes use the
  same directory exactly when their pipeline and tensor ranks are equal, and the model id is a
  single path component.
\<close>

theorem registry_paths_isolated:
  assumes "env_model_path env = env_model_path env'" and "\<And>s. CHR ''/'' \<notin> set (sha256_hex api s)"
  shows "(nested_registry_path api env base = nested_registry_path api env' base \<longleftrightarrow>
            env_pp_rank env = env_pp_rank env' \<and> env_tp_rank env = env_tp_rank env')
       \<and> CHR ''/'' \<notin> set (derive_model_id api env)"
proof -
  have "derive_model_id api env = derive_model_id api env'"
    using assms(1) by (simp add: derive_model_id_def Let_def)
  then show ?thesis
    using os_path_join_rank_inject derive_model_id_component [OF assms(2)]
    by (simp add: nested_registry_path_def)
qed

theorem registry_paths_isolated_witness:
  "nested_registry_path \<lparr>contiguous = id, reduce_tensor = (\<lambda>_. []), rebuild_tensor = (\<lambda>_ _. None), sha256_hex = (\<lambda>_. ''ab'')\<rparr>
      \<lparr>env_pid = 1, env_tp_rank = 0, env_pp_rank = 11, env_tp_size = 2, env_device = 0, env_gpu_uuid = [],
       env_model_path = ''/m/q'', env_time = 0\<rparr> ''/dev/shm''
   \<noteq> nested_registry_path \<lparr>contiguous = id, reduce_tensor = (\<lambda>_. []), rebuild_tensor = (\<lambda>_ _. None), sha256_hex = (\<lambda>_. ''ab'')\<rparr>
      \<lparr>env_pid = 1, env_tp_rank = 1, env_pp_rank = 1, env_tp_size = 2, env_device = 0, env_gpu_uuid = [],
       env_model_path = ''/m/q'', env_time = 0\<rparr> ''/dev/shm''"
  by (subst registry_paths_isolated [THEN conjunct1]) simp_all

text \<open>
  The log line that breaks an export: if a shared parameter's dtype is not in the seven-entry
  table (an \<open>int32\<close> packed weight, say), \<open>export_weights\<close> raises \<open>ValueError\<close> only after the
  registry was written and the ready signal created, with the lock held, so waiting secondaries
  go ahead while the primary fails.
\<close>

lemma total_bytes_unsupported:
  assumes "env_gpu_uuid env \<notin> {''dtype'', ''shape''}"
    and "n \<in> set ns" and "dtype_from_string (after_last (CHR ''.'') (t_dtype (g n))) = Inl e"
  shows "total_bytes (map (\<lambda>n. (n, export_entry api env (g n))) ns) = Inl ValueError"
proof -
  have VE: "dtype_from_string s = Inl e' \<Longrightarrow> e' = ValueError" for s e'
    by (auto simp: dtype_from_string_def split: if_splits)
  have tb: "total_bytes ((m, export_entry api env t) # ws) =
      rbind (dtype_from_string (after_last (CHR ''.'') (t_dtype t)))
        (\<lambda>sz. rbind (total_bytes ws) (\<lambda>k. Inr (prod_list (t_shape t) * sz + k)))" for m t ws
    using assms(1) by (auto simp: export_entry_def)
  from assms(2,3) show ?thesis
  proof (induction ns)
    case (Cons m ns)
    show ?case
    proof (cases "dtype_from_string (after_last (CHR ''.'') (t_dtype (g m)))")
      case (Inl e')
      with VE [OF Inl] show ?thesis by (simp add: tb del: total_bytes.simps)
    next
      case (Inr k)
      with Cons.prems have "n \<in> set ns" by auto
      with Cons Inr show ?thesis by (simp add: tb del: total_bytes.simps)
    qed
  qed simp
qed

theorem export_unsupported_dtype:
  assumes "ws_mode_of cfg = WsPrimary" and "inodes_ok d" and "lock_holder d = None"
    and "env_gpu_uuid env \<notin> {''dtype'', ''shape''}"
    and "map_of model n = Some t" and "is_shareable_parameter n (Some cfg)"
    and "dtype_from_string (after_last (CHR ''.'') (t_dtype (make_contiguous api t))) = Inl e"
  shows "\<exists>m' d'. export_weights api env cfg model d = (Inl ValueError, m', d')
       \<and> ready_file d' \<and> (\<exists>rd. registry_file d' = Some (Json rd)) \<and> lock_holder d' = Some (env_pid env)"
proof -
  let ?names = "sort (remdups (filter (\<lambda>n. is_shareable_parameter n (Some cfg)) (map fst model)))"
  let ?m = "exported_params api (set ?names) model"
  have n: "n \<in> set ?names" using assms(5,6) by (auto dest: map_of_SomeD intro: image_eqI [rotated])
  then have ne: "?names \<noteq> []" by (metis empty_iff list.set(1))
  from ws_lock.acquire_free [OF assms(2,3)] obtain i d1 where
    acq: "acquire_primary_lock (env_pid env) d = (Inr i, d1)" and h: "lock_holder d1 = Some (env_pid env)"
    by blast
  obtain d2 where w: "write_registry (export_data api env ?names ?m) d1 = Inr d2"
      "registry_file d2 = Some (Json (export_data api env ?names ?m))"
      "lock_file d2 = lock_file d1" "flock d2 = flock d1"
    using write_registry_Inr by metis
  have "the (map_of ?m n) = make_contiguous api t" using n assms(5) by (simp add: map_of_exported)
  then have tb: "total_bytes (rd_weights (export_data api env ?names ?m)) = Inl ValueError"
    using total_bytes_unsupported [OF assms(4) n, of "\<lambda>n. the (map_of ?m n)"] assms(7)
    by (simp add: export_data_def)
  have "lock_holder (signal_ready d2) = lock_holder d1"
    by (simp add: lock_holder_def signal_ready_def touch_ready_def unlink_ready_def ensure_directory_def w(3,4)
        split: option.splits)
  moreover have "ready_file (signal_ready d2)" "registry_file (signal_ready d2) = registry_file d2"
    by (simp_all add: signal_ready_def touch_ready_def unlink_ready_def ensure_directory_def)
  ultimately show ?thesis using assms(1) ne acq h w(1,2) tb
    by (simp add: export_weights_def Let_def)
qed


theorem export_unsupported_dtype_witness:
  "\<exists>m' d'. export_weights
      \<lparr>contiguous = (\<lambda>t. t), reduce_tensor = (\<lambda>t. []), rebuild_tensor = (\<lambda>h dev. None), sha256_hex = (\<lambda>s. s)\<rparr>
      \<lparr>env_pid = 2, env_tp_rank = 0, env_pp_rank = 0, env_tp_size = 1, env_device = 0,
       env_gpu_uuid = ''GPU-1'', env_model_path = ''m'', env_time = 0\<rparr>
      (WeightSharingConfig\<lparr>ws_mode_of := WsPrimary, share_lm_head := True\<rparr>)
      [(''lm_head.qweight'', \<lparr>t_dtype = ''torch.int32'', t_shape = [2], t_contiguous = True,
                               t_device = Cuda 0, t_storage = 9\<rparr>)] fresh_dir = (Inl ValueError, m', d')
      \<and> ready_file d'"
proof -
  have sh: "is_shareable_parameter ''lm_head.qweight''
      (Some (WeightSharingConfig\<lparr>ws_mode_of := WsPrimary, share_lm_head := True\<rparr>))"
    by (simp add: is_shareable_parameter_def ws_tables py_endswith_def is_embedding_parameter_def has_prefix_def
        py_startswith_def is_lm_head_parameter_def)
  show ?thesis
    by (rule exE [OF export_unsupported_dtype [where n = "''lm_head.qweight''", OF _ fresh_dir_ok _ _ sh]])
      (auto simp: make_contiguous_def after_last_def dtype_from_string_def)
qed


end
