(* ===== verification/VL_Queue.thy ===== *)
theory VL_Queue
  imports Prelude
begin

text \<open>
  The free block queue of the vLLM block pool (\<open>FreeKVCacheBlockQueue\<close> in
  \<open>v1/core/kv_cache_utils.py\<close>): a doubly linked list threaded through the blocks, with two
  sentinel blocks.  Object references are nodes, the two link attributes of all blocks are
  two maps, and every operation updates them in the order of the code.  \<open>fq_rep q xs\<close> says
  that the links of \<open>q\<close> represent the list \<open>xs\<close>; each operation is shown to implement the
  corresponding list operation.  The contract is the locale \<open>eviction_queue\<close>.
\<close>

subsection \<open>State\<close>

datatype node = Head | Tail | Blk nat

record free_queue =
  prev_free_block :: "node \<Rightarrow> node option"
  next_free_block :: "node \<Rightarrow> node option"
  num_free_blocks :: int

fun block_id :: "node \<Rightarrow> int" where
  "block_id (Blk b) = int b"
| "block_id Head = -1"
| "block_id Tail = -1"

definition block_index :: "node \<Rightarrow> nat" where
  "block_index b = nat (block_id b)"

lemma block_index_Blk [simp]: "block_index (Blk b) = b"
  by (simp add: block_index_def)

lemma map_block_index [simp]: "map (block_index \<circ> Blk) xs = xs"
  by (induction xs) simp_all

abbreviation set_prev :: "node \<Rightarrow> node option \<Rightarrow> free_queue \<Rightarrow> free_queue" where
  "set_prev b p q \<equiv> q\<lparr>prev_free_block := (prev_free_block q)(b := p)\<rparr>"

abbreviation set_next :: "node \<Rightarrow> node option \<Rightarrow> free_queue \<Rightarrow> free_queue" where
  "set_next b n q \<equiv> q\<lparr>next_free_block := (next_free_block q)(b := n)\<rparr>"

abbreviation add_num :: "int \<Rightarrow> free_queue \<Rightarrow> free_queue" where
  "add_num k q \<equiv> q\<lparr>num_free_blocks := num_free_blocks q + k\<rparr>"

subsection \<open>Operations\<close>

definition init_link :: "nat list \<Rightarrow> nat \<Rightarrow> free_queue \<Rightarrow> free_queue" where
  "init_link bs i q =
     (let q1 = (if i > 0 then set_prev (Blk (bs ! i)) (Some (Blk (bs ! (i - 1)))) q else q)
      in if i < length bs - 1 then set_next (Blk (bs ! i)) (Some (Blk (bs ! (i + 1)))) q1 else q1)"

definition fq_init :: "nat list \<Rightarrow> free_queue" where
  "fq_init bs =
     (let q0 = \<lparr>prev_free_block = (\<lambda>_. None), next_free_block = (\<lambda>_. None),
                num_free_blocks = int (length bs)\<rparr>;
          q1 = fold (init_link bs) [0..<length bs] q0
      in if length bs > 0
         then set_next (Blk (last bs)) (Some Tail)
               (set_prev Tail (Some (Blk (last bs)))
                 (set_prev (Blk (hd bs)) (Some Head)
                   (set_next Head (Some (Blk (hd bs))) q1)))
         else set_prev Tail (Some Head) (set_next Head (Some Tail) q1))"

definition popleft :: "free_queue \<Rightarrow> (node \<times> free_queue) res" where
  "popleft q =
     (if next_free_block q Head = Some Tail \<or> next_free_block q Head = None
      then (if num_free_blocks q = 0 then Inl ValueError else Inl AssertionError)
      else let first_block = the (next_free_block q Head) in
        (case next_free_block q first_block of
           None \<Rightarrow> Inl RuntimeError
         | Some second \<Rightarrow>
             let q1 = set_next Head (Some second) q;
                 q2 = set_prev second (Some Head) q1;
                 q3 = set_prev first_block None (set_next first_block None q2)
             in Inr (first_block, add_num (-1) q3)))"

fun pop_loop :: "nat \<Rightarrow> node option \<Rightarrow> free_queue \<Rightarrow> node list \<Rightarrow>
    (node list \<times> node option \<times> free_queue) res" where
  "pop_loop 0 cur q ret = Inr (ret, cur, q)"
| "pop_loop (Suc n) cur q ret =
     (case cur of
        None \<Rightarrow> Inl AssertionError
      | Some last_block \<Rightarrow>
          pop_loop n (next_free_block q last_block)
            (set_next last_block None (set_prev last_block None q)) (ret @ [last_block]))"

definition popleft_n :: "nat \<Rightarrow> free_queue \<Rightarrow> (node list \<times> free_queue) res" where
  "popleft_n n q =
     (if n = 0 then Inr ([], q)
      else if num_free_blocks q < int n then Inl AssertionError
      else rbind (pop_loop n (next_free_block q Head) (add_num (- int n) q) [])
        (\<lambda>(ret, cur, q1).
           Inr (ret, (case cur of
              None \<Rightarrow> q1
            | Some c \<Rightarrow> set_prev c (Some Head) (set_next Head (Some c) q1)))))"

definition remove_free :: "node \<Rightarrow> free_queue \<Rightarrow> free_queue res" where
  "remove_free b q =
     (case (prev_free_block q b, next_free_block q b) of
        (Some p, Some n) \<Rightarrow>
          let q1 = set_next p (Some n) q;
              q2 = set_prev n (Some p) q1
          in Inr (add_num (-1) (set_prev b None (set_next b None q2)))
      | _ \<Rightarrow> Inl RuntimeError)"

definition append_free :: "node \<Rightarrow> free_queue \<Rightarrow> free_queue res" where
  "append_free b q =
     (case prev_free_block q Tail of
        None \<Rightarrow> Inl RuntimeError
      | Some last_block \<Rightarrow>
          let q1 = set_prev b (Some last_block) (set_next last_block (Some b) q);
              q2 = set_prev Tail (Some b) (set_next b (Some Tail) q1)
          in Inr (add_num 1 q2))"

fun link_loop :: "node list \<Rightarrow> node \<Rightarrow> free_queue \<Rightarrow> node \<times> free_queue" where
  "link_loop [] last_block q = (last_block, q)"
| "link_loop (b # bs) last_block q =
     link_loop bs b (set_next last_block (Some b) (set_prev b (Some last_block) q))"

definition append_n :: "node list \<Rightarrow> free_queue \<Rightarrow> free_queue res" where
  "append_n bs q =
     (if bs = [] then Inr q
      else case prev_free_block q Tail of
        None \<Rightarrow> Inl AssertionError
      | Some last_block \<Rightarrow>
          let (l, q1) = link_loop bs last_block q
          in Inr (add_num (int (length bs)) (set_prev Tail (Some l) (set_next l (Some Tail) q1))))"

partial_function (option) walk_loop :: "free_queue \<Rightarrow> node \<Rightarrow> node list \<Rightarrow> node list option" where
  [code]: "walk_loop q cur ret =
     (case next_free_block q cur of
        None \<Rightarrow> Some ret
      | Some n \<Rightarrow> walk_loop q n (ret @ [cur]))"

definition get_all_free_blocks :: "free_queue \<Rightarrow> node list res option" where
  "get_all_free_blocks q =
     (case next_free_block q Head of
        None \<Rightarrow> Some (Inl RuntimeError)
      | Some c \<Rightarrow> map_option Inr (walk_loop q c []))"

subsection \<open>Representation of a list\<close>

fun linked :: "free_queue \<Rightarrow> node list \<Rightarrow> bool" where
  "linked q (a # b # ns) \<longleftrightarrow>
     next_free_block q a = Some b \<and> prev_free_block q b = Some a \<and> linked q (b # ns)"
| "linked q [a] \<longleftrightarrow> True"
| "linked q [] \<longleftrightarrow> True"

abbreviation nodes :: "nat list \<Rightarrow> node list" where
  "nodes xs \<equiv> Head # map Blk xs @ [Tail]"

definition fq_rep :: "free_queue \<Rightarrow> nat list \<Rightarrow> bool" where
  "fq_rep q xs \<longleftrightarrow> distinct xs \<and> num_free_blocks q = int (length xs) \<and> linked q (nodes xs) \<and>
     next_free_block q Tail = None \<and>
     (\<forall>b. b \<notin> set xs \<longrightarrow> prev_free_block q (Blk b) = None \<and> next_free_block q (Blk b) = None)"

lemma linked_append:
  "linked q (as @ a # bs) \<longleftrightarrow> linked q (as @ [a]) \<and> linked q (a # bs)"
  by (induction as rule: induct_list012; cases bs; simp)

lemma linked_frame:
  "(\<And>n. n \<in> set (butlast ns) \<Longrightarrow> next_free_block q' n = next_free_block q n) \<Longrightarrow>
   (\<And>n. n \<in> set (tl ns) \<Longrightarrow> prev_free_block q' n = prev_free_block q n) \<Longrightarrow>
   linked q' ns = linked q ns"
proof (induction q ns rule: linked.induct)
  case (1 q a b ns)
  then show ?case by (cases ns) auto
qed simp_all

lemma linked_num [simp]: "linked (q\<lparr>num_free_blocks := k\<rparr>) ns = linked q ns"
  by (rule linked_frame) simp_all

lemma fq_repD:
  assumes "fq_rep q xs"
  shows "distinct xs" "num_free_blocks q = int (length xs)" "linked q (nodes xs)"
    "next_free_block q Tail = None"
    "b \<notin> set xs \<Longrightarrow> prev_free_block q (Blk b) = None"
    "b \<notin> set xs \<Longrightarrow> next_free_block q (Blk b) = None"
  using assms by (auto simp: fq_rep_def)

lemma linked_next:
  assumes "linked q (nodes xs)"
  shows "next_free_block q Head = Some (case xs of [] \<Rightarrow> Tail | x # _ \<Rightarrow> Blk x)"
  using assms by (cases xs) simp_all

lemma linked_last:
  assumes "linked q (ns @ [a, b])"
  shows "prev_free_block q b = Some a" "next_free_block q a = Some b"
  using assms linked_append [of q ns a "[b]"] by simp_all

lemma fq_rep_tail:
  assumes "fq_rep q xs"
  shows "prev_free_block q Tail = Some (last (Head # map Blk xs))"
proof (cases xs rule: rev_cases)
  case Nil
  then show ?thesis using fq_repD(3) [OF assms] by simp
next
  case (snoc ys y)
  have "linked q ((Head # map Blk ys) @ [Blk y, Tail])"
    using fq_repD(3) [OF assms] snoc by simp
  from linked_last(1) [OF this] snoc show ?thesis by simp
qed

lemma distinct_nodes [simp]: "distinct (nodes xs) \<longleftrightarrow> distinct xs"
  by (auto simp: distinct_map inj_on_def)


lemma linked_splice:
  assumes "linked q (ls @ [a, b, c] @ rs)" "distinct (ls @ [a, b, c] @ rs)"
    and q': "\<And>n. n \<noteq> a \<Longrightarrow> n \<noteq> b \<Longrightarrow> next_free_block q' n = next_free_block q n"
      "\<And>n. n \<noteq> b \<Longrightarrow> n \<noteq> c \<Longrightarrow> prev_free_block q' n = prev_free_block q n"
      "next_free_block q' a = Some c" "prev_free_block q' c = Some a"
  shows "linked q' (ls @ [a, c] @ rs)"
proof -
  have l: "linked q (ls @ [a])" "linked q (c # rs)"
    using assms(1) linked_append [of q ls a "b # c # rs"] by simp_all
  have "linked q' (ls @ [a]) = linked q (ls @ [a])"
  proof (rule linked_frame)
    fix n assume "n \<in> set (butlast (ls @ [a]))"
    then show "next_free_block q' n = next_free_block q n"
      using q'(1) [of n] assms(2) by fastforce
  next
    fix n assume "n \<in> set (tl (ls @ [a]))"
    then have "n \<in> set (ls @ [a])" by (meson list.set_sel(2) snoc_eq_iff_butlast)
    then show "prev_free_block q' n = prev_free_block q n"
      using q'(2) [of n] assms(2) by fastforce
  qed
  moreover have "linked q' (c # rs) = linked q (c # rs)"
  proof (rule linked_frame)
    fix n assume "n \<in> set (butlast (c # rs))"
    then have "n \<in> set (c # rs)" by (rule in_set_butlastD)
    then show "next_free_block q' n = next_free_block q n"
      using q'(1) [of n] assms(2) by fastforce
  next
    fix n assume "n \<in> set (tl (c # rs))"
    then show "prev_free_block q' n = prev_free_block q n"
      using q'(2) [of n] assms(2) by fastforce
  qed
  ultimately show ?thesis
    using l q'(3,4) linked_append [of q' ls a "c # rs"] by simp
qed

lemma remove_rep:
  assumes "fq_rep q (us @ x # vs)"
  shows "\<exists>q'. remove_free (Blk x) q = Inr q' \<and> fq_rep q' (us @ vs)"
proof -
  note d = fq_repD [OF assms]
  define ls where "ls = butlast (Head # map Blk us)"
  define a where "a = last (Head # map Blk us)"
  define c where "c = hd (map Blk vs @ [Tail])"
  define rs where "rs = tl (map Blk vs @ [Tail])"
  have la: "Head # map Blk us = ls @ [a]"
    unfolding ls_def a_def by (rule append_butlast_last_id [symmetric]) simp
  have cr: "map Blk vs @ [Tail] = c # rs"
    unfolding c_def rs_def by simp
  have ns: "nodes (us @ x # vs) = ls @ [a, Blk x, c] @ rs" "nodes (us @ vs) = ls @ [a, c] @ rs"
    using la cr by (metis append.assoc append_Cons append_Nil list.simps(9) map_append)+
  have dn: "distinct (ls @ [a, Blk x, c] @ rs)"
    using d(1) unfolding ns(1) [symmetric] distinct_nodes .
  have l: "linked q (ls @ [a, Blk x, c] @ rs)"
    using d(3) ns(1) by simp
  have pn: "prev_free_block q (Blk x) = Some a" "next_free_block q (Blk x) = Some c"
    using l linked_append [of q ls a "Blk x # c # rs"] by simp_all
  define q' where "q' = add_num (-1) (set_prev (Blk x) None (set_next (Blk x) None
      (set_prev c (Some a) (set_next a (Some c) q))))"
  have r: "remove_free (Blk x) q = Inr q'"
    using pn by (simp add: remove_free_def q'_def Let_def)
  have "linked q' (nodes (us @ vs))"
    unfolding ns(2) by (rule linked_splice [OF l dn]) (use dn in \<open>auto simp: q'_def\<close>)
  moreover have "a = Head \<or> a \<in> Blk ` set us" "c = Tail \<or> c \<in> Blk ` set vs"
    using la cr by (cases us rule: rev_cases; cases vs; auto)+
  ultimately have "fq_rep q' (us @ vs)"
    using d dn by (auto simp: fq_rep_def q'_def)
  with r show ?thesis by blast
qed

lemma popleft_as_remove:
  assumes "fq_rep q (x # xs)"
  shows "popleft q = map_sum id (Pair (Blk x)) (remove_free (Blk x) q)"
proof -
  note d = fq_repD [OF assms]
  have l: "next_free_block q Head = Some (Blk x)" "prev_free_block q (Blk x) = Some Head"
    using d(3) by simp_all
  obtain n where n: "next_free_block q (Blk x) = Some n"
    using d(3) by (cases xs) auto
  show ?thesis
    using l n by (simp add: popleft_def remove_free_def Let_def)
qed

lemma popleft_rep:
  assumes "fq_rep q (x # xs)"
  shows "\<exists>q'. popleft q = Inr (Blk x, q') \<and> fq_rep q' xs"
  using remove_rep [of q "[]" x xs] popleft_as_remove [OF assms] assms by auto

lemma popleft_empty:
  assumes "fq_rep q []"
  shows "popleft q = Inl ValueError"
  using fq_repD [OF assms] by (simp add: popleft_def)

lemma remove_absent:
  assumes "fq_rep q xs" "x \<notin> set xs"
  shows "remove_free (Blk x) q = Inl RuntimeError"
  using fq_repD(5) [OF assms] by (simp add: remove_free_def)

definition unlink :: "node list \<Rightarrow> free_queue \<Rightarrow> free_queue" where
  "unlink bs q = q\<lparr>next_free_block := (\<lambda>n. if n \<in> set bs then None else next_free_block q n),
                   prev_free_block := (\<lambda>n. if n \<in> set bs then None else prev_free_block q n)\<rparr>"

lemma pop_loop_linked:
  "linked q (bs @ n # ns) \<Longrightarrow> distinct (bs @ n # ns) \<Longrightarrow>
   pop_loop (length bs) (Some (hd (bs @ [n]))) q ret = Inr (ret @ bs, Some n, unlink bs q)"
proof (induction bs arbitrary: q ret)
  case Nil
  then show ?case by (simp add: unlink_def)
next
  case (Cons b bs)
  define q' where "q' = set_next b None (set_prev b None q)"
  have nb: "next_free_block q b = Some (hd (bs @ [n]))"
    using Cons.prems(1) by (cases bs) simp_all
  have lq: "linked q (bs @ n # ns)"
    using Cons.prems(1) by (cases bs) simp_all
  have "linked q' (bs @ n # ns) = linked q (bs @ n # ns)"
  proof (rule linked_frame)
    fix m assume "m \<in> set (butlast (bs @ n # ns))"
    then have "m \<in> set (bs @ n # ns)" by (rule in_set_butlastD)
    then show "next_free_block q' m = next_free_block q m"
      using Cons.prems(2) by (auto simp: q'_def)
  next
    fix m assume "m \<in> set (tl (bs @ n # ns))"
    then have "m \<in> set (bs @ n # ns)" by (metis list.set_sel(2) append_is_Nil_conv list.distinct(1))
    then show "prev_free_block q' m = prev_free_block q m"
      using Cons.prems(2) by (auto simp: q'_def)
  qed
  then have "pop_loop (length bs) (Some (hd (bs @ [n]))) q' (ret @ [b])
      = Inr ((ret @ [b]) @ bs, Some n, unlink bs q')"
    using Cons.IH [of q' "ret @ [b]"] lq Cons.prems(2) by simp
  moreover have "unlink bs q' = unlink (b # bs) q"
    by (auto simp: unlink_def q'_def fun_eq_iff)
  ultimately show ?case
    using nb by (simp add: q'_def)
qed

lemma popleft_n_rep:
  assumes "fq_rep q (xs @ ys)"
  shows "\<exists>q'. popleft_n (length xs) q = Inr (map Blk xs, q') \<and> fq_rep q' ys"
proof (cases "xs = []")
  case True
  then show ?thesis using assms by (simp add: popleft_n_def)
next
  case False
  note d = fq_repD [OF assms]
  define n where "n = hd (map Blk ys @ [Tail])"
  define ns where "ns = tl (map Blk ys @ [Tail])"
  have nns: "map Blk ys @ [Tail] = n # ns"
    unfolding n_def ns_def by simp
  define q1 where "q1 = add_num (- int (length xs)) q"
  define q2 where "q2 = unlink (map Blk xs) q1"
  define q' where "q' = set_prev n (Some Head) (set_next Head (Some n) q2)"
  have dn: "distinct (Head # map Blk xs @ n # ns)"
    using d(1) distinct_nodes [of "xs @ ys"] nns by simp
  have lq: "linked q (Head # map Blk xs @ n # ns)"
    using d(3) nns by simp
  then have l1: "linked q1 (map Blk xs @ n # ns)"
    using False by (cases xs) (simp_all add: q1_def)
  have h: "next_free_block q Head = Some (hd (map Blk xs @ [n]))"
    using lq False by (cases xs) simp_all
  have q1': "q\<lparr>num_free_blocks := int (length ys)\<rparr> = q1"
    using d(2) by (simp add: q1_def)
  have p: "popleft_n (length xs) q = Inr (map Blk xs, q')"
    using pop_loop_linked [OF l1, of "[]"] dn h False d(2)
    by (simp add: popleft_n_def q1' q2_def [symmetric] q'_def)
  have "linked q (n # ns)"
    using linked_append [of q "Head # map Blk xs" n ns] lq by simp
  moreover have "linked q' (n # ns) = linked q (n # ns)"
  proof (rule linked_frame)
    fix m assume "m \<in> set (butlast (n # ns))"
    then have "m \<in> set (n # ns)" by (rule in_set_butlastD)
    then show "next_free_block q' m = next_free_block q m"
      using dn by (auto simp: q'_def q2_def unlink_def q1_def)
  qed (use dn in \<open>auto simp: q'_def q2_def unlink_def q1_def\<close>)
  ultimately have "linked q' (nodes ys)"
    using dn by (auto simp: nns q'_def)
  moreover have "n = Tail \<or> n \<in> Blk ` set ys"
    using nns by (cases ys) auto
  then have "prev_free_block q' (Blk b) = None \<and> next_free_block q' (Blk b) = None" if "b \<notin> set ys" for b
    using that d(5,6) [of b] dn
    by (cases "b \<in> set xs") (auto simp: q'_def q2_def q1_def unlink_def)
  moreover have "next_free_block q' Tail = None"
    using d(4) by (auto simp: q'_def q2_def q1_def unlink_def)
  moreover have "num_free_blocks q' = int (length ys)" "distinct ys"
    using d(1,2) by (auto simp: q'_def q2_def q1_def unlink_def)
  ultimately have "fq_rep q' ys"
    by (auto simp: fq_rep_def)
  with p show ?thesis by blast
qed

lemma popleft_n_short:
  assumes "fq_rep q xs" "length xs < n"
  shows "popleft_n n q = Inl AssertionError"
  using fq_repD(2) [OF assms(1)] assms(2) by (simp add: popleft_n_def)
lemma link_loop_linked:
  "distinct (l # bs) \<Longrightarrow> \<exists>q'. link_loop bs l q = (last (l # bs), q') \<and> linked q' (l # bs) \<and>
     num_free_blocks q' = num_free_blocks q \<and>
     (\<forall>n. n \<notin> set bs \<longrightarrow> prev_free_block q' n = prev_free_block q n) \<and>
     (\<forall>n. n \<notin> set (l # bs) \<longrightarrow> next_free_block q' n = next_free_block q n)"
proof (induction bs arbitrary: l q)
  case (Cons b bs)
  define q1 where "q1 = set_next l (Some b) (set_prev b (Some l) q)"
  from Cons.IH [of b q1] Cons.prems obtain q' where q':
    "link_loop bs b q1 = (last (b # bs), q')" "linked q' (b # bs)"
    "num_free_blocks q' = num_free_blocks q1"
    "\<forall>n. n \<notin> set bs \<longrightarrow> prev_free_block q' n = prev_free_block q1 n"
    "\<forall>n. n \<notin> set (b # bs) \<longrightarrow> next_free_block q' n = next_free_block q1 n"
    by auto
  then show ?case
    using Cons.prems by (intro exI [of _ q']) (auto simp: q1_def)
qed simp

lemma append_n_rep:
  assumes "fq_rep q xs" "distinct ys" "set xs \<inter> set ys = {}"
  shows "\<exists>q'. append_n (map Blk ys) q = Inr q' \<and> fq_rep q' (xs @ ys)"
proof (cases "ys = []")
  case True
  then show ?thesis using assms by (simp add: append_n_def)
next
  case False
  note d = fq_repD [OF assms(1)]
  define ls where "ls = butlast (Head # map Blk xs)"
  define l where "l = last (Head # map Blk xs)"
  have la: "Head # map Blk xs = ls @ [l]"
    unfolding ls_def l_def by (rule append_butlast_last_id [symmetric]) simp
  have nl: "nodes xs = ls @ [l, Tail]"
    using la by (metis append.assoc append_Cons append_Nil)
  have lm: "l = Head \<or> l \<in> Blk ` set xs"
    using la by (cases xs rule: rev_cases) auto
  have tl: "prev_free_block q Tail = Some l"
    using fq_rep_tail [OF assms(1)] l_def by simp
  have dn: "distinct (ls @ [l] @ map Blk ys @ [Tail])"
  proof -
    have "nodes (xs @ ys) = ls @ [l] @ map Blk ys @ [Tail]"
      using la by (metis append.assoc append_Cons map_append)
    then show ?thesis using assms(2,3) d(1) distinct_nodes [of "xs @ ys"] by (metis Int_commute distinct_append)
  qed
  then obtain q1 where q1:
    "link_loop (map Blk ys) l q = (last (l # map Blk ys), q1)" "linked q1 (l # map Blk ys)"
    "num_free_blocks q1 = num_free_blocks q"
    "\<And>n. n \<notin> set (map Blk ys) \<Longrightarrow> prev_free_block q1 n = prev_free_block q n"
    "\<And>n. n \<notin> set (l # map Blk ys) \<Longrightarrow> next_free_block q1 n = next_free_block q n"
    using link_loop_linked [of l "map Blk ys" q] by auto
  define z where "z = last ys"
  define q' where "q' = add_num (int (length ys)) (set_prev Tail (Some (Blk z)) (set_next (Blk z) (Some Tail) q1))"
  have zy: "z \<in> set ys" "last (l # map Blk ys) = Blk z"
    using False by (simp_all add: z_def last_map)
  have a: "append_n (map Blk ys) q = Inr q'"
    using tl q1(1) zy False by (simp add: append_n_def q'_def)
  have "linked q' (ls @ [l]) = linked q (ls @ [l])"
  proof (rule linked_frame)
    fix m assume "m \<in> set (butlast (ls @ [l]))"
    then show "next_free_block q' m = next_free_block q m"
      using dn zy q1(5) [of m] by (auto simp: q'_def)
  next
    fix m assume "m \<in> set (tl (ls @ [l]))"
    then have "m \<in> set (ls @ [l])" by (metis list.set_sel(2) snoc_eq_iff_butlast)
    then show "prev_free_block q' m = prev_free_block q m"
      using dn zy q1(4) [of m] by (auto simp: q'_def)
  qed
  moreover have "linked q (ls @ [l])"
    using d(3) linked_append [of q ls l "[Tail]"] nl by simp
  moreover have "linked q' (l # map Blk ys @ [Tail])"
  proof -
    obtain bs where bs: "l # map Blk ys = bs @ [Blk z]"
      using zy(2) by (metis append_butlast_last_id list.distinct(1))
    have dbs: "distinct (bs @ [Blk z, Tail])"
      using dn by (metis append_Cons append_assoc append_Nil bs distinct_append)
    have "linked q' (bs @ [Blk z]) = linked q1 (bs @ [Blk z])"
    proof (rule linked_frame)
      fix m assume "m \<in> set (butlast (bs @ [Blk z]))"
      then show "next_free_block q' m = next_free_block q1 m"
        using dbs by (auto simp: q'_def)
    next
      fix m assume "m \<in> set (tl (bs @ [Blk z]))"
      then have "m \<in> set (bs @ [Blk z])" by (metis list.set_sel(2) snoc_eq_iff_butlast)
      then show "prev_free_block q' m = prev_free_block q1 m"
        using dbs by (auto simp: q'_def)
    qed
    then have "linked q' (bs @ [Blk z, Tail])"
      using q1(2) bs linked_append [of q' bs "Blk z" "[Tail]"] by (simp add: q'_def)
    then show ?thesis using bs by (metis append_Cons append_Nil append_assoc)
  qed
  ultimately have "linked q' (ls @ l # map Blk ys @ [Tail])"
    using linked_append [of q' ls l "map Blk ys @ [Tail]"] by simp
  moreover have "nodes (xs @ ys) = ls @ l # map Blk ys @ [Tail]"
    using la by (metis append.assoc append_Cons append_Nil map_append)
  ultimately have "linked q' (nodes (xs @ ys))" by (simp only:)
  moreover have "prev_free_block q' (Blk b) = None \<and> next_free_block q' (Blk b) = None"
    if "b \<notin> set (xs @ ys)" for b
    using that q1(4) [of "Blk b"] q1(5) [of "Blk b"] d(5,6) [of b] zy(1) lm by (auto simp: q'_def)
  moreover have "next_free_block q' Tail = None"
    using q1(5) [of Tail] d(4) lm by (auto simp: q'_def)
  ultimately have "fq_rep q' (xs @ ys)"
    using d assms(2,3) q1(3) by (auto simp: fq_rep_def q'_def)
  with a show ?thesis by blast
qed

lemma append_free_as_n: "fq_rep q xs \<Longrightarrow> append_free b q = append_n [b] q"
  using fq_rep_tail [of q xs] by (simp add: append_free_def append_n_def)

lemma append_free_rep:
  assumes "fq_rep q xs" "x \<notin> set xs"
  shows "\<exists>q'. append_free (Blk x) q = Inr q' \<and> fq_rep q' (xs @ [x])"
  using append_n_rep [OF assms(1), of "[x]"] append_free_as_n [OF assms(1)] assms(2) by simp

lemma walk_loop_linked:
  "linked q (map Blk xs @ [Tail]) \<Longrightarrow> next_free_block q Tail = None \<Longrightarrow>
   walk_loop q (hd (map Blk xs @ [Tail])) ret = Some (ret @ map Blk xs)"
proof (induction xs arbitrary: ret)
  case Nil
  then show ?case by (simp add: walk_loop.simps)
next
  case (Cons x xs)
  then have "next_free_block q (Blk x) = Some (hd (map Blk xs @ [Tail]))"
    and "linked q (map Blk xs @ [Tail])"
    by (cases xs; simp)+
  then show ?case
    using Cons.IH [of "ret @ [Blk x]"] Cons.prems(2) by (simp add: walk_loop.simps [of q "Blk x"])
qed

lemma get_all_rep:
  assumes "fq_rep q xs"
  shows "get_all_free_blocks q = Some (Inr (map Blk xs))"
proof -
  note d = fq_repD [OF assms]
  have "linked q (map Blk xs @ [Tail])" "next_free_block q Head = Some (hd (map Blk xs @ [Tail]))"
    using d(3) by (cases xs; simp)+
  then show ?thesis
    using walk_loop_linked [of q xs "[]"] d(4) by (simp add: get_all_free_blocks_def)
qed

lemma init_link_simps:
  "next_free_block (init_link bs i q) n =
     (if i < length bs - 1 \<and> n = Blk (bs ! i) then Some (Blk (bs ! (i + 1))) else next_free_block q n)"
  "prev_free_block (init_link bs i q) n =
     (if i > 0 \<and> n = Blk (bs ! i) then Some (Blk (bs ! (i - 1))) else prev_free_block q n)"
  "num_free_blocks (init_link bs i q) = num_free_blocks q"
  by (simp_all add: init_link_def Let_def)


lemma fold_init_link:
  assumes "distinct bs"
  shows "k \<le> length bs \<Longrightarrow>
    (\<forall>i<k. i < length bs - 1 \<longrightarrow>
       next_free_block (fold (init_link bs) [0..<k] q) (Blk (bs ! i)) = Some (Blk (bs ! Suc i))) \<and>
    (\<forall>i<k. 0 < i \<longrightarrow>
       prev_free_block (fold (init_link bs) [0..<k] q) (Blk (bs ! i)) = Some (Blk (bs ! (i - 1)))) \<and>
    (\<forall>n. n \<notin> Blk ` set bs \<longrightarrow>
       next_free_block (fold (init_link bs) [0..<k] q) n = next_free_block q n \<and>
       prev_free_block (fold (init_link bs) [0..<k] q) n = prev_free_block q n) \<and>
    num_free_blocks (fold (init_link bs) [0..<k] q) = num_free_blocks q"
proof (induction k)
  case (Suc k)
  then have IH: "k < length bs" and ih: "k \<le> length bs"
    by simp_all
  note IH' = Suc.IH [OF ih]
  have "bs ! i \<noteq> bs ! k" if "i < k" for i
    using that IH assms by (auto simp: nth_eq_iff_index_eq)
  then show ?case
    using IH' IH by (auto simp: init_link_simps less_Suc_eq)
qed simp

lemma linked_nth:
  "(\<And>i. Suc i < length ns \<Longrightarrow> next_free_block q (ns ! i) = Some (ns ! Suc i)) \<Longrightarrow>
   (\<And>i. Suc i < length ns \<Longrightarrow> prev_free_block q (ns ! Suc i) = Some (ns ! i)) \<Longrightarrow> linked q ns"
proof (induction q ns rule: linked.induct)
  case (1 q a b ns)
  have "linked q (b # ns)"
    using 1(1) 1(2) [of "Suc i" for i] 1(3) [of "Suc i" for i] by simp
  then show ?case
    using 1(2) [of 0] 1(3) [of 0] by simp
qed simp_all

lemma fq_init_rep:
  assumes "distinct bs"
  shows "fq_rep (fq_init bs) bs"
proof (cases "bs = []")
  case True
  then show ?thesis by (simp add: fq_init_def fq_rep_def)
next
  case False
  define q0 where "q0 = \<lparr>prev_free_block = (\<lambda>_. None), next_free_block = (\<lambda>_. None),
    num_free_blocks = int (length bs)\<rparr>"
  define q1 where "q1 = fold (init_link bs) [0..<length bs] q0"
  note f = fold_init_link [OF assms order_refl, of q0, folded q1_def]
  define q2 where "q2 = set_next (Blk (last bs)) (Some Tail) (set_prev Tail (Some (Blk (last bs)))
    (set_prev (Blk (hd bs)) (Some Head) (set_next Head (Some (Blk (hd bs))) q1)))"
  have q: "fq_init bs = q2"
    using False unfolding fq_init_def q2_def q1_def q0_def Let_def by simp
  have hl: "hd bs = bs ! 0" "last bs = bs ! (length bs - 1)"
    using False by (simp_all add: hd_conv_nth last_conv_nth)
  have l: "linked q2 (map Blk bs)"
  proof (rule linked_nth)
    fix i assume i: "Suc i < length (map Blk bs)"
    then have ne: "bs ! i \<noteq> last bs" "bs ! Suc i \<noteq> hd bs"
      using nth_eq_iff_index_eq [OF assms, of "Suc i" 0]
        nth_eq_iff_index_eq [OF assms, of i "length bs - 1"] False i by (auto simp: hl)
    have "next_free_block q1 (Blk (bs ! i)) = Some (Blk (bs ! Suc i))"
      using f i by auto
    then show "next_free_block q2 (map Blk bs ! i) = Some (map Blk bs ! Suc i)"
      using ne i by (simp add: q2_def)
    have "prev_free_block q1 (Blk (bs ! Suc i)) = Some (Blk (bs ! i))"
      using conjunct1 [OF conjunct2 [OF f]] i by auto
    then show "prev_free_block q2 (map Blk bs ! Suc i) = Some (map Blk bs ! i)"
      using ne i by (simp add: q2_def)
  qed
  have bs: "map Blk bs = butlast (map Blk bs) @ [Blk (last bs)]"
    using False by (metis append_butlast_last_id last_map map_is_Nil_conv)
  have bs': "map Blk bs @ [Tail] = butlast (map Blk bs) @ [Blk (last bs), Tail]"
    using bs by (metis append.assoc append_Cons append_Nil)
  have "next_free_block q2 (Blk (last bs)) = Some Tail" "prev_free_block q2 Tail = Some (Blk (last bs))"
    by (simp_all add: q2_def)
  then have "linked q2 (map Blk bs @ [Tail])"
    using l linked_append [of q2 "butlast (map Blk bs)" "Blk (last bs)" "[Tail]"]
    unfolding bs' bs [symmetric] by simp
  then have "linked q2 (nodes bs)"
    using False by (cases bs) (simp_all add: q2_def)
  moreover have "next_free_block q2 (Blk b) = None \<and> prev_free_block q2 (Blk b) = None" if "b \<notin> set bs" for b
  proof -
    have "b \<noteq> hd bs" "b \<noteq> last bs" "Blk b \<notin> Blk ` set bs"
      using that False by auto
    then show ?thesis using f by (simp add: q2_def q0_def)
  qed
  ultimately show ?thesis
    using f assms by (auto simp: fq_rep_def q) (auto simp: q2_def q0_def)
qed


subsection \<open>The contract and sequences of operations\<close>

datatype queue_op = Pop nat | Remove nat | Append "nat list"

fun run_ops :: "(nat \<Rightarrow> 'q \<Rightarrow> (node list \<times> 'q) res) \<Rightarrow> (node \<Rightarrow> 'q \<Rightarrow> 'q res) \<Rightarrow>
    (node list \<Rightarrow> 'q \<Rightarrow> 'q res) \<Rightarrow> queue_op list \<Rightarrow> 'q \<Rightarrow> (node list \<times> 'q) res" where
  "run_ops popn rem app [] q = Inr ([], q)"
| "run_ops popn rem app (Pop n # ops) q =
     rbind (popn n q) (\<lambda>(bs, q'). rbind (run_ops popn rem app ops q') (\<lambda>(cs, q''). Inr (bs @ cs, q'')))"
| "run_ops popn rem app (Remove b # ops) q =
     rbind (rem (Blk b) q) (run_ops popn rem app ops)"
| "run_ops popn rem app (Append bs # ops) q =
     rbind (app (map Blk bs) q) (run_ops popn rem app ops)"

definition fq_run :: "queue_op list \<Rightarrow> free_queue \<Rightarrow> (node list \<times> free_queue) res" where
  "fq_run = run_ops popleft_n remove_free append_n"

fun list_run :: "queue_op list \<Rightarrow> nat list \<Rightarrow> (nat list \<times> nat list) option" where
  "list_run [] xs = Some ([], xs)"
| "list_run (Pop n # ops) xs =
     (if n \<le> length xs
      then map_option (\<lambda>(out, ys). (take n xs @ out, ys)) (list_run ops (drop n xs)) else None)"
| "list_run (Remove b # ops) xs = (if b \<in> set xs then list_run ops (remove1 b xs) else None)"
| "list_run (Append bs # ops) xs =
     (if distinct bs \<and> list_all (\<lambda>b. b \<notin> set xs) bs then list_run ops (xs @ bs) else None)"

locale eviction_queue =
  fixes rep :: "'q \<Rightarrow> nat list \<Rightarrow> bool"
    and popn :: "nat \<Rightarrow> 'q \<Rightarrow> (node list \<times> 'q) res"
    and rem :: "node \<Rightarrow> 'q \<Rightarrow> 'q res"
    and app :: "node list \<Rightarrow> 'q \<Rightarrow> 'q res"
  assumes rep_distinct: "rep q xs \<Longrightarrow> distinct xs"
    and popn_rep: "rep q (xs @ ys) \<Longrightarrow> \<exists>q'. popn (length xs) q = Inr (map Blk xs, q') \<and> rep q' ys"
    and rem_rep: "rep q (us @ x # vs) \<Longrightarrow> \<exists>q'. rem (Blk x) q = Inr q' \<and> rep q' (us @ vs)"
    and app_rep: "rep q xs \<Longrightarrow> distinct ys \<Longrightarrow> set xs \<inter> set ys = {} \<Longrightarrow>
      \<exists>q'. app (map Blk ys) q = Inr q' \<and> rep q' (xs @ ys)"
begin

lemma pop_take:
  assumes "rep q xs" "n \<le> length xs"
  shows "\<exists>q'. popn n q = Inr (map Blk (take n xs), q') \<and> rep q' (drop n xs)"
  using popn_rep [of q "take n xs" "drop n xs"] assms by (simp add: min_absorb2)

lemma rem_remove1:
  assumes "rep q xs" "x \<in> set xs"
  shows "\<exists>q'. rem (Blk x) q = Inr q' \<and> rep q' (remove1 x xs)"
proof -
  obtain us vs where "xs = us @ x # vs" "x \<notin> set us"
    using assms(2) by (meson split_list_first)
  then show ?thesis using rem_rep [of q us x vs] assms(1) by (simp add: remove1_append)
qed

lemma touch_moves_to_back:
  assumes "rep q xs" "x \<in> set xs"
  shows "\<exists>q1 q2. rem (Blk x) q = Inr q1 \<and> app [Blk x] q1 = Inr q2 \<and> rep q2 (remove1 x xs @ [x])"
proof -
  obtain q1 where q1: "rem (Blk x) q = Inr q1" "rep q1 (remove1 x xs)"
    using rem_remove1 [OF assms] by blast
  have "set (remove1 x xs) \<inter> set [x] = {}"
    using rep_distinct [OF assms(1)] by simp
  with app_rep [OF q1(2), of "[x]"] q1(1) show ?thesis by auto
qed

lemma run_simulates:
  "rep q xs \<Longrightarrow> list_run ops xs = Some (out, ys) \<Longrightarrow>
   \<exists>q'. run_ops popn rem app ops q = Inr (map Blk out, q') \<and> rep q' ys"
proof (induction ops xs arbitrary: q out rule: list_run.induct)
  case (1 xs)
  then show ?case by auto
next
  case (2 n ops xs)
  from 2(3) obtain out' where o: "n \<le> length xs" "list_run ops (drop n xs) = Some (out', ys)"
    "out = take n xs @ out'"
    by (auto split: if_splits)
  obtain q1 where "popn n q = Inr (map Blk (take n xs), q1)" "rep q1 (drop n xs)"
    using pop_take [OF 2(2) o(1)] by blast
  then show ?case
    using 2(1) [OF o(1) _ o(2)] o(3) by fastforce
next
  case (3 b ops xs)
  from 3(3) have o: "b \<in> set xs" "list_run ops (remove1 b xs) = Some (out, ys)"
    by (auto split: if_splits)
  obtain q1 where "rem (Blk b) q = Inr q1" "rep q1 (remove1 b xs)"
    using rem_remove1 [OF 3(2) o(1)] by blast
  then show ?case
    using 3(1) [OF o(1) _ o(2)] by fastforce
next
  case (4 bs ops xs)
  from 4(3) have o: "distinct bs \<and> list_all (\<lambda>b. b \<notin> set xs) bs" "list_run ops (xs @ bs) = Some (out, ys)"
    by (auto split: if_splits)
  then have "set xs \<inter> set bs = {}" by (auto simp: list_all_iff)
  then obtain q1 where "app (map Blk bs) q = Inr q1" "rep q1 (xs @ bs)"
    using app_rep [OF 4(2), of bs] o(1) by blast
  then show ?case
    using 4(1) [OF o(1) _ o(2)] by fastforce
qed

end

interpretation fq: eviction_queue fq_rep popleft_n remove_free append_n
proof
  show "distinct xs" if "fq_rep q xs" for q xs
    using that by (rule fq_repD(1))
qed (fact popleft_n_rep remove_rep append_n_rep)+

text \<open>
  C9.  The doubly linked free queue implements a list.  Started from any distinct blocks, every
  sequence of \<open>popleft_n\<close>, \<open>remove\<close> and \<open>append_n\<close> that is meaningful for the list (no more
  blocks popped than there are, only queued blocks removed, only unqueued ones appended)
  succeeds, hands out exactly the blocks the list hands out and in that order, and leaves a
  queue whose forward walk terminates with exactly the list and whose counter is its length.
\<close>

theorem free_queue_implements_list:
  assumes "distinct bs" "list_run ops bs = Some (out, xs)"
  shows "\<exists>q. fq_run ops (fq_init bs) = Inr (map Blk out, q) \<and>
    get_all_free_blocks q = Some (Inr (map Blk xs)) \<and> num_free_blocks q = int (length xs)"
proof -
  obtain q where "fq_run ops (fq_init bs) = Inr (map Blk out, q)" "fq_rep q xs"
    using fq.run_simulates [OF fq_init_rep [OF assms(1)] assms(2)] by (auto simp: fq_run_def)
  then show ?thesis
    using get_all_rep fq_repD(2) by blast
qed

theorem free_queue_implements_list_witness:
  "\<exists>q. fq_run [Pop 2, Remove 3, Append [1, 0], Pop 1] (fq_init [0, 1, 2, 3]) = Inr (map Blk [0, 1, 2], q) \<and>
    get_all_free_blocks q = Some (Inr (map Blk [1, 0])) \<and> num_free_blocks q = int (length [1::nat, 0])"
  by (rule free_queue_implements_list) simp_all

text \<open>
  Using the queue wrongly is detected, not absorbed: popping from an empty queue raises
  \<open>ValueError\<close>, popping more than the counter fails the assertion, and removing a block that
  is not queued raises \<open>RuntimeError\<close>.
\<close>

theorem free_queue_misuse_detected:
  assumes "fq_rep q xs" "x \<notin> set xs" "length xs < n"
  shows "popleft_n n q = Inl AssertionError \<and> remove_free (Blk x) q = Inl RuntimeError \<and>
    (popleft q = Inl ValueError) = (xs = [])"
proof -
  have "popleft q \<noteq> Inl ValueError" if "xs \<noteq> []"
    using popleft_rep [of q "hd xs" "tl xs"] assms(1) that by auto
  then show ?thesis
    using popleft_n_short [OF assms(1,3)] remove_absent [OF assms(1,2)] popleft_empty assms(1) by blast
qed

theorem free_queue_misuse_detected_witness:
  "popleft_n 3 (fq_init [7, 8]) = Inl AssertionError \<and> remove_free (Blk 9) (fq_init [7, 8]) = Inl RuntimeError \<and>
    (popleft (fq_init [7, 8]) = Inl ValueError) = ([7::nat, 8] = [])"
  by (rule free_queue_misuse_detected [OF fq_init_rep]) simp_all

end
