(* ===== verification/VL_Request.thy ===== *)
theory VL_Request
  imports Prelude "HOL-Library.Char_ord" "HOL-Library.List_Lexorder" "HOL-Library.Countable"
begin

text \<open>
  Requests (\<open>v1/request.py\<close>) and their block hashes (\<open>v1/core/kv_cache_utils.py\<close>).  A request
  is a record with the fields the modelled operations read or write.  Bytes are naturals; the
  digest functions (\<open>caching_hash_fn\<close>, SHA-256 of a tensor slice) and the seed \<open>NONE_HASH\<close>
  are parameters.  The hashing loop runs for ever when the block size is 0, so its result is
  an option.  The memo table of embedding digests is not a field: it is keyed by slices of a
  tensor that never changes, so reading it gives the digest again.
\<close>

type_synonym bytes = "nat list"

subsection \<open>Status\<close>

datatype request_status =
    WAITING
  | WAITING_FOR_STRUCTURED_OUTPUT_GRAMMAR
  | WAITING_FOR_REMOTE_KVS
  | WAITING_FOR_STREAMING_REQ
  | RUNNING
  | PREEMPTED
  | FINISHED_STOPPED
  | FINISHED_LENGTH_CAPPED
  | FINISHED_ABORTED
  | FINISHED_IGNORED
  | FINISHED_ERROR
  | FINISHED_REPETITION

primrec status_value :: "request_status \<Rightarrow> nat" where
  "status_value WAITING = 1"
| "status_value WAITING_FOR_STRUCTURED_OUTPUT_GRAMMAR = 2"
| "status_value WAITING_FOR_REMOTE_KVS = 3"
| "status_value WAITING_FOR_STREAMING_REQ = 4"
| "status_value RUNNING = 5"
| "status_value PREEMPTED = 6"
| "status_value FINISHED_STOPPED = 7"
| "status_value FINISHED_LENGTH_CAPPED = 8"
| "status_value FINISHED_ABORTED = 9"
| "status_value FINISHED_IGNORED = 10"
| "status_value FINISHED_ERROR = 11"
| "status_value FINISHED_REPETITION = 12"

lemma status_value_inject [simp]: "status_value s = status_value t \<longleftrightarrow> s = t"
  by (cases s; cases t) simp_all

instantiation request_status :: linorder
begin

definition less_eq_request_status :: "request_status \<Rightarrow> request_status \<Rightarrow> bool" where
  "s \<le> t \<longleftrightarrow> status_value s \<le> status_value t"

definition less_request_status :: "request_status \<Rightarrow> request_status \<Rightarrow> bool" where
  "s < t \<longleftrightarrow> status_value s < status_value t"

instance
  by standard (auto simp: less_eq_request_status_def less_request_status_def)

end

datatype finish_reason = STOP | LENGTH | ABORT | ERROR | REPETITION

definition is_finished_status :: "request_status \<Rightarrow> bool" where
  "is_finished_status s \<longleftrightarrow> s > PREEMPTED"

definition FINISHED_REASON_MAP :: "(request_status \<times> finish_reason) list" where
  "FINISHED_REASON_MAP =
    [(FINISHED_STOPPED, STOP),
     (FINISHED_LENGTH_CAPPED, LENGTH),
     (FINISHED_ABORTED, ABORT),
     (FINISHED_IGNORED, LENGTH),
     (FINISHED_ERROR, ERROR),
     (WAITING_FOR_STREAMING_REQ, STOP),
     (FINISHED_REPETITION, REPETITION)]"

definition get_finished_reason_status :: "request_status \<Rightarrow> finish_reason option" where
  "get_finished_reason_status s = map_of FINISHED_REASON_MAP s"

subsection \<open>Requests\<close>

record mm_feature =
  mm_identifier :: string
  mm_offset :: nat
  mm_length :: nat
  is_embed :: "bool list option"

definition embeds_cumsum :: "mm_feature \<Rightarrow> nat list option" where
  "embeds_cumsum f =
     map_option (\<lambda>m. map (\<lambda>i. length (filter id (take (Suc i) m))) [0..<length m]) (is_embed f)"

definition get_num_embeds :: "mm_feature \<Rightarrow> nat" where
  "get_num_embeds f =
     (case embeds_cumsum f of None \<Rightarrow> mm_length f | Some cs \<Rightarrow> if cs = [] then 0 else last cs)"

record repetition_params =
  rp_max_pattern_size :: int
  rp_min_pattern_size :: int
  rp_min_count :: int

record sampling_params =
  sp_max_tokens :: "nat option"
  sp_structured_outputs :: bool
  sp_skip_reading_prefix_cache :: "bool option"
  sp_min_tokens :: nat
  sp_eos_token_id :: "nat option"
  sp_stop_token_ids :: "nat list"
  sp_repetition_detection :: "repetition_params option"

record pooling_params =
  pp_skip_reading_prefix_cache :: "bool option"

record engine_core_request =
  e_request_id :: string
  e_client_index :: nat
  e_prompt_token_ids :: "nat list option"
  e_prompt_embeds :: "bytes list option"
  e_mm_features :: "mm_feature list"
  e_sampling_params :: "sampling_params option"
  e_pooling_params :: "pooling_params option"
  e_arrival_time :: int
  e_lora_id :: "nat option"
  e_lora_name :: "string option"
  e_cache_salt :: "string option"
  e_priority :: int
  e_resumable :: bool

text \<open>The next input chunk of a streaming session.\<close>

record streaming_update =
  u_mm_features :: "mm_feature list option"
  u_prompt_token_ids :: "nat list option"
  u_max_tokens :: nat
  u_arrival_time :: int
  u_sampling_params :: "sampling_params option"

datatype stop_reason = StopToken nat | RepetitionDetected

text \<open>Speculative tokens are integers: the asynchronous scheduler fills in -1.\<close>

record request =
  request_id :: string
  obj_id :: nat
  client_index :: nat
  priority :: int
  arrival_time :: int
  status :: request_status
  max_tokens :: nat
  prompt_token_ids :: "nat list option"
  prompt_embeds :: "bytes list option"
  num_prompt_tokens :: nat
  output_token_ids :: "nat list"
  all_token_ids :: "nat list"
  num_output_placeholders :: nat
  spec_token_ids :: "int list"
  num_computed_tokens :: nat
  cache_salt :: "string option"
  mm_features :: "mm_feature list"
  lora_id :: "nat option"
  lora_name :: "string option"
  structured_output :: bool
  num_preemptions :: nat
  block_hashes :: "bytes list"
  skip_reading_prefix_cache :: bool
  resumable :: bool
  req_sampling_params :: "sampling_params option"
  req_pooling_params :: "pooling_params option"
  req_stop_reason :: "stop_reason option"
  is_prefill_chunk :: bool
  async_tokens_to_discard :: nat
  streaming_queue :: "streaming_update option list option"
  has_prefill_stats :: bool

definition num_tokens :: "request \<Rightarrow> nat" where
  "num_tokens r = length (all_token_ids r)"

definition num_tokens_with_spec :: "request \<Rightarrow> nat" where
  "num_tokens_with_spec r = length (all_token_ids r) + length (spec_token_ids r)"

definition num_output_tokens :: "request \<Rightarrow> nat" where
  "num_output_tokens r = length (output_token_ids r)"

definition is_finished :: "request \<Rightarrow> bool" where
  "is_finished r = is_finished_status (status r)"

definition get_finished_reason :: "request \<Rightarrow> finish_reason option" where
  "get_finished_reason r = get_finished_reason_status (status r)"

definition get_num_encoder_embeds :: "request \<Rightarrow> nat \<Rightarrow> nat res" where
  "get_num_encoder_embeds r input_id =
     (if input_id < length (mm_features r) then Inr (get_num_embeds (mm_features r ! input_id))
      else Inl AssertionError)"

definition get_skip_reading_prefix_cache ::
  "sampling_params option \<Rightarrow> pooling_params option \<Rightarrow> bool" where
  "get_skip_reading_prefix_cache sp pp =
     (case Option.bind sp sp_skip_reading_prefix_cache of
        Some b \<Rightarrow> b
      | None \<Rightarrow> (case Option.bind pp pp_skip_reading_prefix_cache of Some b \<Rightarrow> b | None \<Rightarrow> False))"

text \<open>\<open>Request.__lt__\<close>: priority, then arrival time, then identifier, then object identity.\<close>

definition request_lt :: "request \<Rightarrow> request \<Rightarrow> bool" where
  "request_lt a b =
     (if priority a \<noteq> priority b then priority a < priority b
      else if arrival_time a \<noteq> arrival_time b then arrival_time a < arrival_time b
      else if request_id a \<noteq> request_id b then request_id a < request_id b
      else obj_id a < obj_id b)"

subsection \<open>Extra hash keys\<close>

datatype extra_key = StrKey string | MMKey string int | BytesKey bytes

definition need_extra_keys :: "request \<Rightarrow> bool" where
  "need_extra_keys r \<longleftrightarrow> mm_features r \<noteq> [] \<or> lora_name r \<noteq> None \<or> cache_salt r \<noteq> None"

function mm_keys_loop :: "mm_feature list \<Rightarrow> nat \<Rightarrow> nat \<Rightarrow> nat \<Rightarrow> extra_key list \<Rightarrow> extra_key list \<times> nat" where
  "mm_keys_loop fs start_token_idx end_token_idx idx keys =
     (if idx < length fs then
        let offset = mm_offset (fs ! idx); len = mm_length (fs ! idx) in
        (if end_token_idx > offset then
           (if start_token_idx \<ge> offset + len
            then mm_keys_loop fs start_token_idx end_token_idx (idx + 1) keys
            else let keys' = keys @ [MMKey (mm_identifier (fs ! idx)) (int offset - int start_token_idx)] in
              (if end_token_idx \<ge> offset + len
               then mm_keys_loop fs start_token_idx end_token_idx (idx + 1) keys'
               else (keys', idx)))
         else (keys, idx))
      else (keys, idx))"
  by pat_completeness auto
termination
  by (relation "measure (\<lambda>(fs, s, e, idx, keys). length fs - idx)") auto

declare mm_keys_loop.simps [simp del]

definition gen_mm_extra_hash_keys ::
  "request \<Rightarrow> nat \<Rightarrow> nat \<Rightarrow> int \<Rightarrow> (extra_key list \<times> int) res" where
  "gen_mm_extra_hash_keys r start_token_idx end_token_idx start_mm_idx =
     (let fs = mm_features r in
      if fs = [] then Inr ([], start_mm_idx)
      else if mm_offset (last fs) + mm_length (last fs) \<le> start_token_idx then Inr ([], start_mm_idx)
      else if start_mm_idx < 0 \<and> \<not> - start_mm_idx \<le> int (length fs) then Inl AssertionError
      else let start = (if start_mm_idx < 0 then int (length fs) + start_mm_idx else start_mm_idx);
               (keys, idx) = mm_keys_loop fs start_token_idx end_token_idx (nat start) []
           in Inr (keys, int idx))"

definition gen_lora_extra_hash_keys :: "request \<Rightarrow> extra_key list" where
  "gen_lora_extra_hash_keys r = (case lora_name r of None \<Rightarrow> [] | Some n \<Rightarrow> [StrKey n])"

definition gen_prompt_embeds_extra_hash_keys ::
  "(bytes \<Rightarrow> bytes) \<Rightarrow> request \<Rightarrow> nat \<Rightarrow> nat \<Rightarrow> extra_key list" where
  "gen_prompt_embeds_extra_hash_keys sha256 r start_token_idx end_token_idx =
     (case prompt_embeds r of
        None \<Rightarrow> []
      | Some e \<Rightarrow>
          [BytesKey (sha256 (concat (take (end_token_idx - start_token_idx) (drop start_token_idx e))))])"

definition generate_block_hash_extra_keys ::
  "(bytes \<Rightarrow> bytes) \<Rightarrow> request \<Rightarrow> nat \<Rightarrow> nat \<Rightarrow> int \<Rightarrow> (extra_key list option \<times> int) res" where
  "generate_block_hash_extra_keys sha256 r start_token_idx end_token_idx start_mm_idx =
     rbind (gen_mm_extra_hash_keys r start_token_idx end_token_idx start_mm_idx)
       (\<lambda>(mm_keys, new_start_mm_idx).
          let cache_salt_keys =
                (case cache_salt r of
                   None \<Rightarrow> []
                 | Some s \<Rightarrow> if start_token_idx = 0 \<and> s \<noteq> [] then [StrKey s] else []);
              extra_keys = gen_lora_extra_hash_keys r @ mm_keys @ cache_salt_keys
                @ gen_prompt_embeds_extra_hash_keys sha256 r start_token_idx end_token_idx
          in Inr (if extra_keys = [] then None else Some extra_keys, new_start_mm_idx))"

subsection \<open>Block hashes\<close>

type_synonym hash_fn = "bytes \<times> nat list \<times> extra_key list option \<Rightarrow> bytes"

definition hash_block_tokens ::
  "hash_fn \<Rightarrow> bytes \<Rightarrow> bytes option \<Rightarrow> nat list \<Rightarrow> extra_key list option \<Rightarrow> bytes" where
  "hash_block_tokens hash_function NONE_HASH parent_block_hash curr_block_token_ids extra_keys =
     (let parent = (case parent_block_hash of
                      None \<Rightarrow> NONE_HASH
                    | Some p \<Rightarrow> if p = [] then NONE_HASH else p)
      in hash_function (parent, curr_block_token_ids, extra_keys))"

definition slice :: "nat \<Rightarrow> nat \<Rightarrow> 'a list \<Rightarrow> 'a list" where
  "slice i j xs = take (j - i) (drop i xs)"

partial_function (option) hash_loop ::
  "nat \<Rightarrow> hash_fn \<Rightarrow> bytes \<Rightarrow> (bytes \<Rightarrow> bytes) \<Rightarrow> request \<Rightarrow> nat \<Rightarrow> int \<Rightarrow> bytes option \<Rightarrow>
     bytes list \<Rightarrow> bytes list res option" where
  [code]: "hash_loop block_size hf NONE_HASH sha256 r start_token_idx curr_mm_idx prev new_hashes =
     (if start_token_idx + block_size > num_tokens r then Some (Inr new_hashes)
      else case generate_block_hash_extra_keys sha256 r start_token_idx
                  (start_token_idx + block_size) curr_mm_idx of
             Inl e \<Rightarrow> Some (Inl e)
           | Inr (extra_keys, mm) \<Rightarrow>
               (let h = hash_block_tokens hf NONE_HASH prev
                      (slice start_token_idx (start_token_idx + block_size) (all_token_ids r)) extra_keys
                in hash_loop block_size hf NONE_HASH sha256 r (start_token_idx + block_size) mm
                     (Some h) (new_hashes @ [h])))"

definition get_request_block_hasher ::
  "nat \<Rightarrow> hash_fn \<Rightarrow> bytes \<Rightarrow> (bytes \<Rightarrow> bytes) \<Rightarrow> request \<Rightarrow> bytes list res option" where
  "get_request_block_hasher block_size hf NONE_HASH sha256 r =
     (let start_token_idx = length (block_hashes r) * block_size in
      if start_token_idx + block_size > num_tokens r then Some (Inr [])
      else hash_loop block_size hf NONE_HASH sha256 r start_token_idx
             (if start_token_idx > 0 then -1 else 0)
             (if block_hashes r = [] then None else Some (last (block_hashes r))) [])"

type_synonym block_hasher = "request \<Rightarrow> bytes list res option"

definition update_block_hashes :: "block_hasher option \<Rightarrow> request \<Rightarrow> request res option" where
  "update_block_hashes hasher r =
     (case hasher of
        None \<Rightarrow> Some (Inr r)
      | Some h \<Rightarrow> map_option (map_sum id (\<lambda>new. r\<lparr>block_hashes := block_hashes r @ new\<rparr>)) (h r))"

definition append_output_token_ids ::
  "block_hasher option \<Rightarrow> nat list \<Rightarrow> request \<Rightarrow> request res option" where
  "append_output_token_ids hasher token_ids r =
     update_block_hashes hasher
       (r\<lparr>output_token_ids := output_token_ids r @ token_ids,
          all_token_ids := all_token_ids r @ token_ids\<rparr>)"

definition length_from_prompt_token_ids_or_embeds ::
  "nat list option \<Rightarrow> bytes list option \<Rightarrow> nat res" where
  "length_from_prompt_token_ids_or_embeds ids embeds =
     (case ids of
        None \<Rightarrow> (case embeds of None \<Rightarrow> Inl ValueError | Some e \<Rightarrow> Inr (length e))
      | Some t \<Rightarrow> (case embeds of
            None \<Rightarrow> Inr (length t)
          | Some e \<Rightarrow> if length e \<noteq> length t then Inl ValueError else Inr (length t)))"

definition from_engine_core_request ::
  "nat \<Rightarrow> engine_core_request \<Rightarrow> block_hasher option \<Rightarrow> request res option" where
  "from_engine_core_request oid e hasher =
     (let structured = (case e_sampling_params e of None \<Rightarrow> False | Some sp \<Rightarrow> sp_structured_outputs sp);
          limits = (case (e_pooling_params e, e_sampling_params e) of
              (Some _, _) \<Rightarrow> Inr (1, WAITING)
            | (None, Some sp) \<Rightarrow>
                (case sp_max_tokens sp of
                   None \<Rightarrow> Inl AssertionError
                 | Some n \<Rightarrow> Inr (n, if structured then WAITING_FOR_STRUCTURED_OUTPUT_GRAMMAR else WAITING))
            | (None, None) \<Rightarrow> Inl ValueError)
      in case rbind limits (\<lambda>(mt, st).
           rbind (length_from_prompt_token_ids_or_embeds (e_prompt_token_ids e) (e_prompt_embeds e)) (\<lambda>n.
           Inr \<lparr>request_id = e_request_id e, obj_id = oid, client_index = e_client_index e,
             priority = e_priority e, arrival_time = e_arrival_time e, status = st, max_tokens = mt,
             prompt_token_ids = e_prompt_token_ids e, prompt_embeds = e_prompt_embeds e,
             num_prompt_tokens = n, output_token_ids = [],
             all_token_ids = (case e_prompt_token_ids e of Some t \<Rightarrow> t | None \<Rightarrow> replicate n 0),
             num_output_placeholders = 0, spec_token_ids = [], num_computed_tokens = 0,
             cache_salt = e_cache_salt e, mm_features = e_mm_features e,
             lora_id = e_lora_id e, lora_name = e_lora_name e,
             structured_output = structured, num_preemptions = 0, block_hashes = [],
             skip_reading_prefix_cache =
               get_skip_reading_prefix_cache (e_sampling_params e) (e_pooling_params e),
             resumable = e_resumable e, req_sampling_params = e_sampling_params e,
             req_pooling_params = e_pooling_params e, req_stop_reason = None, is_prefill_chunk = False,
             async_tokens_to_discard = 0, streaming_queue = None, has_prefill_stats = True\<rparr>)) of
         Inl err \<Rightarrow> Some (Inl err)
       | Inr r \<Rightarrow> update_block_hashes hasher r)"


subsection \<open>Continuing a streaming session\<close>

definition streaming_update_from_request :: "request \<Rightarrow> streaming_update option" where
  "streaming_update_from_request r =
     (if \<not> resumable r then None
      else Some \<lparr>u_mm_features = Some (mm_features r), u_prompt_token_ids = prompt_token_ids r,
        u_max_tokens = max_tokens r, u_arrival_time = arrival_time r,
        u_sampling_params = req_sampling_params r\<rparr>)"

text \<open>\<open>Scheduler._update_request_as_session\<close>, with the scheduler's counter of sessions that wait
  for input.\<close>

definition update_request_as_session ::
  "block_hasher option \<Rightarrow> request \<Rightarrow> streaming_update \<Rightarrow> int \<Rightarrow> (request \<times> int) res option" where
  "update_request_as_session hasher session update num_waiting_for_streaming_input =
     (let n = num_computed_tokens session;
          kept_output_tokens = slice (num_prompt_tokens session) n (all_token_ids session);
          all1 = take n (all_token_ids session)
      in case prompt_token_ids session of
           None \<Rightarrow> Some (Inl AssertionError)
         | Some prompt \<Rightarrow>
             (let base = length all1;
                  new_mm = (case u_mm_features update of
                              None \<Rightarrow> []
                            | Some fs \<Rightarrow> map (\<lambda>f. f\<lparr>mm_offset := mm_offset f + base\<rparr>) fs);
                  new_tokens = (case u_prompt_token_ids update of None \<Rightarrow> [] | Some t \<Rightarrow> t);
                  prompt2 = prompt @ kept_output_tokens @ new_tokens;
                  s1 = session\<lparr>output_token_ids := [], all_token_ids := all1 @ new_tokens,
                         mm_features := mm_features session @ new_mm,
                         prompt_token_ids := Some prompt2\<rparr>
              in map_option (map_sum id (\<lambda>s2.
                   (s2\<lparr>num_prompt_tokens := length prompt2, arrival_time := u_arrival_time update,
                      req_sampling_params := u_sampling_params update, status := WAITING\<rparr>,
                    if status session = WAITING_FOR_STREAMING_REQ
                    then num_waiting_for_streaming_input - 1 else num_waiting_for_streaming_input)))
                 (update_block_hashes hasher s1)))"

text \<open>A request without special inputs, for concrete instances.\<close>

definition plain_request :: "string \<Rightarrow> nat list \<Rightarrow> request" where
  "plain_request rid toks =
     \<lparr>request_id = rid, obj_id = 0, client_index = 0, priority = 0, arrival_time = 0,
      status = WAITING, max_tokens = 16, prompt_token_ids = Some toks, prompt_embeds = None,
      num_prompt_tokens = length toks, output_token_ids = [], all_token_ids = toks,
      num_output_placeholders = 0, spec_token_ids = [], num_computed_tokens = 0,
      cache_salt = None, mm_features = [], lora_id = None, lora_name = None, structured_output = False,
      num_preemptions = 0, block_hashes = [], skip_reading_prefix_cache = False,
      resumable = False, req_sampling_params = None, req_pooling_params = None, req_stop_reason = None,
      is_prefill_chunk = False, async_tokens_to_discard = 0, streaming_queue = None, has_prefill_stats = True\<rparr>"

subsection \<open>The chain of block hashes\<close>

text \<open>The keys of the block starting at a token, and the hash of the \<open>i\<close>-th full block, for
  requests without multimodal inputs.\<close>

definition text_keys :: "(bytes \<Rightarrow> bytes) \<Rightarrow> request \<Rightarrow> nat \<Rightarrow> nat \<Rightarrow> extra_key list option" where
  "text_keys sha256 r s e =
     (let ks = gen_lora_extra_hash_keys r
          @ (case cache_salt r of None \<Rightarrow> [] | Some c \<Rightarrow> if s = 0 \<and> c \<noteq> [] then [StrKey c] else [])
          @ gen_prompt_embeds_extra_hash_keys sha256 r s e
      in if ks = [] then None else Some ks)"

fun hash_at :: "nat \<Rightarrow> hash_fn \<Rightarrow> bytes \<Rightarrow> (bytes \<Rightarrow> bytes) \<Rightarrow> request \<Rightarrow> nat \<Rightarrow> bytes" where
  "hash_at bs hf nh sha r 0 =
     hash_block_tokens hf nh None (slice 0 bs (all_token_ids r)) (text_keys sha r 0 bs)"
| "hash_at bs hf nh sha r (Suc i) =
     hash_block_tokens hf nh (Some (hash_at bs hf nh sha r i))
       (slice (Suc i * bs) (Suc (Suc i) * bs) (all_token_ids r))
       (text_keys sha r (Suc i * bs) (Suc (Suc i) * bs))"

definition hashes_ok :: "nat \<Rightarrow> hash_fn \<Rightarrow> bytes \<Rightarrow> (bytes \<Rightarrow> bytes) \<Rightarrow> request \<Rightarrow> bool" where
  "hashes_ok bs hf nh sha r \<longleftrightarrow>
     block_hashes r = map (hash_at bs hf nh sha r) [0..<num_tokens r div bs]"

lemma generate_text:
  assumes "mm_features r = []"
  shows "generate_block_hash_extra_keys sha r s e i = Inr (text_keys sha r s e, i)"
  using assms
  by (simp add: generate_block_hash_extra_keys_def gen_mm_extra_hash_keys_def text_keys_def Let_def)

lemma hash_at_prev:
  "hash_at bs hf nh sha r k =
     hash_block_tokens hf nh (if k = 0 then None else Some (hash_at bs hf nh sha r (k - 1)))
       (slice (k * bs) (k * bs + bs) (all_token_ids r)) (text_keys sha r (k * bs) (k * bs + bs))"
  by (cases k) (simp_all add: algebra_simps)

lemma hash_loop_text:
  assumes mm: "mm_features r = []" and bs: "0 < bs"
  shows "k \<le> n \<Longrightarrow> n = num_tokens r div bs \<Longrightarrow>
    hash_loop bs hf nh sha r (k * bs) i (if k = 0 then None else Some (hash_at bs hf nh sha r (k - 1))) acc
      = Some (Inr (acc @ map (hash_at bs hf nh sha r) [k..<n]))"
proof (induction "n - k" arbitrary: k acc)
  case 0
  then have k: "k = n" by simp
  have "num_tokens r < bs + num_tokens r div bs * bs"
    using bs by (metis add.commute add_less_cancel_left div_mult_mod_eq mod_less_divisor)
  then show ?case
    using 0 k by (subst hash_loop.simps) (simp add: add.commute)
next
  case (Suc d)
  then have k: "k < n" by simp
  have "Suc k * bs \<le> n * bs"
    using k by (intro mult_le_mono1) simp
  also have "\<dots> \<le> num_tokens r"
    using Suc.prems(2) by simp
  finally have le: "\<not> num_tokens r < k * bs + bs" by simp
  have IH: "hash_loop bs hf nh sha r (Suc k * bs) i (Some (hash_at bs hf nh sha r k))
      (acc @ [hash_at bs hf nh sha r k])
      = Some (Inr ((acc @ [hash_at bs hf nh sha r k]) @ map (hash_at bs hf nh sha r) [Suc k..<n]))"
    using Suc.hyps(1) [of "Suc k" "acc @ [hash_at bs hf nh sha r k]"] Suc.hyps(2) Suc.prems k by simp
  have up: "[k..<n] = k # [Suc k..<n]"
    using k by (rule upt_conv_Cons)
  define P where "P = (if k = 0 then None else Some (hash_at bs hf nh sha r (k - 1)))"
  have hk: "hash_block_tokens hf nh P (slice (k * bs) (k * bs + bs) (all_token_ids r))
      (text_keys sha r (k * bs) (k * bs + bs)) = hash_at bs hf nh sha r k"
    unfolding P_def by (rule hash_at_prev [symmetric])
  have "hash_loop bs hf nh sha r (k * bs) i P acc = hash_loop bs hf nh sha r (k * bs + bs) i
      (Some (hash_at bs hf nh sha r k)) (acc @ [hash_at bs hf nh sha r k])"
    using le by (subst hash_loop.simps) (simp add: generate_text [OF mm] hk Let_def)
  then show ?case
    using IH unfolding P_def [symmetric] by (simp add: up add.commute)
qed

lemma hasher_text:
  assumes "mm_features r = []" "0 < bs" "block_hashes r = map (hash_at bs hf nh sha r) [0..<k]"
    "k \<le> num_tokens r div bs"
  shows "get_request_block_hasher bs hf nh sha r
    = Some (Inr (map (hash_at bs hf nh sha r) [k..<num_tokens r div bs]))"
proof (cases "k * bs + bs > num_tokens r")
  case True
  then have "num_tokens r div bs < Suc k"
    by (simp add: less_mult_imp_div_less add.commute)
  then have "k = num_tokens r div bs"
    using assms(4) by simp
  then show ?thesis
    using True assms(3) by (simp add: get_request_block_hasher_def)
next
  case False
  have len: "length (block_hashes r) = k"
    using assms(3) by simp
  have prev: "(if block_hashes r = [] then None else Some (last (block_hashes r)))
      = (if k = 0 then None else Some (hash_at bs hf nh sha r (k - 1)))"
    using assms(3) by (cases k) simp_all
  show ?thesis
    unfolding get_request_block_hasher_def Let_def len prev
    using False hash_loop_text [OF assms(1,2,4) refl, of hf nh sha _ "[]"]
    by (simp only: if_False append_Nil)
qed

lemma update_block_hashes_text:
  assumes "mm_features r = []" "0 < bs" "block_hashes r = map (hash_at bs hf nh sha r) [0..<k]"
    "k \<le> num_tokens r div bs"
  shows "update_block_hashes (Some (get_request_block_hasher bs hf nh sha)) r
    = Some (Inr (r\<lparr>block_hashes := map (hash_at bs hf nh sha r) [0..<num_tokens r div bs]\<rparr>))"
proof -
  have "map (hash_at bs hf nh sha r) [0..<k] @ map (hash_at bs hf nh sha r) [k..<num_tokens r div bs]
    = map (hash_at bs hf nh sha r) [0..<num_tokens r div bs]"
    using assms(4) by (metis le_add_diff_inverse map_append upt_add_eq_append zero_le)
  then show ?thesis
    using hasher_text [OF assms] assms(3) by (simp add: update_block_hashes_def)
qed

lemma slice_prefix:
  "j \<le> length xs \<Longrightarrow> take j xs = take j ys \<Longrightarrow> slice i j xs = slice i j ys"
  by (metis slice_def drop_take)

lemma text_keys_cong:
  "cache_salt r = cache_salt r' \<Longrightarrow> lora_name r = lora_name r' \<Longrightarrow> prompt_embeds r = prompt_embeds r' \<Longrightarrow>
   text_keys sha r s e = text_keys sha r' s e"
  by (simp add: text_keys_def gen_lora_extra_hash_keys_def gen_prompt_embeds_extra_hash_keys_def)

lemma hash_at_cong:
  assumes "cache_salt r = cache_salt r'" "lora_name r = lora_name r'" "prompt_embeds r = prompt_embeds r'"
  shows "Suc i * bs \<le> length (all_token_ids r) \<Longrightarrow>
    take (Suc i * bs) (all_token_ids r) = take (Suc i * bs) (all_token_ids r') \<Longrightarrow>
    hash_at bs hf nh sha r i = hash_at bs hf nh sha r' i"
proof (induction i)
  case 0
  then show ?case
    using slice_prefix [of bs "all_token_ids r" "all_token_ids r'" 0] text_keys_cong [OF assms] by simp
next
  case (Suc i)
  have t: "take (Suc i * bs) (all_token_ids r) = take (Suc i * bs) (all_token_ids r')"
    using arg_cong [OF Suc.prems(2), of "take (Suc i * bs)"] by (simp add: min_def)
  have l: "Suc i * bs \<le> length (all_token_ids r)"
    using Suc.prems(1) by simp
  show ?case
    using Suc.IH [OF l t] slice_prefix [OF Suc.prems] text_keys_cong [OF assms] by simp
qed



definition block_content :: "nat \<Rightarrow> (bytes \<Rightarrow> bytes) \<Rightarrow> request \<Rightarrow> nat \<Rightarrow> nat list \<times> extra_key list option" where
  "block_content bs sha r k =
     (slice (k * bs) (k * bs + bs) (all_token_ids r), text_keys sha r (k * bs) (k * bs + bs))"

lemma hash_at_content:
  assumes "\<And>x. hf x \<noteq> []"
  shows "hash_at bs hf nh sha r k
    = hf (if k = 0 then nh else hash_at bs hf nh sha r (k - 1), block_content bs sha r k)"
proof -
  have "hash_at bs hf nh sha r j \<noteq> []" for j
    by (subst hash_at_prev) (simp add: hash_block_tokens_def assms)
  then show ?thesis
    by (subst hash_at_prev) (simp add: hash_block_tokens_def block_content_def)
qed

lemma hash_at_inject:
  assumes inj: "inj hf" and nh: "\<And>x. hf x \<noteq> nh" and ne: "\<And>x. hf x \<noteq> []"
  shows "hash_at bs hf nh sha r i = hash_at bs hf nh sha r' j \<Longrightarrow>
    map (block_content bs sha r) [0..<Suc i] = map (block_content bs sha r') [0..<Suc j]"
proof (induction i arbitrary: j)
  case 0
  have "hf (nh, block_content bs sha r 0)
      = hf (if j = 0 then nh else hash_at bs hf nh sha r' (j - 1), block_content bs sha r' j)"
    using 0 hash_at_content [of hf bs nh sha r 0, OF ne] hash_at_content [of hf bs nh sha r' j, OF ne] by simp
  then have e: "nh = (if j = 0 then nh else hash_at bs hf nh sha r' (j - 1))"
    "block_content bs sha r 0 = block_content bs sha r' j"
    using injD [OF inj] by blast+
  have "j = 0"
  proof (rule ccontr)
    assume "j \<noteq> 0"
    then have "hash_at bs hf nh sha r' (j - 1) = nh" using e(1) by simp
    then show False using hash_at_content [of hf bs nh sha r' "j - 1", OF ne] nh by metis
  qed
  then show ?case using e(2) by simp
next
  case (Suc i)
  have "hf (hash_at bs hf nh sha r i, block_content bs sha r (Suc i))
      = hf (if j = 0 then nh else hash_at bs hf nh sha r' (j - 1), block_content bs sha r' j)"
    using Suc.prems hash_at_content [of hf bs nh sha r "Suc i", OF ne] hash_at_content [of hf bs nh sha r' j, OF ne]
    by (simp del: hash_at.simps)
  then have e: "hash_at bs hf nh sha r i = (if j = 0 then nh else hash_at bs hf nh sha r' (j - 1))"
    "block_content bs sha r (Suc i) = block_content bs sha r' j"
    using injD [OF inj] by blast+
  have "j \<noteq> 0"
  proof
    assume "j = 0"
    then have "hash_at bs hf nh sha r i = nh" using e(1) by simp
    then show False using hash_at_content [of hf bs nh sha r i, OF ne] nh by metis
  qed
  then obtain j' where j: "j = Suc j'" by (cases j) auto
  have "map (block_content bs sha r) [0..<Suc i] = map (block_content bs sha r') [0..<Suc j']"
    using Suc.IH [of j'] e(1) j by simp
  then show ?case using e(2) j by simp
qed

instance extra_key :: countable
  by countable_datatype





lemma session_text:
  assumes "mm_features s = []" "u_mm_features u = None \<or> u_mm_features u = Some []"
    and "prompt_token_ids s = Some p" "num_computed_tokens s \<le> num_tokens s"
    and "0 < bs" "hashes_ok bs hf nh sha s" "length (block_hashes s) * bs \<le> num_computed_tokens s"
  shows "\<exists>s' n'. update_request_as_session (Some (get_request_block_hasher bs hf nh sha)) s u n = Some (Inr (s', n')) \<and>
    hashes_ok bs hf nh sha s' \<and> status s' = WAITING \<and> output_token_ids s' = [] \<and>
    all_token_ids s' = take (num_computed_tokens s) (all_token_ids s)
      @ (case u_prompt_token_ids u of None \<Rightarrow> [] | Some t \<Rightarrow> t)"
proof -
  define new where "new = (case u_prompt_token_ids u of None \<Rightarrow> [] | Some t \<Rightarrow> t)"
  define c where "c = num_computed_tokens s"
  define s1 where "s1 = s\<lparr>output_token_ids := [], all_token_ids := take c (all_token_ids s) @ new,
    mm_features := [],
    prompt_token_ids := Some (p @ slice (num_prompt_tokens s) c (all_token_ids s) @ new)\<rparr>"
  define k where "k = num_tokens s div bs"
  have k: "k * bs \<le> c" "c \<le> length (all_token_ids s)"
    using assms(4,6,7) by (simp_all add: k_def c_def hashes_ok_def num_tokens_def)
  have same: "hash_at bs hf nh sha s i = hash_at bs hf nh sha s1 i" if "i < k" for i
  proof (rule hash_at_cong)
    have i: "Suc i * bs \<le> k * bs"
      using that by (intro mult_le_mono1) simp
    then show "Suc i * bs \<le> length (all_token_ids s)"
      using k by linarith
    show "take (Suc i * bs) (all_token_ids s) = take (Suc i * bs) (all_token_ids s1)"
      using i k by (simp add: s1_def min_def)
  qed (simp_all add: s1_def)
  have bh: "block_hashes s1 = map (hash_at bs hf nh sha s1) [0..<k]"
    using assms(6) same by (simp add: hashes_ok_def k_def s1_def)
  have "k = (k * bs) div bs" using assms(5) by simp
  also have "\<dots> \<le> num_tokens s1 div bs"
    by (rule div_le_mono) (use k in \<open>simp add: s1_def num_tokens_def\<close>)
  finally have le: "k \<le> num_tokens s1 div bs" .
  define s2 where "s2 = s1\<lparr>block_hashes := map (hash_at bs hf nh sha s1) [0..<num_tokens s1 div bs]\<rparr>"
  have up: "update_block_hashes (Some (get_request_block_hasher bs hf nh sha)) s1 = Some (Inr s2)"
    using update_block_hashes_text [OF _ assms(5) bh le] by (simp add: s2_def) (simp add: s1_def)
  define s3 where "s3 = s2\<lparr>num_prompt_tokens := length (p @ slice (num_prompt_tokens s) c (all_token_ids s) @ new),
    arrival_time := u_arrival_time u, req_sampling_params := u_sampling_params u, status := WAITING\<rparr>"
  have mm: "(case u_mm_features u of None \<Rightarrow> [] | Some fs \<Rightarrow> map f fs) = []" for f
    using assms(2) by auto
  have "s\<lparr>output_token_ids := [], all_token_ids := take c (all_token_ids s) @ new,
    mm_features := mm_features s,
    prompt_token_ids := Some (p @ slice (num_prompt_tokens s) c (all_token_ids s) @ new)\<rparr> = s1"
    using assms(1) by (simp add: s1_def)
  then have step: "\<exists>n'. update_request_as_session (Some (get_request_block_hasher bs hf nh sha)) s u n = Some (Inr (s3, n'))"
    using assms(3) up
    by (simp add: update_request_as_session_def mm Let_def c_def [symmetric] new_def [symmetric] s3_def)
  have "hash_at bs hf nh sha s1 i = hash_at bs hf nh sha s3 i" if "i < num_tokens s1 div bs" for i
  proof (rule hash_at_cong)
    have "Suc i * bs \<le> num_tokens s1 div bs * bs"
      using that by (intro mult_le_mono1) simp
    also have "\<dots> \<le> num_tokens s1" by simp
    finally show "Suc i * bs \<le> length (all_token_ids s1)"
      by (simp add: num_tokens_def)
  qed (simp_all add: s3_def s2_def)
  then have "hashes_ok bs hf nh sha s3"
    by (simp add: hashes_ok_def s3_def s2_def num_tokens_def)
  then show ?thesis
    using step by (auto simp: s3_def s2_def s1_def c_def new_def)
qed

text \<open>
  Continuing a streaming session keeps the block hashes right as long as no hashed block is
  truncated: the continued request has exactly the chain of hashes of its new token list, which
  is the computed tokens followed by the new input, and it waits again with no output.
\<close>

theorem session_update_keeps_hashes:
  assumes "mm_features s = []" "u_mm_features u = None" "prompt_token_ids s = Some p"
    and "num_computed_tokens s \<le> num_tokens s" "0 < bs" "hashes_ok bs hf NONE_HASH sha s"
    and "length (block_hashes s) * bs \<le> num_computed_tokens s"
  shows "\<exists>s' n'. update_request_as_session (Some (get_request_block_hasher bs hf NONE_HASH sha)) s u n
      = Some (Inr (s', n')) \<and>
    hashes_ok bs hf NONE_HASH sha s' \<and> status s' = WAITING \<and> output_token_ids s' = [] \<and>
    all_token_ids s' = take (num_computed_tokens s) (all_token_ids s)
      @ (case u_prompt_token_ids u of None \<Rightarrow> [] | Some t \<Rightarrow> t)"
  using session_text [OF assms(1) disjI1 [OF assms(2)] assms(3-7)] .

theorem session_update_keeps_hashes_witness:
  "\<exists>s' n'. update_request_as_session (Some (get_request_block_hasher 2 (\<lambda>(p, t, k). 7 # t) [0] id))
      ((plain_request ''r'' [1, 2])\<lparr>all_token_ids := [1, 2, 3], output_token_ids := [3],
        num_computed_tokens := 2, block_hashes := [[7, 1, 2]], resumable := True\<rparr>)
      \<lparr>u_mm_features = None, u_prompt_token_ids = Some [8, 9], u_max_tokens = 4, u_arrival_time = 1,
       u_sampling_params = None\<rparr> 0 = Some (Inr (s', n')) \<and>
    hashes_ok 2 (\<lambda>(p, t, k). 7 # t) [0] id s' \<and> status s' = WAITING \<and> output_token_ids s' = [] \<and>
    all_token_ids s' = [1, 2, 8, 9]"
  using session_update_keeps_hashes [where bs = 2 and hf = "\<lambda>(p, t, k). 7 # t" and NONE_HASH = "[0]"
      and sha = id and n = 0 and s = "(plain_request ''r'' [1, 2])\<lparr>all_token_ids := [1, 2, 3], output_token_ids := [3],
        num_computed_tokens := 2, block_hashes := [[7, 1, 2]], resumable := True\<rparr>"
      and u = "\<lparr>u_mm_features = None, u_prompt_token_ids = Some [8, 9], u_max_tokens = 4, u_arrival_time = 1,
       u_sampling_params = None\<rparr>" and p = "[1, 2]"]
  by (simp add: hashes_ok_def plain_request_def num_tokens_def hash_block_tokens_def slice_def)

text \<open>
  C29.  The truncation case breaks it.  Block size 2: a session whose prompt is one token samples
  one token, so its first block is full and hashed; the next input discards the sampled token,
  which was never computed, but keeps the hash.  The continued request holds the tokens
  \<open>[1, 9]\<close> with the hash of \<open>[1, 7]\<close>, for every digest function; the block computed for
  \<open>[1, 9]\<close> will be cached under the wrong hash.
\<close>

theorem session_update_stale_hash:
  "\<exists>s s' n.
     append_output_token_ids (Some (get_request_block_hasher 2 hf NONE_HASH sha)) [7]
       ((plain_request ''r'' [1])\<lparr>num_computed_tokens := 1, resumable := True\<rparr>) = Some (Inr s) \<and>
     hashes_ok 2 hf NONE_HASH sha s \<and>
     update_request_as_session (Some (get_request_block_hasher 2 hf NONE_HASH sha)) s
       \<lparr>u_mm_features = None, u_prompt_token_ids = Some [9], u_max_tokens = 16, u_arrival_time = 1,
        u_sampling_params = None\<rparr> 0 = Some (Inr (s', n)) \<and>
     all_token_ids s' = [1, 9] \<and> block_hashes s' = [hf (NONE_HASH, [1, 7], None)] \<and>
     hash_at 2 hf NONE_HASH sha s' 0 = hf (NONE_HASH, [1, 9], None)"
proof -
  define r where "r = (plain_request ''r'' [1])\<lparr>num_computed_tokens := 1, resumable := True\<rparr>"
  define s where "s = r\<lparr>output_token_ids := [7], all_token_ids := [1, 7],
    block_hashes := [hf (NONE_HASH, [1, 7], None)]\<rparr>"
  have tk: "text_keys sha r' a b = None" if "lora_name r' = None" "cache_salt r' = None" "prompt_embeds r' = None" for r' a b
    using that by (simp add: text_keys_def gen_lora_extra_hash_keys_def gen_prompt_embeds_extra_hash_keys_def)
  have a: "append_output_token_ids (Some (get_request_block_hasher 2 hf NONE_HASH sha)) [7] r = Some (Inr s)"
    unfolding append_output_token_ids_def
    by (subst update_block_hashes_text [where k = 0])
      (simp_all add: r_def s_def plain_request_def num_tokens_def hash_block_tokens_def slice_def tk)
  have ok: "hashes_ok 2 hf NONE_HASH sha s"
    by (simp add: hashes_ok_def r_def s_def plain_request_def num_tokens_def hash_block_tokens_def slice_def tk)
  define s' where "s' = s\<lparr>output_token_ids := [], all_token_ids := [1, 9], prompt_token_ids := Some [1, 9],
    num_prompt_tokens := 2, arrival_time := 1, req_sampling_params := None, status := WAITING\<rparr>"
  have u: "update_request_as_session (Some (get_request_block_hasher 2 hf NONE_HASH sha)) s
       \<lparr>u_mm_features = None, u_prompt_token_ids = Some [9], u_max_tokens = 16, u_arrival_time = 1,
        u_sampling_params = None\<rparr> 0 = Some (Inr (s', 0))"
    by (simp add: update_request_as_session_def s_def r_def s'_def plain_request_def slice_def
        update_block_hashes_def get_request_block_hasher_def num_tokens_def Let_def)
  have "hash_at 2 hf NONE_HASH sha s' 0 = hf (NONE_HASH, [1, 9], None)"
    by (simp add: s'_def s_def r_def plain_request_def hash_block_tokens_def slice_def tk)
  then show ?thesis
    using a ok u unfolding r_def by (intro exI [of _ s] exI [of _ s'] exI [of _ 0]) (simp add: s'_def s_def)
qed

text \<open>
  Incremental hashing looks only at the last multimodal input once a block has been hashed.
  If the unhashed part of a streaming session contains two inputs, the first of them does not
  enter the hashes: whatever its identifier, the new hashes are the same.
\<close>

theorem streaming_mm_input_ignored:
  "get_request_block_hasher 2 hf NONE_HASH sha
     ((plain_request ''r'' [1, 2, 0, 0, 0, 0])\<lparr>block_hashes := [h],
        mm_features := [\<lparr>mm_identifier = x, mm_offset = 2, mm_length = 2, is_embed = None\<rparr>,
                        \<lparr>mm_identifier = y, mm_offset = 4, mm_length = 2, is_embed = None\<rparr>]\<rparr>)
   = get_request_block_hasher 2 hf NONE_HASH sha
     ((plain_request ''r'' [1, 2, 0, 0, 0, 0])\<lparr>block_hashes := [h],
        mm_features := [\<lparr>mm_identifier = x', mm_offset = 2, mm_length = 2, is_embed = None\<rparr>,
                        \<lparr>mm_identifier = y, mm_offset = 4, mm_length = 2, is_embed = None\<rparr>]\<rparr>)"
  by (simp add: get_request_block_hasher_def hash_loop.simps num_tokens_def plain_request_def
      generate_block_hash_extra_keys_def gen_mm_extra_hash_keys_def mm_keys_loop.simps
      gen_lora_extra_hash_keys_def gen_prompt_embeds_extra_hash_keys_def Let_def)

text \<open>
  Statuses: a request is finished exactly in the six finished statuses, which are the ones
  after \<open>PREEMPTED\<close>, every finished status has a finish reason, and the only other status with
  one is waiting for streaming input.
\<close>

theorem finished_statuses:
  "is_finished r = (status r \<in> {FINISHED_STOPPED, FINISHED_LENGTH_CAPPED, FINISHED_ABORTED,
      FINISHED_IGNORED, FINISHED_ERROR, FINISHED_REPETITION}) \<and>
   (get_finished_reason r = None) = (\<not> (is_finished r \<or> status r = WAITING_FOR_STREAMING_REQ))"
  by (cases "status r")
     (simp_all add: is_finished_def is_finished_status_def get_finished_reason_def
        get_finished_reason_status_def FINISHED_REASON_MAP_def less_request_status_def)

end
