(* ===== verification/VL_BlockPool.thy ===== *)
theory VL_BlockPool
  imports VL_Queue VL_Request Complex_Main "HOL-Library.Multiset"
begin

text \<open>
  The block pool of the KV cache (\<open>v1/core/block_pool.py\<close>) with the hash-key packing of
  \<open>v1/core/kv_cache_utils.py\<close>.  A block object is its index in the pool; its links in the
  free queue are the queue's state.  The hash map stores one block or a dictionary of blocks per
  key, and a dictionary is the list of its keys.  The metrics collector, which only observes,
  is absent (\<open>None\<close>, the default).  Group ids are below \<open>2 ^ 32\<close>, where packing them does not
  overflow.
\<close>

subsection \<open>Hash keys\<close>

definition make_block_hash_with_group_id :: "bytes \<Rightarrow> nat \<Rightarrow> bytes" where
  "make_block_hash_with_group_id h g =
     h @ [g div 2 ^ 24 mod 256, g div 2 ^ 16 mod 256, g div 2 ^ 8 mod 256, g mod 256]"

definition get_block_hash :: "bytes \<Rightarrow> bytes" where
  "get_block_hash key = take (length key - 4) key"

definition from_bytes_big :: "bytes \<Rightarrow> nat" where
  "from_bytes_big bs = foldl (\<lambda>n b. 256 * n + b) 0 bs"

definition get_group_id :: "bytes \<Rightarrow> nat" where
  "get_group_id key = from_bytes_big (drop (length key - 4) key)"

datatype external_hash = HashBytes bytes | HashInt nat

definition maybe_convert_block_hash :: "bool \<Rightarrow> bytes \<Rightarrow> external_hash" where
  "maybe_convert_block_hash use_int_hashes h =
     (if \<not> use_int_hashes then HashBytes h else HashInt (from_bytes_big h mod 2 ^ 64))"

text \<open>\<open>BlockHashListWithBlockSize\<close>: one element by index, and the list that slicing and
  iteration see.\<close>

definition scaled_hash_at :: "bytes list \<Rightarrow> nat \<Rightarrow> nat \<Rightarrow> bytes" where
  "scaled_hash_at hs scale i = concat (slice (i * scale) (i * scale + scale) hs)"

definition block_hashes_with_block_size :: "bytes list \<Rightarrow> nat \<Rightarrow> nat \<Rightarrow> bytes list res" where
  "block_hashes_with_block_size hs hash_block_size target_block_size =
     (if target_block_size mod hash_block_size = 0
      then let scale = target_block_size div hash_block_size
           in Inr (map (scaled_hash_at hs scale) [0..<length hs div scale])
      else Inl AssertionError)"

subsection \<open>The map from hash to blocks\<close>

datatype cache_entry = OneBlock nat | ManyBlocks "nat list"

type_synonym hash_map = "bytes \<Rightarrow> cache_entry option"

definition get_one_block :: "hash_map \<Rightarrow> bytes \<Rightarrow> nat option" where
  "get_one_block m key =
     (case m key of
        None \<Rightarrow> None
      | Some (OneBlock b) \<Rightarrow> Some b
      | Some (ManyBlocks bs) \<Rightarrow> (case bs of [] \<Rightarrow> None | b # _ \<Rightarrow> Some b))"

definition insert_block :: "hash_map \<Rightarrow> bytes \<Rightarrow> nat \<Rightarrow> hash_map" where
  "insert_block m key b =
     (case m key of
        None \<Rightarrow> m(key \<mapsto> OneBlock b)
      | Some (OneBlock a) \<Rightarrow> m(key \<mapsto> ManyBlocks (if a = b then [a] else [a, b]))
      | Some (ManyBlocks bs) \<Rightarrow> m(key \<mapsto> ManyBlocks (if b \<in> set bs then bs else bs @ [b])))"

definition pop_block :: "hash_map \<Rightarrow> bytes \<Rightarrow> nat \<Rightarrow> nat option \<times> hash_map" where
  "pop_block m key b =
     (case m key of
        None \<Rightarrow> (None, m)
      | Some (OneBlock a) \<Rightarrow> if a = b then (Some a, m(key := None)) else (None, m)
      | Some (ManyBlocks bs) \<Rightarrow>
          let bs' = removeAll b bs
          in (if b \<in> set bs then Some b else None,
              if bs' \<noteq> [] then m(key \<mapsto> ManyBlocks bs') else m(key := None)))"

subsection \<open>State\<close>

record kv_block =
  ref_cnt :: int
  block_hash :: "bytes option"
  is_null :: bool

datatype kv_event =
    BlockStored "external_hash list" "external_hash option" "nat list" nat "nat option" "string option"
      "extra_key list option list option" nat
  | BlockRemoved external_hash nat
  | AllBlocksCleared

record block_pool =
  num_gpu_blocks :: nat
  enable_caching :: bool
  hash_block_size :: nat
  blocks :: "kv_block list"
  free_block_queue :: free_queue
  cached_block_hash_to_block :: hash_map
  null_block :: nat
  enable_kv_cache_events :: bool
  use_int_block_hashes :: bool
  kv_event_queue :: "kv_event list"

definition upd_block :: "nat \<Rightarrow> (kv_block \<Rightarrow> kv_block) \<Rightarrow> block_pool \<Rightarrow> block_pool" where
  "upd_block b f p = p\<lparr>blocks := (blocks p)[b := f (blocks p ! b)]\<rparr>"

abbreviation rc :: "block_pool \<Rightarrow> nat \<Rightarrow> int" where
  "rc p b \<equiv> ref_cnt (blocks p ! b)"

abbreviation bhash :: "block_pool \<Rightarrow> nat \<Rightarrow> bytes option" where
  "bhash p b \<equiv> block_hash (blocks p ! b)"

subsection \<open>Operations\<close>

definition block_pool_init :: "nat \<Rightarrow> bool \<Rightarrow> nat \<Rightarrow> bool \<Rightarrow> bool \<Rightarrow> block_pool res" where
  "block_pool_init n caching hbs events ints =
     (if n = 0 then Inl AssertionError
      else rbind (popleft (fq_init [0..<n])) (\<lambda>(nd, q).
        let nb = block_index nd in
        Inr (upd_block nb (\<lambda>k. k\<lparr>is_null := True\<rparr>)
          \<lparr>num_gpu_blocks = n, enable_caching = caching, hash_block_size = hbs,
           blocks = replicate n \<lparr>ref_cnt = 0, block_hash = None, is_null = False\<rparr>,
           free_block_queue = q, cached_block_hash_to_block = (\<lambda>_. None), null_block = nb,
           enable_kv_cache_events = events, use_int_block_hashes = ints, kv_event_queue = []\<rparr>)))"

definition get_num_free_blocks :: "block_pool \<Rightarrow> int" where
  "get_num_free_blocks p = num_free_blocks (free_block_queue p)"

fun get_cached_block :: "block_pool \<Rightarrow> bytes \<Rightarrow> nat list \<Rightarrow> nat list option" where
  "get_cached_block p h [] = Some []"
| "get_cached_block p h (g # gs) =
     (case get_one_block (cached_block_hash_to_block p) (make_block_hash_with_group_id h g) of
        None \<Rightarrow> None
      | Some b \<Rightarrow> map_option ((#) b) (get_cached_block p h gs))"

definition maybe_evict_cached_block :: "nat \<Rightarrow> block_pool \<Rightarrow> bool \<times> block_pool" where
  "maybe_evict_cached_block b p =
     (case bhash p b of
        None \<Rightarrow> (False, p)
      | Some h \<Rightarrow>
          (case pop_block (cached_block_hash_to_block p) h b of
             (None, m) \<Rightarrow> (False, p\<lparr>cached_block_hash_to_block := m\<rparr>)
           | (Some _, m) \<Rightarrow>
               let p1 = upd_block b (\<lambda>k. k\<lparr>block_hash := None\<rparr>) (p\<lparr>cached_block_hash_to_block := m\<rparr>)
               in (True,
                   if enable_kv_cache_events p1
                   then p1\<lparr>kv_event_queue := kv_event_queue p1 @
                          [BlockRemoved (maybe_convert_block_hash (use_int_block_hashes p1) (get_block_hash h))
                             (get_group_id h)]\<rparr>
                   else p1)))"

fun take_loop :: "nat list \<Rightarrow> block_pool \<Rightarrow> block_pool res" where
  "take_loop [] p = Inr p"
| "take_loop (b # bs) p =
     (let p1 = (if enable_caching p then snd (maybe_evict_cached_block b p) else p)
      in if rc p1 b \<noteq> 0 then Inl AssertionError
         else take_loop bs (upd_block b (\<lambda>k. k\<lparr>ref_cnt := ref_cnt k + 1\<rparr>) p1))"

definition get_new_blocks :: "nat \<Rightarrow> block_pool \<Rightarrow> (nat list \<times> block_pool) res" where
  "get_new_blocks num_blocks p =
     (if int num_blocks > get_num_free_blocks p then Inl ValueError
      else rbind (popleft_n num_blocks (free_block_queue p)) (\<lambda>(nodes, q).
        let bs = map block_index nodes
        in rbind (take_loop bs (p\<lparr>free_block_queue := q\<rparr>)) (\<lambda>p'. Inr (bs, p'))))"

fun touch :: "nat list \<Rightarrow> block_pool \<Rightarrow> block_pool res" where
  "touch [] p = Inr p"
| "touch (b # bs) p =
     rbind (if rc p b = 0 \<and> \<not> is_null (blocks p ! b)
            then map_sum id (\<lambda>q. p\<lparr>free_block_queue := q\<rparr>) (remove_free (Blk b) (free_block_queue p))
            else Inr p)
       (\<lambda>p1. touch bs (upd_block b (\<lambda>k. k\<lparr>ref_cnt := ref_cnt k + 1\<rparr>) p1))"

fun decr_loop :: "nat list \<Rightarrow> block_pool \<Rightarrow> block_pool" where
  "decr_loop [] p = p"
| "decr_loop (b # bs) p = decr_loop bs (upd_block b (\<lambda>k. k\<lparr>ref_cnt := ref_cnt k - 1\<rparr>) p)"

definition free_blocks :: "nat list \<Rightarrow> block_pool \<Rightarrow> block_pool res" where
  "free_blocks ordered_blocks p =
     (let p1 = decr_loop ordered_blocks p
      in map_sum id (\<lambda>q. p1\<lparr>free_block_queue := q\<rparr>)
           (append_n (map Blk (filter (\<lambda>b. rc p1 b = 0 \<and> \<not> is_null (blocks p1 ! b)) ordered_blocks))
             (free_block_queue p1)))"

fun evict_blocks :: "nat list \<Rightarrow> block_pool \<Rightarrow> block_pool res" where
  "evict_blocks [] p = Inr p"
| "evict_blocks (b # bs) p =
     (if b < length (blocks p) then evict_blocks bs (snd (maybe_evict_cached_block b p))
      else Inl AssertionError)"

definition reset_prefix_cache :: "block_pool \<Rightarrow> bool \<times> block_pool" where
  "reset_prefix_cache p =
     (let num_used_blocks = int (num_gpu_blocks p) - get_num_free_blocks p in
      if num_used_blocks \<noteq> 1 then (False, p)
      else let p1 = p\<lparr>cached_block_hash_to_block := (\<lambda>_. None),
                     blocks := map (\<lambda>k. k\<lparr>block_hash := None\<rparr>) (blocks p)\<rparr>
           in (True, if enable_kv_cache_events p1
                     then p1\<lparr>kv_event_queue := kv_event_queue p1 @ [AllBlocksCleared]\<rparr> else p1))"

definition get_usage :: "block_pool \<Rightarrow> real" where
  "get_usage p =
     (let total_gpu_blocks = real (num_gpu_blocks p) - 1 in
      if total_gpu_blocks = 0 then 0 else 1 - real_of_int (get_num_free_blocks p) / total_gpu_blocks)"

definition take_events :: "block_pool \<Rightarrow> kv_event list \<times> block_pool" where
  "take_events p =
     (if \<not> enable_kv_cache_events p then ([], p) else (kv_event_queue p, p\<lparr>kv_event_queue := []\<rparr>))"

subsection \<open>Caching full blocks\<close>

fun cache_loop :: "nat list \<Rightarrow> nat \<Rightarrow> bool list option \<Rightarrow> bytes list \<Rightarrow> nat \<Rightarrow> external_hash list \<Rightarrow>
    block_pool \<Rightarrow> (external_hash list \<times> block_pool) res" where
  "cache_loop [] i bmask hashes gid new_hashes p = Inr (new_hashes, p)"
| "cache_loop (b # bs) i bmask hashes gid new_hashes p =
     (if is_null (blocks p ! b) \<or> (case bmask of None \<Rightarrow> False | Some m \<Rightarrow> \<not> m ! i)
      then cache_loop bs (i + 1) bmask hashes gid new_hashes p
      else if bhash p b \<noteq> None then Inl AssertionError
      else if i \<ge> length hashes then Inl IndexError
      else let h = hashes ! i;
               key = make_block_hash_with_group_id h gid;
               p1 = upd_block b (\<lambda>k. k\<lparr>block_hash := Some key\<rparr>) p;
               p2 = p1\<lparr>cached_block_hash_to_block := insert_block (cached_block_hash_to_block p1) key b\<rparr>
           in cache_loop bs (i + 1) bmask hashes gid
                (new_hashes @ [maybe_convert_block_hash (use_int_block_hashes p) h]) p2)"

fun event_keys_loop :: "(bytes \<Rightarrow> bytes) \<Rightarrow> request \<Rightarrow> nat list \<Rightarrow> nat \<Rightarrow> bool list option \<Rightarrow> nat \<Rightarrow>
    block_pool \<Rightarrow> nat list \<Rightarrow> int \<Rightarrow> extra_key list option list \<Rightarrow> extra_key list option list res" where
  "event_keys_loop sha256 r bs num_cached bmask block_size p [] curr_mm_idx acc = Inr acc"
| "event_keys_loop sha256 r bs num_cached bmask block_size p (i # is) curr_mm_idx acc =
     (if i \<ge> length bs then Inl IndexError
      else if is_null (blocks p ! (bs ! i)) \<or> (case bmask of None \<Rightarrow> False | Some m \<Rightarrow> \<not> m ! (i - num_cached))
      then event_keys_loop sha256 r bs num_cached bmask block_size p is curr_mm_idx acc
      else rbind (generate_block_hash_extra_keys sha256 r (i * block_size) (i * block_size + block_size) curr_mm_idx)
        (\<lambda>(keys, mm). event_keys_loop sha256 r bs num_cached bmask block_size p is mm (acc @ [keys])))"

definition cache_full_blocks :: "(bytes \<Rightarrow> bytes) \<Rightarrow> request \<Rightarrow> nat list \<Rightarrow> nat \<Rightarrow> nat \<Rightarrow> nat \<Rightarrow> nat \<Rightarrow>
    bool list option \<Rightarrow> block_pool \<Rightarrow> block_pool res" where
  "cache_full_blocks sha256 r bs num_cached_blocks num_full_blocks block_size gid bmask p =
     (if num_cached_blocks \<ge> num_full_blocks then Inr p
      else let new_full_blocks = slice num_cached_blocks num_full_blocks bs in
      if length (block_hashes r) < num_full_blocks then Inl AssertionError
      else if (case bmask of None \<Rightarrow> False | Some m \<Rightarrow> length m \<noteq> length new_full_blocks) then Inl AssertionError
      else rbind (if block_size = hash_block_size p then Inr (block_hashes r)
                  else block_hashes_with_block_size (block_hashes r) (hash_block_size p) block_size)
        (\<lambda>hs. rbind (cache_loop new_full_blocks 0 bmask (drop num_cached_blocks hs) gid [] p)
        (\<lambda>(new_hashes, p1).
           if \<not> enable_kv_cache_events p1 then Inr p1
           else rbind (event_keys_loop sha256 r bs num_cached_blocks bmask block_size p1
                         [num_cached_blocks..<num_full_blocks] 0 [])
             (\<lambda>keys. Inr (p1\<lparr>kv_event_queue := kv_event_queue p1 @
                [BlockStored new_hashes
                   (if num_cached_blocks = 0 then None
                    else Some (maybe_convert_block_hash (use_int_block_hashes p1)
                      (if block_size = hash_block_size p1 then block_hashes r ! (num_cached_blocks - 1)
                       else scaled_hash_at (block_hashes r) (block_size div hash_block_size p1)
                              (num_cached_blocks - 1))))
                   (slice (num_cached_blocks * block_size) (num_full_blocks * block_size) (all_token_ids r))
                   block_size (lora_id r) (lora_name r) (if keys = [] then None else Some keys) gid]\<rparr>)))))"

subsection \<open>Hash keys\<close>

lemma get_block_hash_make [simp]: "get_block_hash (make_block_hash_with_group_id h g) = h"
  by (simp add: get_block_hash_def make_block_hash_with_group_id_def)

lemma get_group_id_make [simp]:
  assumes "g < 2 ^ 32"
  shows "get_group_id (make_block_hash_with_group_id h g) = g"
proof -
  have s: "g div 2 ^ 24 = g div 2 ^ 16 div 256" "g div 2 ^ 16 = g div 2 ^ 8 div 256"
    by (simp_all flip: div_mult2_eq)
  have "g div 2 ^ 24 < 256"
    using assms by (simp add: less_mult_imp_div_less)
  then have "256 * (256 * (256 * (g div 2 ^ 24 mod 256) + g div 2 ^ 16 mod 256) + g div 2 ^ 8 mod 256)
      + g mod 256 = g"
    unfolding s(1) by (simp only: mod_less mult_div_mod_eq s(2)) simp
  then show ?thesis
    using \<open>g div 2 ^ 24 < 256\<close>
    by (simp add: get_group_id_def make_block_hash_with_group_id_def from_bytes_big_def)
qed

lemma make_key_inject:
  assumes "g < 2 ^ 32" "g' < 2 ^ 32"
  shows "make_block_hash_with_group_id h g = make_block_hash_with_group_id h' g' \<longleftrightarrow> h = h' \<and> g = g'"
  by (metis assms get_block_hash_make get_group_id_make)

subsection \<open>The hash map as lists of blocks\<close>

definition entry_list :: "cache_entry option \<Rightarrow> nat list" where
  "entry_list e = (case e of None \<Rightarrow> [] | Some (OneBlock b) \<Rightarrow> [b] | Some (ManyBlocks bs) \<Rightarrow> bs)"

definition entry_ok :: "cache_entry option \<Rightarrow> bool" where
  "entry_ok e \<longleftrightarrow> (case e of Some (ManyBlocks bs) \<Rightarrow> bs \<noteq> [] \<and> distinct bs | _ \<Rightarrow> True)"

lemma entry_simps [simp]:
  "entry_list None = []" "entry_list (Some (OneBlock b)) = [b]" "entry_list (Some (ManyBlocks bs)) = bs"
  "entry_ok None" "entry_ok (Some (OneBlock b))" "entry_ok (Some (ManyBlocks bs)) \<longleftrightarrow> bs \<noteq> [] \<and> distinct bs"
  by (simp_all add: entry_list_def entry_ok_def)

lemma entry_distinct: "entry_ok e \<Longrightarrow> distinct (entry_list e)"
  by (cases e rule: option.exhaust; simp; rename_tac x; case_tac x; simp)

lemma get_one_block_list: "get_one_block m key = (case entry_list (m key) of [] \<Rightarrow> None | b # _ \<Rightarrow> Some b)"
  by (simp add: get_one_block_def split: option.splits cache_entry.splits list.splits)

lemma insert_block_list:
  assumes "b \<notin> set (entry_list (m key))" "entry_ok (m key)"
  shows "entry_list (insert_block m key b k) = (if k = key then entry_list (m key) @ [b] else entry_list (m k))"
    "entry_ok (m k) \<Longrightarrow> entry_ok (insert_block m key b k)"
  using assms by (auto simp: insert_block_def split: option.splits cache_entry.splits)

lemma removeAll_distinct_ne: "distinct bs \<Longrightarrow> removeAll b bs = [] \<longleftrightarrow> set bs \<subseteq> {b}"
  by (auto simp flip: set_empty)

lemma pop_block_list:
  assumes "entry_ok (m key)"
  shows "fst (pop_block m key b) = (if b \<in> set (entry_list (m key)) then Some b else None)"
    "entry_list (snd (pop_block m key b) k)
      = (if k = key then removeAll b (entry_list (m key)) else entry_list (m k))"
    "entry_ok (m k) \<Longrightarrow> entry_ok (snd (pop_block m key b) k)"
  using assms
  by (auto simp: pop_block_def Let_def distinct_removeAll split: option.splits cache_entry.splits)

subsection \<open>Invariant\<close>

definition pool_static :: "block_pool \<Rightarrow> bool" where
  "pool_static p \<longleftrightarrow> length (blocks p) = num_gpu_blocks p \<and> null_block p < num_gpu_blocks p \<and>
     (\<forall>b<num_gpu_blocks p. is_null (blocks p ! b) \<longleftrightarrow> b = null_block p)"

definition pool_free :: "block_pool \<Rightarrow> nat list \<Rightarrow> bool" where
  "pool_free p xs \<longleftrightarrow> fq_rep (free_block_queue p) xs \<and>
     set xs = {b. b < num_gpu_blocks p \<and> b \<noteq> null_block p \<and> rc p b = 0}"

definition pool_refs :: "block_pool \<Rightarrow> nat multiset \<Rightarrow> bool" where
  "pool_refs p refs \<longleftrightarrow> (\<forall>b<num_gpu_blocks p. b \<noteq> null_block p \<longrightarrow> rc p b = int (count refs b))"

definition pool_cache :: "block_pool \<Rightarrow> bool" where
  "pool_cache p \<longleftrightarrow>
     (\<forall>k. entry_ok (cached_block_hash_to_block p k) \<and>
          set (entry_list (cached_block_hash_to_block p k))
            = {b. b < num_gpu_blocks p \<and> b \<noteq> null_block p \<and> bhash p b = Some k}) \<and>
     bhash p (null_block p) = None"

definition pool_inv :: "block_pool \<Rightarrow> nat list \<Rightarrow> nat multiset \<Rightarrow> bool" where
  "pool_inv p xs refs \<longleftrightarrow> pool_static p \<and> pool_free p xs \<and> pool_refs p refs \<and> pool_cache p"

lemmas pool_defs = pool_inv_def pool_static_def pool_free_def pool_refs_def pool_cache_def

lemma upd_block_simps [simp]:
  "num_gpu_blocks (upd_block b f p) = num_gpu_blocks p"
  "enable_caching (upd_block b f p) = enable_caching p"
  "hash_block_size (upd_block b f p) = hash_block_size p"
  "free_block_queue (upd_block b f p) = free_block_queue p"
  "cached_block_hash_to_block (upd_block b f p) = cached_block_hash_to_block p"
  "null_block (upd_block b f p) = null_block p"
  "enable_kv_cache_events (upd_block b f p) = enable_kv_cache_events p"
  "use_int_block_hashes (upd_block b f p) = use_int_block_hashes p"
  "kv_event_queue (upd_block b f p) = kv_event_queue p"
  "length (blocks (upd_block b f p)) = length (blocks p)"
  by (simp_all add: upd_block_def)

lemma blocks_upd_block [simp]:
  "c < length (blocks p) \<Longrightarrow> blocks (upd_block b f p) ! c = (if c = b then f (blocks p ! b) else blocks p ! c)"
  by (simp add: upd_block_def nth_list_update)

lemma get_num_free_blocks_inv: "pool_inv p xs refs \<Longrightarrow> get_num_free_blocks p = int (length xs)"
  by (simp add: pool_inv_def pool_free_def get_num_free_blocks_def fq_repD(2))

lemma pool_inv_free_iff:
  assumes "pool_inv p xs refs" "b < num_gpu_blocks p" "b \<noteq> null_block p"
  shows "b \<in> set xs \<longleftrightarrow> b \<notin># refs" "rc p b = 0 \<longleftrightarrow> b \<notin># refs"
  using assms by (auto simp: pool_defs not_in_iff)

lemma pool_inv_length: "pool_inv p xs refs \<Longrightarrow> length (blocks p) = num_gpu_blocks p"
  by (simp add: pool_defs)

lemma pool_inv_xs: "pool_inv p xs refs \<Longrightarrow> b \<in> set xs \<Longrightarrow> b < num_gpu_blocks p \<and> b \<noteq> null_block p \<and> rc p b = 0"
  by (auto simp: pool_defs)

lemma pool_inv_distinct: "pool_inv p xs refs \<Longrightarrow> distinct xs"
  by (auto simp: pool_defs dest: fq_repD(1))

text \<open>Evicting a block from the hash map.\<close>

lemma evict_cases:
  assumes "pool_inv p xs refs" "b < num_gpu_blocks p"
  obtains (miss) "bhash p b = None" "maybe_evict_cached_block b p = (False, p)"
  | (hit) h m evs where "bhash p b = Some h" "b \<noteq> null_block p"
      "\<And>k. entry_ok (m k)" "\<And>k. set (entry_list (m k)) = set (entry_list (cached_block_hash_to_block p k)) - {b}"
      "maybe_evict_cached_block b p = (True, p\<lparr>cached_block_hash_to_block := m,
        blocks := (blocks p)[b := (blocks p ! b)\<lparr>block_hash := None\<rparr>], kv_event_queue := evs\<rparr>)"
proof (cases "bhash p b")
  case None
  then show ?thesis by (intro miss) (simp_all add: maybe_evict_cached_block_def)
next
  case (Some h)
  have c: "entry_ok (cached_block_hash_to_block p k)"
    "set (entry_list (cached_block_hash_to_block p k))
       = {b. b < num_gpu_blocks p \<and> b \<noteq> null_block p \<and> bhash p b = Some k}" for k
    using assms(1) by (auto simp: pool_inv_def pool_cache_def)
  have nn: "b \<noteq> null_block p"
    using assms(1) Some by (auto simp: pool_inv_def pool_cache_def)
  then have mem: "b \<in> set (entry_list (cached_block_hash_to_block p h))"
    using c(2) Some assms(2) by simp
  define m where "m = snd (pop_block (cached_block_hash_to_block p) h b)"
  have pop: "pop_block (cached_block_hash_to_block p) h b = (Some b, m)"
    using pop_block_list(1) [where m = "cached_block_hash_to_block p" and key = h and b = b, OF c(1)] mem by (simp add: m_def prod_eq_iff)
  define evs where "evs = (if enable_kv_cache_events p then kv_event_queue p @
    [BlockRemoved (maybe_convert_block_hash (use_int_block_hashes p) (get_block_hash h)) (get_group_id h)]
    else kv_event_queue p)"
  show ?thesis
  proof (rule hit [OF Some nn])
    show "entry_ok (m k)" for k
      using pop_block_list(3) [where m = "cached_block_hash_to_block p" and key = h and b = b, OF c(1) c(1)] by (simp add: m_def)
    show "set (entry_list (m k)) = set (entry_list (cached_block_hash_to_block p k)) - {b}" for k
      using pop_block_list(2) [where m = "cached_block_hash_to_block p" and key = h and b = b and k = k, OF c(1)] c(2) [of k] Some by (auto simp: m_def)
    show "maybe_evict_cached_block b p = (True, p\<lparr>cached_block_hash_to_block := m,
        blocks := (blocks p)[b := (blocks p ! b)\<lparr>block_hash := None\<rparr>], kv_event_queue := evs\<rparr>)"
      using Some pop by (simp add: maybe_evict_cached_block_def upd_block_def Let_def evs_def)
  qed
qed

lemma evict_inv:
  assumes "pool_inv p xs refs" "b < num_gpu_blocks p"
  shows "\<exists>p'. maybe_evict_cached_block b p = (bhash p b \<noteq> None, p') \<and> pool_inv p' xs refs \<and>
    (\<forall>c. blocks p' ! c = (if c = b then (blocks p ! b)\<lparr>block_hash := None\<rparr> else blocks p ! c)) \<and>
    num_gpu_blocks p' = num_gpu_blocks p \<and> null_block p' = null_block p \<and>
    enable_caching p' = enable_caching p \<and> hash_block_size p' = hash_block_size p \<and> free_block_queue p' = free_block_queue p"
  using assms
proof (cases rule: evict_cases)
  case (hit h m evs)
  have lb: "b < length (blocks p)" using assms by (simp add: pool_inv_length)
  define p' where "p' = p\<lparr>cached_block_hash_to_block := m,
        blocks := (blocks p)[b := (blocks p ! b)\<lparr>block_hash := None\<rparr>], kv_event_queue := evs\<rparr>"
  have bl: "blocks p' ! c = (if c = b then (blocks p ! b)\<lparr>block_hash := None\<rparr> else blocks p ! c)" for c
    using lb by (simp add: p'_def nth_list_update)
  have s: "num_gpu_blocks p' = num_gpu_blocks p" "null_block p' = null_block p" "length (blocks p') = length (blocks p)"
    "free_block_queue p' = free_block_queue p" "cached_block_hash_to_block p' = m"
    "enable_caching p' = enable_caching p" "hash_block_size p' = hash_block_size p"
    by (simp_all add: p'_def)
  have c: "set (entry_list (cached_block_hash_to_block p k))
       = {b. b < num_gpu_blocks p \<and> b \<noteq> null_block p \<and> bhash p b = Some k}" for k
    using assms(1) by (auto simp: pool_inv_def pool_cache_def)
  have "pool_static p'" "pool_free p' xs" "pool_refs p' refs"
    using assms(1) by (auto simp: pool_inv_def pool_static_def pool_free_def pool_refs_def bl s split: if_splits)
  moreover have "pool_cache p'"
    using assms(1) hit(2,3,4) c by (auto simp: pool_inv_def pool_cache_def bl s)
  ultimately have "pool_inv p' xs refs"
    by (simp add: pool_inv_def)
  then show ?thesis
    using hit(1,5) bl s by (auto simp: p'_def)
qed (use assms in auto)

text \<open>Changing only the reference count of a block, and the queue.\<close>

lemma pool_inv_update:
  assumes "pool_inv p xs refs" "b < num_gpu_blocks p" "fq_rep q ys"
    and "\<And>c. c < num_gpu_blocks p \<Longrightarrow> c \<noteq> null_block p \<Longrightarrow>
      (c \<in> set ys) = ((if c = b then rc p b + d else rc p c) = 0)"
    and "set ys \<subseteq> {c. c < num_gpu_blocks p \<and> c \<noteq> null_block p}"
    and "\<And>c. c < num_gpu_blocks p \<Longrightarrow> c \<noteq> null_block p \<Longrightarrow>
      int (count refs' c) = (if c = b then int (count refs b) + d else int (count refs c))"
  shows "pool_inv (upd_block b (\<lambda>k. k\<lparr>ref_cnt := ref_cnt k + d\<rparr>) (p\<lparr>free_block_queue := q\<rparr>)) ys refs'"
proof -
  have lb: "length (blocks p) = num_gpu_blocks p" using assms(1) by (rule pool_inv_length)
  have nl: "null_block p < num_gpu_blocks p" using assms(1) by (simp add: pool_defs)
  show ?thesis
    using assms lb nl
    by (auto simp: pool_inv_def pool_static_def pool_free_def pool_refs_def pool_cache_def split: if_splits)
qed

subsection \<open>Every operation keeps the invariant\<close>

definition same_config :: "block_pool \<Rightarrow> block_pool \<Rightarrow> bool" where
  "same_config p p' \<longleftrightarrow> num_gpu_blocks p' = num_gpu_blocks p \<and> null_block p' = null_block p \<and>
     enable_caching p' = enable_caching p \<and> hash_block_size p' = hash_block_size p"

lemma same_config_refl [simp]: "same_config p p"
  by (simp add: same_config_def)

lemma same_config_trans: "same_config p q \<Longrightarrow> same_config q r \<Longrightarrow> same_config p r"
  by (simp add: same_config_def)

lemma remove1_filter: "distinct xs \<Longrightarrow> remove1 b xs = filter (\<lambda>c. c \<noteq> b) xs"
  by (induction xs) (auto intro!: filter_True [symmetric])

lemma bhash_upd_ref [simp]: "bhash (upd_block b (\<lambda>k. k\<lparr>ref_cnt := g k\<rparr>) p) c = bhash p c"
  by (cases "b < length (blocks p)"; cases "c = b") (simp_all add: upd_block_def list_update_beyond)

lemma upd_block_queue:
  "upd_block b f (p\<lparr>free_block_queue := q\<rparr>) = (upd_block b f p)\<lparr>free_block_queue := q\<rparr>"
  by (cases p) (simp add: upd_block_def)

lemma touch_inv:
  "pool_inv p xs refs \<Longrightarrow> \<forall>b\<in>set bs. b < num_gpu_blocks p \<Longrightarrow>
   \<exists>p'. touch bs p = Inr p' \<and> pool_inv p' (filter (\<lambda>b. b \<notin> set bs) xs) (refs + mset bs) \<and>
     same_config p p' \<and> (\<forall>c. bhash p' c = bhash p c)"
proof (induction bs arbitrary: p xs refs)
  case Nil
  then show ?case by simp
next
  case (Cons b bs)
  have b: "b < num_gpu_blocks p" using Cons.prems(2) by simp
  have lb: "length (blocks p) = num_gpu_blocks p"
    using Cons.prems(1) by (rule pool_inv_length)
  have null: "is_null (blocks p ! b) \<longleftrightarrow> b = null_block p"
    using Cons.prems(1) b by (simp add: pool_inv_def pool_static_def)
  have rep: "fq_rep (free_block_queue p) xs"
    using Cons.prems(1) by (simp add: pool_inv_def pool_free_def)
  have dx: "distinct xs" using Cons.prems(1) by (rule pool_inv_distinct)
  define ys where "ys = filter (\<lambda>c. c \<noteq> b) xs"
  have free: "c \<in> set xs \<longleftrightarrow> rc p c = 0" if "c < num_gpu_blocks p" "c \<noteq> null_block p" for c
    using Cons.prems(1) that by (auto simp: pool_inv_def pool_free_def)
  have sub: "set xs \<subseteq> {c. c < num_gpu_blocks p \<and> c \<noteq> null_block p}"
    using pool_inv_xs [OF Cons.prems(1)] by auto
  have pos: "rc p b \<ge> 0" if "b \<noteq> null_block p"
    using Cons.prems(1) b that by (simp add: pool_inv_def pool_refs_def)
  obtain q where q: "(if rc p b = 0 \<and> \<not> is_null (blocks p ! b)
        then map_sum id (\<lambda>q. p\<lparr>free_block_queue := q\<rparr>) (remove_free (Blk b) (free_block_queue p)) else Inr p)
      = Inr (p\<lparr>free_block_queue := q\<rparr>)" "fq_rep q ys"
  proof (cases "rc p b = 0 \<and> \<not> is_null (blocks p ! b)")
    case True
    then have "b \<in> set xs" using free b null by simp
    then obtain q where "remove_free (Blk b) (free_block_queue p) = Inr q" "fq_rep q (remove1 b xs)"
      using fq.rem_remove1 [OF rep] by blast
    then show ?thesis
      using True that dx by (simp add: ys_def remove1_filter)
  next
    case False
    then have "b \<notin> set xs" using free b null sub by auto
    then have "ys = xs" unfolding ys_def by (intro filter_True) auto
    then show ?thesis using that [of "free_block_queue p"] False rep by simp
  qed
  define p1 where "p1 = upd_block b (\<lambda>k. k\<lparr>ref_cnt := ref_cnt k + 1\<rparr>) (p\<lparr>free_block_queue := q\<rparr>)"
  have inv1: "pool_inv p1 ys (add_mset b refs)"
    unfolding p1_def
  proof (rule pool_inv_update [OF Cons.prems(1) b q(2)])
    show "(c \<in> set ys) = ((if c = b then rc p b + 1 else rc p c) = 0)"
      if "c < num_gpu_blocks p" "c \<noteq> null_block p" for c
      using free [OF that] pos that by (auto simp: ys_def)
  qed (use sub in \<open>auto simp: ys_def\<close>)
  have "same_config p p1" "\<And>c. bhash p1 c = bhash p c"
    using b lb by (auto simp: p1_def same_config_def upd_block_def nth_list_update)
  moreover obtain p' where "touch bs p1 = Inr p'"
    "pool_inv p' (filter (\<lambda>c. c \<notin> set bs) ys) (add_mset b refs + mset bs)"
    "same_config p1 p'" "\<forall>c. bhash p' c = bhash p1 c"
    using Cons.IH [OF inv1] Cons.prems(2) by (auto simp: p1_def)
  moreover have "filter (\<lambda>c. c \<notin> set bs) ys = filter (\<lambda>c. c \<notin> set (b # bs)) xs"
    by (simp add: ys_def)
  ultimately show ?case
    using q(1) by (auto simp: p1_def [symmetric] intro: same_config_trans)
qed

lemma maybe_evict_queue:
  "maybe_evict_cached_block b (p\<lparr>free_block_queue := q\<rparr>)
    = (fst (maybe_evict_cached_block b p), (snd (maybe_evict_cached_block b p))\<lparr>free_block_queue := q\<rparr>)"
  by (simp add: maybe_evict_cached_block_def upd_block_def Let_def split: option.splits prod.splits)

lemma pool_inv_queue:
  "pool_inv p xs refs \<Longrightarrow> fq_rep q xs \<Longrightarrow> pool_inv (p\<lparr>free_block_queue := q\<rparr>) xs refs"
  by (simp add: pool_defs)

lemma fq_rep_exists: "distinct xs \<Longrightarrow> \<exists>q. fq_rep q xs"
  using fq_init_rep by blast

lemma take_loop_inv:
  "pool_inv (p\<lparr>free_block_queue := q1\<rparr>) (bs @ ys) refs \<Longrightarrow>
   \<exists>p'. take_loop bs p = Inr p' \<and> free_block_queue p' = free_block_queue p \<and> same_config p p' \<and>
     (\<forall>q. fq_rep q ys \<longrightarrow> pool_inv (p'\<lparr>free_block_queue := q\<rparr>) ys (refs + mset bs)) \<and>
     (\<forall>c. bhash p' c = (if c \<in> set bs \<and> enable_caching p then None else bhash p c))"
proof (induction bs arbitrary: p q1 refs)
  case Nil
  then show ?case by (auto simp: pool_defs)
next
  case (Cons b bs)
  define p0 where "p0 = p\<lparr>free_block_queue := q1\<rparr>"
  have inv0: "pool_inv p0 (b # bs @ ys) refs"
    using Cons.prems by (simp add: p0_def)
  have b: "b < num_gpu_blocks p0" "b \<noteq> null_block p0" "rc p0 b = 0"
    using pool_inv_xs [OF inv0, of b] by simp_all
  define p1 where "p1 = (if enable_caching p then snd (maybe_evict_cached_block b p) else p)"
  have "\<exists>p2. p2 = p1\<lparr>free_block_queue := q1\<rparr> \<and> pool_inv p2 (b # bs @ ys) refs \<and>
    (\<forall>c. blocks p2 ! c = (if c = b \<and> enable_caching p then (blocks p0 ! b)\<lparr>block_hash := None\<rparr> else blocks p0 ! c)) \<and>
    same_config p0 p2 \<and> free_block_queue p1 = free_block_queue p"
  proof (cases "enable_caching p")
    case True
    obtain p' where e: "maybe_evict_cached_block b p0 = (bhash p0 b \<noteq> None, p')" "pool_inv p' (b # bs @ ys) refs"
      "\<forall>c. blocks p' ! c = (if c = b then (blocks p0 ! b)\<lparr>block_hash := None\<rparr> else blocks p0 ! c)"
      "same_config p0 p'"
      using evict_inv [OF inv0 b(1)] by (auto simp: same_config_def)
    have "p' = p1\<lparr>free_block_queue := q1\<rparr>"
      using e(1) True by (simp add: p0_def maybe_evict_queue p1_def)
    moreover have "free_block_queue p1 = free_block_queue p"
      by (simp add: p1_def maybe_evict_cached_block_def upd_block_def Let_def split: option.splits prod.splits)
    ultimately show ?thesis using e True by auto
  qed (use inv0 in \<open>simp_all add: p1_def p0_def\<close>)
  then obtain p2 where p2: "p2 = p1\<lparr>free_block_queue := q1\<rparr>" "pool_inv p2 (b # bs @ ys) refs"
    "\<And>c. blocks p2 ! c = (if c = b \<and> enable_caching p then (blocks p0 ! b)\<lparr>block_hash := None\<rparr> else blocks p0 ! c)"
    "same_config p0 p2" "free_block_queue p1 = free_block_queue p" by blast
  have dx: "distinct (b # bs @ ys)" using p2(2) by (rule pool_inv_distinct)
  then obtain q2 where q2: "fq_rep q2 (bs @ ys)" using fq_rep_exists [of "bs @ ys"] by auto
  define p3 where "p3 = upd_block b (\<lambda>k. k\<lparr>ref_cnt := ref_cnt k + 1\<rparr>) p1"
  have r0: "rc p1 b = 0"
    using p2(1,3) b(3) by (metis block_pool.select_convs(4) block_pool.surjective block_pool.update_convs(5) kv_block.select_convs(1) kv_block.surjective kv_block.update_convs(2))
  have "pool_inv (upd_block b (\<lambda>k. k\<lparr>ref_cnt := ref_cnt k + 1\<rparr>) (p2\<lparr>free_block_queue := q2\<rparr>)) (bs @ ys) (add_mset b refs)"
  proof (rule pool_inv_update [OF p2(2) _ q2])
    show "b < num_gpu_blocks p2" using b p2(4) by (simp add: same_config_def)
    have free: "c \<in> set (b # bs @ ys) \<longleftrightarrow> rc p2 c = 0" if "c < num_gpu_blocks p2" "c \<noteq> null_block p2" for c
      using p2(2) that by (auto simp: pool_inv_def pool_free_def)
    show "(c \<in> set (bs @ ys)) = ((if c = b then rc p2 b + 1 else rc p2 c) = 0)"
      if "c < num_gpu_blocks p2" "c \<noteq> null_block p2" for c
      using free [OF that] dx r0 p2(1) by (auto split: if_splits)
    show "set (bs @ ys) \<subseteq> {c. c < num_gpu_blocks p2 \<and> c \<noteq> null_block p2}"
      using pool_inv_xs [OF p2(2)] by auto
  qed auto
  then have inv3: "pool_inv (p3\<lparr>free_block_queue := q2\<rparr>) (bs @ ys) (add_mset b refs)"
    by (simp add: p3_def p2(1) upd_block_queue)
  obtain p' where p': "take_loop bs p3 = Inr p'" "free_block_queue p' = free_block_queue p3" "same_config p3 p'"
    "\<forall>q. fq_rep q ys \<longrightarrow> pool_inv (p'\<lparr>free_block_queue := q\<rparr>) ys (add_mset b refs + mset bs)"
    "\<forall>c. bhash p' c = (if c \<in> set bs \<and> enable_caching p3 then None else bhash p3 c)"
    using Cons.IH [OF inv3] by blast
  have bl1: "blocks p1 = blocks p2" "num_gpu_blocks p1 = num_gpu_blocks p2" "null_block p1 = null_block p2"
    "enable_caching p1 = enable_caching p2" "hash_block_size p1 = hash_block_size p2"
    using p2(1) by simp_all
  have cfg: "same_config p p3" "free_block_queue p3 = free_block_queue p"
    using p2(4,5) bl1 by (simp_all add: p3_def same_config_def p0_def)
  have bh: "bhash p3 c = (if c = b \<and> enable_caching p then None else bhash p c)" for c
    using p2(3) [of c] b(1) pool_inv_length [OF inv0] pool_inv_length [OF p2(2)] bl1
    by (auto simp: p3_def p0_def)
  have "take_loop (b # bs) p = Inr p'"
    using p'(1) r0 by (simp add: p1_def [symmetric] p3_def [symmetric] Let_def)
  then show ?case
    using p' cfg bh by (auto intro: same_config_trans simp: same_config_def)
qed

lemma get_new_blocks_inv:
  assumes "pool_inv p (bs @ ys) refs"
  shows "\<exists>p'. get_new_blocks (length bs) p = Inr (bs, p') \<and> pool_inv p' ys (refs + mset bs) \<and>
    same_config p p' \<and> (\<forall>c. bhash p' c = (if c \<in> set bs \<and> enable_caching p then None else bhash p c))"
proof -
  have rep: "fq_rep (free_block_queue p) (bs @ ys)"
    using assms by (simp add: pool_inv_def pool_free_def)
  obtain q where q: "popleft_n (length bs) (free_block_queue p) = Inr (map Blk bs, q)" "fq_rep q ys"
    using popleft_n_rep [OF rep] by blast
  have "pool_inv ((p\<lparr>free_block_queue := q\<rparr>)\<lparr>free_block_queue := free_block_queue p\<rparr>) (bs @ ys) refs"
    using assms by simp
  from take_loop_inv [OF this] obtain p' where p':
    "take_loop bs (p\<lparr>free_block_queue := q\<rparr>) = Inr p'" "free_block_queue p' = q" "same_config p p'"
    "pool_inv (p'\<lparr>free_block_queue := q\<rparr>) ys (refs + mset bs)"
    "\<forall>c. bhash p' c = (if c \<in> set bs \<and> enable_caching p then None else bhash p c)"
    using q(2) by (auto simp: same_config_def)
  have "p'\<lparr>free_block_queue := q\<rparr> = p'" using p'(2) by (cases p') simp
  then have "pool_inv p' ys (refs + mset bs)" using p'(4) by (simp only:)
  then show ?thesis
    using q(1) p' get_num_free_blocks_inv [OF assms] by (simp add: get_new_blocks_def Let_def)
qed

lemma get_new_blocks_short:
  assumes "pool_inv p xs refs" "length xs < n"
  shows "get_new_blocks n p = Inl ValueError"
  using get_num_free_blocks_inv [OF assms(1)] assms(2) by (simp add: get_new_blocks_def)

lemma decr_loop_simps:
  "\<forall>b\<in>set bs. b < length (blocks p) \<Longrightarrow>
   same_config p (decr_loop bs p) \<and> free_block_queue (decr_loop bs p) = free_block_queue p \<and>
   cached_block_hash_to_block (decr_loop bs p) = cached_block_hash_to_block p \<and>
   length (blocks (decr_loop bs p)) = length (blocks p) \<and>
   (\<forall>c<length (blocks p). blocks (decr_loop bs p) ! c
      = (blocks p ! c)\<lparr>ref_cnt := rc p c - int (count_list bs c)\<rparr>)"
proof (induction bs arbitrary: p)
  case (Cons b bs)
  then show ?case
    using Cons.IH [of "upd_block b (\<lambda>k. k\<lparr>ref_cnt := ref_cnt k - 1\<rparr>) p"]
    by (auto simp: same_config_def)
qed simp

lemma count_list_filter: "P c \<Longrightarrow> count_list (filter P bs) c = count_list bs c"
  by (induction bs) auto

lemma count_list_distinct: "distinct bs \<Longrightarrow> count_list bs c = (if c \<in> set bs then 1 else 0)"
  by (induction bs) auto

lemma free_blocks_inv:
  assumes inv: "pool_inv p xs refs"
    and rng: "\<forall>b\<in>set bs. b < num_gpu_blocks p"
    and dist: "distinct (filter (\<lambda>b. b \<noteq> null_block p) bs)"
    and held: "\<forall>b\<in>set bs. b \<noteq> null_block p \<longrightarrow> b \<in># refs"
  shows "\<exists>p'. free_blocks bs p = Inr p' \<and>
    pool_inv p' (xs @ filter (\<lambda>b. b \<noteq> null_block p \<and> count refs b = 1) bs) (refs - mset bs) \<and>
    same_config p p' \<and> (\<forall>c<num_gpu_blocks p. bhash p' c = bhash p c)"
proof -
  define p1 where "p1 = decr_loop bs p"
  define fs where "fs = filter (\<lambda>b. b \<noteq> null_block p \<and> count refs b = 1) bs"
  have lb: "length (blocks p) = num_gpu_blocks p" using inv by (rule pool_inv_length)
  note d = decr_loop_simps [of bs p, folded p1_def, unfolded lb, OF rng]
  have cl: "count_list bs c = (if c \<in> set bs then 1 else 0)" if "c \<noteq> null_block p" for c
    using count_list_distinct [OF dist, of c] count_list_filter [of "\<lambda>b. b \<noteq> null_block p" c bs] that by simp
  have rc1: "rc p1 c = int (count refs c) - (if c \<in> set bs then 1 else 0)"
    if "c < num_gpu_blocks p" "c \<noteq> null_block p" for c
    using d cl [OF that(2)] that inv by (simp add: pool_inv_def pool_refs_def)
  have null: "is_null (blocks p1 ! c) \<longleftrightarrow> c = null_block p" if "c < num_gpu_blocks p" for c
    using d that inv by (simp add: pool_inv_def pool_static_def)
  have fseq: "filter (\<lambda>b. rc p1 b = 0 \<and> \<not> is_null (blocks p1 ! b)) bs = fs"
    unfolding fs_def by (rule filter_cong [OF refl]) (use rng null rc1 in auto)
  have "distinct (filter (\<lambda>b. count refs b = 1) (filter (\<lambda>b. b \<noteq> null_block p) bs))"
    using dist by (rule distinct_filter)
  then have dfs: "distinct fs" by (simp add: fs_def conj_commute)
  have dis: "set xs \<inter> set fs = {}"
    using pool_inv_free_iff(1) [OF inv] rng held by (auto simp: fs_def)
  have rep: "fq_rep (free_block_queue p1) xs"
    using inv d by (simp add: pool_inv_def pool_free_def)
  obtain q where q: "append_n (map Blk fs) (free_block_queue p1) = Inr q" "fq_rep q (xs @ fs)"
    using append_n_rep [OF rep dfs dis] by blast
  define p' where "p' = p1\<lparr>free_block_queue := q\<rparr>"
  have fb: "free_blocks bs p = Inr p'"
    using q(1) fseq by (simp add: free_blocks_def p1_def [symmetric] p'_def)
  have refs': "int (count (refs - mset bs) c) = int (count refs c) - (if c \<in> set bs then 1 else 0)"
    if "c \<noteq> null_block p" for c
    using cl [OF that] held that by (auto simp: count_mset not_in_iff of_nat_diff Suc_le_eq)
  have s: "num_gpu_blocks p' = num_gpu_blocks p" "null_block p' = null_block p" "blocks p' = blocks p1"
    "cached_block_hash_to_block p' = cached_block_hash_to_block p" "free_block_queue p' = q"
    "length (blocks p1) = num_gpu_blocks p"
    using d lb by (simp_all add: p'_def same_config_def)
  have bh: "bhash p1 c = bhash p c" if "c < num_gpu_blocks p" for c
    using d that by simp
  have nl: "null_block p < num_gpu_blocks p" using inv by (simp add: pool_inv_def pool_static_def)
  have "pool_static p'"
    using nl null by (simp add: pool_static_def s)
  moreover have "pool_free p' (xs @ fs)"
  proof -
    have "c \<in> set xs \<union> set fs \<longleftrightarrow> rc p1 c = 0" if "c < num_gpu_blocks p" "c \<noteq> null_block p" for c
    proof -
      have "count refs c \<noteq> 0" if "c \<in> set bs"
        using held that \<open>c \<noteq> null_block p\<close> by (simp add: count_eq_zero_iff)
      then show ?thesis
        using rc1 [OF that] pool_inv_free_iff(1) [OF inv that] that
        by (cases "c \<in> set bs") (auto simp: fs_def simp flip: count_eq_zero_iff)
    qed
    moreover have "set xs \<union> set fs \<subseteq> {c. c < num_gpu_blocks p \<and> c \<noteq> null_block p}"
      using pool_inv_xs [OF inv] rng by (auto simp: fs_def)
    ultimately show ?thesis
      using q(2) by (auto simp: pool_free_def s)
  qed
  moreover have "pool_refs p' (refs - mset bs)"
    using rc1 refs' by (simp add: pool_refs_def s)
  moreover have "pool_cache p'"
    using inv bh nl by (auto simp: pool_inv_def pool_cache_def s)
  ultimately have "pool_inv p' (xs @ fs) (refs - mset bs)"
    by (simp add: pool_inv_def)
  moreover have "same_config p p'" using d by (simp add: p'_def same_config_def)
  ultimately show ?thesis
    using fb bh s by (auto simp: fs_def)
qed

lemma evict_blocks_inv:
  "pool_inv p xs refs \<Longrightarrow> \<forall>b\<in>set bs. b < num_gpu_blocks p \<Longrightarrow>
   \<exists>p'. evict_blocks bs p = Inr p' \<and> pool_inv p' xs refs \<and> same_config p p' \<and>
     (\<forall>c. bhash p' c = (if c \<in> set bs then None else bhash p c))"
proof (induction bs arbitrary: p)
  case (Cons b bs)
  obtain p1 where p1: "snd (maybe_evict_cached_block b p) = p1" "pool_inv p1 xs refs"
    "\<forall>c. blocks p1 ! c = (if c = b then (blocks p ! b)\<lparr>block_hash := None\<rparr> else blocks p ! c)"
    "same_config p p1"
    using evict_inv [OF Cons.prems(1), of b] Cons.prems(2) by (auto simp: same_config_def)
  obtain p' where "evict_blocks bs p1 = Inr p'" "pool_inv p' xs refs" "same_config p1 p'"
     "\<forall>c. bhash p' c = (if c \<in> set bs then None else bhash p1 c)"
    using Cons.IH [OF p1(2)] Cons.prems(2) p1(4) by (auto simp: same_config_def)
  then show ?case
    using p1 Cons.prems pool_inv_length [OF Cons.prems(1)] by (auto intro: same_config_trans)
qed auto

lemma reset_prefix_cache_inv:
  assumes "pool_inv p xs refs"
  shows "fst (reset_prefix_cache p) \<longleftrightarrow> Suc (length xs) = num_gpu_blocks p"
    and "\<exists>p'. snd (reset_prefix_cache p) = p' \<and> pool_inv p' xs refs"
    and "fst (reset_prefix_cache p) \<Longrightarrow> cached_block_hash_to_block (snd (reset_prefix_cache p)) = (\<lambda>_. None)"
  using assms get_num_free_blocks_inv [OF assms] pool_inv_length [OF assms]
  by (auto simp: reset_prefix_cache_def Let_def pool_inv_def pool_static_def pool_free_def
      pool_refs_def pool_cache_def)

lemma block_pool_init_inv:
  assumes "0 < n"
  shows "\<exists>p. block_pool_init n c h ev ints = Inr p \<and> pool_inv p [1..<n] {#} \<and> null_block p = 0 \<and>
    num_gpu_blocks p = n \<and> enable_caching p = c \<and> hash_block_size p = h \<and> (\<forall>b<n. bhash p b = None) \<and>
    enable_kv_cache_events p = ev \<and> kv_event_queue p = []"
proof -
  have "fq_rep (fq_init [0..<n]) (0 # [1..<n])"
    using fq_init_rep [of "[0..<n]"] assms by (simp add: upt_conv_Cons)
  then obtain q where "popleft (fq_init [0..<n]) = Inr (Blk 0, q)" "fq_rep q [1..<n]"
    using popleft_rep by blast
  then show ?thesis
    using assms
    by (auto simp: block_pool_init_def Let_def pool_defs upd_block_def nth_list_update)
qed

subsection \<open>Caching keeps the invariant\<close>

lemma cache_one_inv:
  fixes key :: bytes
  assumes inv: "pool_inv p xs refs" and b: "b < num_gpu_blocks p" "b \<noteq> null_block p" "bhash p b = None"
  defines "p2 \<equiv> (upd_block b (\<lambda>k. k\<lparr>block_hash := Some key\<rparr>) p)
      \<lparr>cached_block_hash_to_block := insert_block (cached_block_hash_to_block p) key b\<rparr>"
  shows "pool_inv p2 xs refs"
proof -
  have lb: "length (blocks p) = num_gpu_blocks p" using inv by (rule pool_inv_length)
  have bl: "blocks p2 ! c = (if c = b then (blocks p ! b)\<lparr>block_hash := Some key\<rparr> else blocks p ! c)" for c
    using lb b(1) by (simp add: p2_def upd_block_def nth_list_update)
  have s: "num_gpu_blocks p2 = num_gpu_blocks p" "null_block p2 = null_block p" "length (blocks p2) = length (blocks p)"
    "free_block_queue p2 = free_block_queue p"
    "cached_block_hash_to_block p2 = insert_block (cached_block_hash_to_block p) key b"
    by (simp_all add: p2_def)
  have c: "entry_ok (cached_block_hash_to_block p k)"
    "set (entry_list (cached_block_hash_to_block p k))
       = {b. b < num_gpu_blocks p \<and> b \<noteq> null_block p \<and> bhash p b = Some k}" for k
    using inv by (auto simp: pool_inv_def pool_cache_def)
  have nb: "b \<notin> set (entry_list (cached_block_hash_to_block p key))"
    using c(2) b(3) by simp
  note ins = insert_block_list [where m = "cached_block_hash_to_block p" and key = key and b = b, OF nb c(1)]
  have "pool_static p2" "pool_free p2 xs" "pool_refs p2 refs"
    using inv by (auto simp: pool_inv_def pool_static_def pool_free_def pool_refs_def bl s split: if_splits)
  moreover have "pool_cache p2"
    using inv c b ins(2) [OF c(1)]
    by (auto simp: pool_inv_def pool_cache_def bl s ins(1) split: if_splits)
  ultimately show ?thesis
    by (simp add: pool_inv_def)
qed

definition mask_at :: "bool list option \<Rightarrow> nat \<Rightarrow> bool" where
  "mask_at bm i \<longleftrightarrow> (case bm of None \<Rightarrow> True | Some m \<Rightarrow> m ! i)"

lemma mask_case: "(case bm of None \<Rightarrow> False | Some m \<Rightarrow> \<not> m ! i) \<longleftrightarrow> \<not> mask_at bm i"
  by (simp add: mask_at_def split: option.splits)

definition cached_as :: "bool list option \<Rightarrow> bytes list \<Rightarrow> nat \<Rightarrow> nat \<Rightarrow> bytes option" where
  "cached_as bm hashes gid i =
     (if mask_at bm i then Some (make_block_hash_with_group_id (hashes ! i) gid) else None)"

definition same_pool :: "block_pool \<Rightarrow> block_pool \<Rightarrow> bool" where
  "same_pool p p' \<longleftrightarrow> same_config p p' \<and> hash_block_size p' = hash_block_size p \<and>
     enable_kv_cache_events p' = enable_kv_cache_events p \<and>
     free_block_queue p' = free_block_queue p \<and> (\<forall>c. rc p' c = rc p c)"

lemma cache_loop_inv:
  "pool_inv p xs refs \<Longrightarrow> \<forall>b\<in>set bs. b < num_gpu_blocks p \<Longrightarrow>
   \<forall>b\<in>set bs. b \<noteq> null_block p \<longrightarrow> bhash p b = None \<Longrightarrow>
   distinct (filter (\<lambda>b. b \<noteq> null_block p) bs) \<Longrightarrow> i + length bs \<le> length hashes \<Longrightarrow>
   \<exists>nh p'. cache_loop bs i bm hashes gid acc p = Inr (nh, p') \<and> pool_inv p' xs refs \<and> same_pool p p' \<and>
     (\<forall>c. c \<notin> set bs \<longrightarrow> blocks p' ! c = blocks p ! c) \<and>
     (\<forall>j<length bs. bs ! j \<noteq> null_block p \<longrightarrow> bhash p' (bs ! j) =
        cached_as bm hashes gid (i + j))"
proof (induction bs arbitrary: i acc p)
  case Nil
  then show ?case by (simp add: same_pool_def)
next
  case (Cons b bs)
  have b: "b < num_gpu_blocks p" using Cons.prems(2) by simp
  have lb: "length (blocks p) = num_gpu_blocks p" using Cons.prems(1) by (rule pool_inv_length)
  have null: "is_null (blocks p ! b) \<longleftrightarrow> b = null_block p"
    using Cons.prems(1) b by (simp add: pool_inv_def pool_static_def)
  show ?case
  proof (cases "b = null_block p \<or> \<not> mask_at bm i")
    case True
    have nb: "b \<notin> set bs" if "b \<noteq> null_block p" using Cons.prems(4) that by simp
    have hb: "bhash p b = None" if "b \<noteq> null_block p" using Cons.prems(3) that by simp
    obtain nh p' where r: "cache_loop bs (i + 1) bm hashes gid acc p = Inr (nh, p')" "pool_inv p' xs refs" "same_pool p p'"
      "\<forall>c. c \<notin> set bs \<longrightarrow> blocks p' ! c = blocks p ! c"
      "\<forall>j<length bs. bs ! j \<noteq> null_block p \<longrightarrow> bhash p' (bs ! j) =
        cached_as bm hashes gid (i + 1 + j)"
    proof -
      have "\<forall>b\<in>set bs. b < num_gpu_blocks p" "\<forall>b\<in>set bs. b \<noteq> null_block p \<longrightarrow> bhash p b = None"
        "distinct (filter (\<lambda>b. b \<noteq> null_block p) bs)" "i + 1 + length bs \<le> length hashes"
        using Cons.prems(2-5) by (auto split: if_splits)
      from Cons.IH [OF Cons.prems(1) this, of acc] show ?thesis using that by blast
    qed
    have "bhash p' ((b # bs) ! j) = cached_as bm hashes gid (i + j)"
      if "j < length (b # bs)" "(b # bs) ! j \<noteq> null_block p" for j
      using that r(4,5) nb hb True by (cases j) (auto simp: cached_as_def)
    then show ?thesis
      using r True null by (simp add: mask_case)
  next
    case False
    define key where "key = make_block_hash_with_group_id (hashes ! i) gid"
    define p2 where "p2 = (upd_block b (\<lambda>k. k\<lparr>block_hash := Some key\<rparr>) p)
      \<lparr>cached_block_hash_to_block := insert_block (cached_block_hash_to_block p) key b\<rparr>"
    have hb: "bhash p b = None" using Cons.prems(3) False by simp
    have nb: "b \<notin> set bs" using Cons.prems(4) False by simp
    have inv2: "pool_inv p2 xs refs"
      unfolding p2_def by (rule cache_one_inv) (use Cons.prems(1) b False hb in simp_all)
    have bl: "blocks p2 ! c = (if c = b then (blocks p ! b)\<lparr>block_hash := Some key\<rparr> else blocks p ! c)" for c
      using lb b by (simp add: p2_def upd_block_def nth_list_update)
    have sp: "same_pool p p2"
      using bl by (simp add: same_pool_def same_config_def p2_def)
    have n2: "num_gpu_blocks p2 = num_gpu_blocks p" "null_block p2 = null_block p"
      by (simp_all add: p2_def)
    have pre: "\<forall>c\<in>set bs. c \<noteq> null_block p2 \<longrightarrow> bhash p2 c = None"
      using Cons.prems(3) nb bl n2 by auto
    obtain nh p' where r: "cache_loop bs (i + 1) bm hashes gid
          (acc @ [maybe_convert_block_hash (use_int_block_hashes p) (hashes ! i)]) p2 = Inr (nh, p')"
      "pool_inv p' xs refs" "same_pool p2 p'"
      "\<forall>c. c \<notin> set bs \<longrightarrow> blocks p' ! c = blocks p2 ! c"
      "\<forall>j<length bs. bs ! j \<noteq> null_block p \<longrightarrow> bhash p' (bs ! j) =
        cached_as bm hashes gid (i + 1 + j)"
    proof -
      have "\<forall>b\<in>set bs. b < num_gpu_blocks p2"
        "distinct (filter (\<lambda>b. b \<noteq> null_block p2) bs)" "i + 1 + length bs \<le> length hashes"
        using Cons.prems(2,4,5) n2 by (auto split: if_splits)
      from Cons.IH [OF inv2 this(1) pre this(2,3)] show ?thesis using that unfolding n2 by blast
    qed
    have "bhash p' ((b # bs) ! j) = cached_as bm hashes gid (i + j)"
      if "j < length (b # bs)" "(b # bs) ! j \<noteq> null_block p" for j
      using that r(4,5) nb bl False by (cases j) (auto simp: key_def cached_as_def)
    moreover have "same_pool p p'"
      using sp r(3) by (simp add: same_pool_def same_config_def)
    moreover have "\<forall>c. c \<notin> set (b # bs) \<longrightarrow> blocks p' ! c = blocks p ! c"
      using r(4) bl by simp
    moreover have "cache_loop (b # bs) i bm hashes gid acc p = Inr (nh, p')"
      using r(1) False null hb Cons.prems(5)
      by (simp add: mask_case Let_def key_def [symmetric] p2_def [symmetric])
    ultimately show ?thesis
      using r(2) by blast
  qed
qed

lemma generate_keys_ok:
  assumes "0 \<le> m"
  shows "\<exists>ks m'. generate_block_hash_extra_keys sha r s e m = Inr (ks, m') \<and> 0 \<le> m'"
  using assms
  by (auto simp: generate_block_hash_extra_keys_def gen_mm_extra_hash_keys_def Let_def split: prod.splits)

lemma event_keys_ok:
  "\<forall>i\<in>set is. i < length bs \<Longrightarrow> 0 \<le> m \<Longrightarrow>
   \<exists>ks. event_keys_loop sha r bs nc bm bsz p is m acc = Inr ks"
proof (induction "is" arbitrary: m acc)
  case (Cons i "is")
  obtain ks m' where g: "generate_block_hash_extra_keys sha r (i * bsz) (i * bsz + bsz) m = Inr (ks, m')" "0 \<le> m'"
    using generate_keys_ok [OF Cons.prems(2)] by blast
  show ?case
    using Cons.IH [of m acc] Cons.IH [of m' "acc @ [ks]"] Cons.prems g by auto
qed simp

lemma pool_inv_events: "pool_inv p xs refs \<Longrightarrow> pool_inv (p\<lparr>kv_event_queue := evs\<rparr>) xs refs"
  by (simp add: pool_defs)

lemma cache_full_blocks_inv:
  assumes inv: "pool_inv p xs refs" and rng: "\<forall>b\<in>set bs. b < num_gpu_blocks p"
    and new: "\<forall>b\<in>set (slice nc nf bs). b \<noteq> null_block p \<longrightarrow> bhash p b = None"
    and dist: "distinct (filter (\<lambda>b. b \<noteq> null_block p) (slice nc nf bs))"
    and len: "nf \<le> length bs" "nf \<le> length (block_hashes r)"
    and hs: "(if bsz = hash_block_size p then Inr (block_hashes r)
       else block_hashes_with_block_size (block_hashes r) (hash_block_size p) bsz) = Inr hs" "nf \<le> length hs"
    and bm: "case bm of None \<Rightarrow> True | Some m \<Rightarrow> length m = nf - nc" and lt: "nc < nf"
  shows "\<exists>p'. cache_full_blocks sha r bs nc nf bsz gid bm p = Inr p' \<and> pool_inv p' xs refs \<and> same_pool p p' \<and>
    (\<forall>c. c \<notin> set (slice nc nf bs) \<longrightarrow> blocks p' ! c = blocks p ! c) \<and>
    (\<forall>i. nc \<le> i \<and> i < nf \<and> bs ! i \<noteq> null_block p \<longrightarrow> bhash p' (bs ! i) =
       (if mask_at bm (i - nc) then Some (make_block_hash_with_group_id (hs ! i) gid) else None))"
proof -
  define sl where "sl = slice nc nf bs"
  have ls: "length sl = nf - nc" using len by (simp add: sl_def slice_def)
  have rs: "\<forall>b\<in>set sl. b < num_gpu_blocks p"
    using rng by (auto simp: sl_def slice_def dest: in_set_takeD in_set_dropD)
  obtain nh p1 where c: "cache_loop sl 0 bm (drop nc hs) gid [] p = Inr (nh, p1)" "pool_inv p1 xs refs" "same_pool p p1"
    "\<forall>c. c \<notin> set sl \<longrightarrow> blocks p1 ! c = blocks p ! c"
    "\<forall>j<length sl. sl ! j \<noteq> null_block p \<longrightarrow> bhash p1 (sl ! j) =
        cached_as bm (drop nc hs) gid (0 + j)"
  proof -
    have "0 + length sl \<le> length (drop nc hs)" using hs(2) ls by simp
    then show ?thesis
      using cache_loop_inv [OF inv rs, of 0 "drop nc hs" bm gid "[]"] new dist that unfolding sl_def by blast
  qed
  have at: "\<forall>i. nc \<le> i \<and> i < nf \<and> bs ! i \<noteq> null_block p \<longrightarrow> bhash p1 (bs ! i) =
       (if mask_at bm (i - nc) then Some (make_block_hash_with_group_id (hs ! i) gid) else None)"
  proof (intro allI impI)
    fix i assume i: "nc \<le> i \<and> i < nf \<and> bs ! i \<noteq> null_block p"
    then have "i - nc < nf - nc" by (auto intro: diff_less_mono)
    then have "sl ! (i - nc) = bs ! i" "i - nc < length sl" "drop nc hs ! (i - nc) = hs ! i"
      using i len hs(2) ls by (simp_all add: sl_def slice_def)
    then show "bhash p1 (bs ! i) = (if mask_at bm (i - nc) then Some (make_block_hash_with_group_id (hs ! i) gid) else None)"
      using c(5) i unfolding cached_as_def by (metis add_0)
  qed
  have bmf: "\<not> (case bm of None \<Rightarrow> False | Some m \<Rightarrow> length m \<noteq> length sl)"
    using bm ls by (auto split: option.splits)
  have start: "cache_full_blocks sha r bs nc nf bsz gid bm p =
     (if \<not> enable_kv_cache_events p1 then Inr p1
           else rbind (event_keys_loop sha r bs nc bm bsz p1 [nc..<nf] 0 [])
             (\<lambda>keys. Inr (p1\<lparr>kv_event_queue := kv_event_queue p1 @
                [BlockStored nh
                   (if nc = 0 then None
                    else Some (maybe_convert_block_hash (use_int_block_hashes p1)
                      (if bsz = hash_block_size p1 then block_hashes r ! (nc - 1)
                       else scaled_hash_at (block_hashes r) (bsz div hash_block_size p1) (nc - 1))))
                   (slice (nc * bsz) (nf * bsz) (all_token_ids r))
                   bsz (lora_id r) (lora_name r) (if keys = [] then None else Some keys) gid]\<rparr>)))"
    using lt len(2) bmf hs(1) c(1) unfolding cache_full_blocks_def sl_def [symmetric] Let_def by simp
  obtain keys where k: "event_keys_loop sha r bs nc bm bsz p1 [nc..<nf] 0 [] = Inr keys"
    using event_keys_ok [of "[nc..<nf]" bs 0 sha r nc bm bsz p1 "[]"] len(1) by auto
  show ?thesis
    using c(2-4) at pool_inv_events [OF c(2)]
    by (cases "enable_kv_cache_events p1") (simp_all add: start k sl_def same_pool_def same_config_def)
qed

subsection \<open>Properties\<close>

lemma small_pool:
  "\<exists>p. block_pool_init 5 True 2 ev False = Inr p \<and> pool_inv p ([1, 2] @ [3, 4]) {#} \<and> null_block p = 0 \<and>
     num_gpu_blocks p = 5 \<and> hash_block_size p = 2 \<and> bhash p 1 = None \<and> bhash p 2 = None"
proof -
  have u: "[1..<5] = [1::nat, 2] @ [3, 4]" by (simp add: upt_rec)
  show ?thesis
    using block_pool_init_inv [of 5 True 2 ev False] unfolding u by auto
qed

lemma get_one_block_inv:
  assumes "pool_inv p xs refs" "get_one_block (cached_block_hash_to_block p) k = Some b"
  shows "b < num_gpu_blocks p \<and> b \<noteq> null_block p \<and> bhash p b = Some k"
proof -
  have "b \<in> set (entry_list (cached_block_hash_to_block p k))"
    using assms(2) by (auto simp: get_one_block_list split: list.splits)
  then show ?thesis using assms(1) by (auto simp: pool_inv_def pool_cache_def)
qed

lemma get_one_block_complete:
  assumes "pool_inv p xs refs" "b < num_gpu_blocks p" "b \<noteq> null_block p" "bhash p b = Some k"
  shows "\<exists>b'. get_one_block (cached_block_hash_to_block p) k = Some b'"
proof -
  have "b \<in> set (entry_list (cached_block_hash_to_block p k))"
    using assms by (auto simp: pool_inv_def pool_cache_def)
  then show ?thesis by (cases "entry_list (cached_block_hash_to_block p k)") (simp_all add: get_one_block_list)
qed

lemma get_cached_block_inv:
  assumes inv: "pool_inv p xs refs"
  shows "get_cached_block p h gs = Some bs \<Longrightarrow>
    list_all2 (\<lambda>g b. b < num_gpu_blocks p \<and> b \<noteq> null_block p \<and>
      bhash p b = Some (make_block_hash_with_group_id h g)) gs bs"
  by (induction gs arbitrary: bs) (auto split: option.splits dest: get_one_block_inv [OF inv])

text \<open>
  C14.  New blocks are exclusive.  Asking a consistent pool for at most as many blocks as are
  free succeeds; the blocks are the first ones in eviction order, distinct, referenced by
  nobody before and exactly once afterwards, no longer in the prefix cache when caching is
  enabled, and every other block keeps its reference count and its hash.
\<close>

theorem new_blocks_are_exclusive:
  assumes "pool_inv p xs refs" "n \<le> length xs"
  shows "\<exists>p'. get_new_blocks n p = Inr (take n xs, p') \<and> pool_inv p' (drop n xs) (refs + mset (take n xs)) \<and>
    distinct (take n xs) \<and> set (take n xs) \<inter> set_mset refs = {} \<and>
    get_num_free_blocks p' = get_num_free_blocks p - int n \<and>
    (\<forall>c. bhash p' c = (if c \<in> set (take n xs) \<and> enable_caching p then None else bhash p c))"
proof -
  have inv: "pool_inv p (take n xs @ drop n xs) refs" using assms(1) by simp
  obtain p' where p': "get_new_blocks (length (take n xs)) p = Inr (take n xs, p')"
    "pool_inv p' (drop n xs) (refs + mset (take n xs))"
    "\<forall>c. bhash p' c = (if c \<in> set (take n xs) \<and> enable_caching p then None else bhash p c)"
    using get_new_blocks_inv [OF inv] by blast
  have "length (take n xs) = n" using assms(2) by simp
  moreover have "b \<notin># refs" if "b \<in> set (take n xs)" for b
    using that pool_inv_free_iff(1) [OF assms(1)] pool_inv_xs [OF assms(1)] by (auto dest: in_set_takeD)
  moreover have "distinct (take n xs)" using pool_inv_distinct [OF assms(1)] by simp
  ultimately show ?thesis
    using p' get_num_free_blocks_inv [OF assms(1)] get_num_free_blocks_inv [OF p'(2)] assms(2) by auto
qed

theorem new_blocks_are_exclusive_witness:
  "\<exists>p p'. block_pool_init 5 True 2 False False = Inr p \<and> get_new_blocks 2 p = Inr ([1, 2], p') \<and>
    pool_inv p' [3, 4] (mset [1, 2])"
proof -
  obtain p where p: "block_pool_init 5 True 2 False False = Inr p" "pool_inv p ([1, 2] @ [3, 4]) {#}" "num_gpu_blocks p = 5"
    using small_pool by blast
  show ?thesis
    using new_blocks_are_exclusive [OF p(2), of 2] p(1) by auto
qed

text \<open>
  C24.  A cache hit is protected.  Touching blocks of a consistent pool succeeds, takes exactly
  them out of the eviction queue (keeping the order of the rest), adds one reference to each
  occurrence and leaves the hashes alone; a later allocation of any size that succeeds returns
  none of them.
\<close>

theorem touch_protects_blocks:
  assumes "pool_inv p xs refs" "set bs \<subseteq> {..<num_gpu_blocks p}"
  shows "\<exists>p'. touch bs p = Inr p' \<and> pool_inv p' (filter (\<lambda>b. b \<notin> set bs) xs) (refs + mset bs) \<and>
    (\<forall>c. bhash p' c = bhash p c) \<and>
    (\<forall>n new p''. get_new_blocks n p' = Inr (new, p'') \<longrightarrow> set new \<inter> set bs = {})"
proof -
  obtain p' where p': "touch bs p = Inr p'" "pool_inv p' (filter (\<lambda>b. b \<notin> set bs) xs) (refs + mset bs)"
    "\<forall>c. bhash p' c = bhash p c"
    using touch_inv [OF assms(1), of bs] assms(2) by auto
  have "set new \<inter> set bs = {}" if "get_new_blocks n p' = Inr (new, p'')" for n new p''
  proof (cases "n \<le> length (filter (\<lambda>b. b \<notin> set bs) xs)")
    case True
    define ys where "ys = filter (\<lambda>b. b \<notin> set bs) xs"
    have "pool_inv p' (take n ys @ drop n ys) (refs + mset bs)" using p'(2) by (simp add: ys_def)
    from get_new_blocks_inv [OF this] have "new = take n ys"
      using that True by (auto simp: ys_def min_absorb2)
    then show ?thesis by (auto simp: ys_def dest: in_set_takeD)
  next
    case False
    then show ?thesis using that get_new_blocks_short [OF p'(2)] by simp
  qed
  with p' show ?thesis by blast
qed

theorem touch_protects_blocks_witness:
  "\<exists>p p'. block_pool_init 5 True 2 False False = Inr p \<and> touch [3] p = Inr p' \<and>
    pool_inv p' [1, 2, 4] {#3#} \<and> (\<forall>n new p''. get_new_blocks n p' = Inr (new, p'') \<longrightarrow> set new \<inter> {3} = {})"
proof -
  obtain p where p: "block_pool_init 5 True 2 False False = Inr p" "pool_inv p ([1, 2] @ [3, 4]) {#}" "num_gpu_blocks p = 5"
    using small_pool by blast
  show ?thesis
    using touch_protects_blocks [OF p(2), of "[3]"] p(1,3) by (auto simp del: touch.simps)
qed

text \<open>
  C25.  Freeing returns references and blocks.  Freeing held blocks, each at most once (the null
  block any number of times), succeeds: every one of them loses one reference, exactly those
  whose last reference it was join the end of the eviction queue in the given order, and their
  hashes stay, so they can still be hit until they are evicted.
\<close>

theorem free_blocks_return:
  assumes "pool_inv p xs refs" "set bs \<subseteq> {..<num_gpu_blocks p}"
    and "distinct (filter (\<lambda>b. b \<noteq> null_block p) bs)" "set bs - {null_block p} \<subseteq> set_mset refs"
  shows "\<exists>p'. free_blocks bs p = Inr p' \<and>
    pool_inv p' (xs @ filter (\<lambda>b. b \<noteq> null_block p \<and> count refs b = 1) bs) (refs - mset bs) \<and>
    (\<forall>c<num_gpu_blocks p. bhash p' c = bhash p c)"
  using free_blocks_inv [OF assms(1) _ assms(3)] assms(2,4) by blast

theorem free_blocks_return_witness:
  "\<exists>p p1 p2. block_pool_init 5 True 2 False False = Inr p \<and> get_new_blocks 2 p = Inr ([1, 2], p1) \<and>
    free_blocks [2, 0, 1, 0] p1 = Inr p2 \<and> pool_inv p2 [3, 4, 2, 1] {#}"
proof -
  obtain p where p: "block_pool_init 5 True 2 False False = Inr p" "pool_inv p ([1, 2] @ [3, 4]) {#}"
    "null_block p = 0" "num_gpu_blocks p = 5"
    using small_pool by blast
  obtain p1 where p1: "get_new_blocks 2 p = Inr ([1, 2], p1)" "pool_inv p1 [3, 4] (mset [1, 2])" "same_config p p1"
    using get_new_blocks_inv [OF p(2)] by (auto simp: numeral_2_eq_2)
  obtain p2 where "free_blocks [2, 0, 1, 0] p1 = Inr p2" "pool_inv p2 ([3, 4] @ [2, 1]) (mset [1, 2] - mset [2, 0, 1, 0])"
    using free_blocks_return [OF p1(2), of "[2, 0, 1, 0]"] p1(3) p(3,4) by (auto simp: same_config_def)
  moreover have "mset [1, 2] - mset [2, 0, 1, 0 :: nat] = {#}" by (simp add: add_mset_commute)
  ultimately show ?thesis using p p1 by auto
qed

text \<open>
  C26.  What is cached is found.  Caching the full blocks of a request (fresh, distinct blocks,
  with hashes computed for each of them) succeeds, keeps the pool consistent, and afterwards
  looking up the hash of every one of these blocks in its group hits a block that carries
  exactly that hash and group; a lookup never returns a block with another hash.
\<close>

theorem cached_blocks_found:
  assumes "pool_inv p xs refs" "set bs \<subseteq> {..<num_gpu_blocks p}" "distinct bs" "null_block p \<notin> set bs"
    and "set (map (bhash p) (slice nc nf bs)) \<subseteq> {None}" "nf \<le> length bs" "nf \<le> length (block_hashes r)"
    and "bsz = hash_block_size p" "nc \<le> i" "i < nf"
  shows "\<exists>p' b. cache_full_blocks sha r bs nc nf bsz gid None p = Inr p' \<and> pool_inv p' xs refs \<and>
    get_cached_block p' (block_hashes r ! i) [gid] = Some [b] \<and>
    bhash p' b = Some (make_block_hash_with_group_id (block_hashes r ! i) gid) \<and>
    bhash p' (bs ! i) = bhash p' b"
proof -
  have d: "distinct (slice nc nf bs)" using assms(3) by (simp add: slice_def)
  have new: "\<forall>b\<in>set (slice nc nf bs). b \<noteq> null_block p \<longrightarrow> bhash p b = None" using assms(5) by auto
  obtain p' where p': "cache_full_blocks sha r bs nc nf bsz gid None p = Inr p'" "pool_inv p' xs refs" "same_pool p p'"
    "\<forall>i. nc \<le> i \<and> i < nf \<and> bs ! i \<noteq> null_block p \<longrightarrow> bhash p' (bs ! i) =
       (if mask_at None (i - nc) then Some (make_block_hash_with_group_id (block_hashes r ! i) gid) else None)"
  proof -
    have hs: "(if bsz = hash_block_size p then Inr (block_hashes r)
       else block_hashes_with_block_size (block_hashes r) (hash_block_size p) bsz) = Inr (block_hashes r)"
      using assms(8) by simp
    have rng: "\<forall>b\<in>set bs. b < num_gpu_blocks p" using assms(2) by auto
    have dist: "distinct (filter (\<lambda>b. b \<noteq> null_block p) (slice nc nf bs))" using d by simp
    have bm: "case None of None \<Rightarrow> True | Some m \<Rightarrow> length m = nf - nc" by simp
    have lt: "nc < nf" using assms(9,10) by simp
    show ?thesis
      using cache_full_blocks_inv [OF assms(1) rng new dist assms(6,7) hs assms(7) bm lt, of sha gid] that
      by blast
  qed
  have bi: "bs ! i \<in> set bs" using assms(6,10) by simp
  then have ne: "bs ! i \<noteq> null_block p" "bs ! i < num_gpu_blocks p" using assms(2,4) by auto
  have h: "bhash p' (bs ! i) = Some (make_block_hash_with_group_id (block_hashes r ! i) gid)"
    using p'(4) ne(1) assms(9,10) by (simp add: mask_at_def)
  obtain b where b: "get_one_block (cached_block_hash_to_block p') (make_block_hash_with_group_id (block_hashes r ! i) gid) = Some b"
    using get_one_block_complete [OF p'(2) _ _ h] ne p'(3) by (auto simp: same_pool_def same_config_def)
  then show ?thesis
    using p' h get_one_block_inv [OF p'(2) b] by auto
qed

theorem cached_blocks_found_witness:
  "\<exists>p p1 p' b. block_pool_init 5 True 2 True False = Inr p \<and> get_new_blocks 2 p = Inr ([1, 2], p1) \<and>
    cache_full_blocks id ((plain_request ''r'' [5, 6, 7, 8])\<lparr>block_hashes := [[1], [2]]\<rparr>) [1, 2] 0 2 2 0 None p1 = Inr p' \<and>
    get_cached_block p' [2] [0] = Some [b] \<and> bhash p' b = Some [2, 0, 0, 0, 0]"
proof -
  obtain p where p: "block_pool_init 5 True 2 True False = Inr p" "pool_inv p ([1, 2] @ [3, 4]) {#}"
    "null_block p = 0" "num_gpu_blocks p = 5" "hash_block_size p = 2" "bhash p 1 = None" "bhash p 2 = None"
    using small_pool by blast
  obtain p1 where p1: "get_new_blocks 2 p = Inr ([1, 2], p1)" "pool_inv p1 [3, 4] (mset [1, 2])" "same_config p p1"
    "bhash p1 1 = None" "bhash p1 2 = None"
    using get_new_blocks_inv [OF p(2)] p(6,7) by (auto simp: numeral_2_eq_2)
  have hb: "hash_block_size p1 = 2" using p1(3) p(5) by (simp add: same_config_def)
  define r where "r = (plain_request ''r'' [5, 6, 7, 8])\<lparr>block_hashes := [[1], [2]]\<rparr>"
  have bh: "block_hashes r = [[1], [2]]" by (simp add: r_def)
  have cfg: "num_gpu_blocks p1 = 5" "null_block p1 = 0" using p1(3) p(3,4) by (simp_all add: same_config_def)
  have "set [1, 2] \<subseteq> {..<num_gpu_blocks p1}" "distinct [1, 2 :: nat]" "null_block p1 \<notin> set [1, 2]"
    "set (map (bhash p1) (slice 0 2 [1, 2])) \<subseteq> {None}" "2 \<le> length [1, 2 :: nat]" "2 \<le> length (block_hashes r)"
    using p1(4,5) by (simp_all add: cfg slice_def bh)
  from cached_blocks_found [OF p1(2) this hb [symmetric], of 1 id 0]
  obtain p' b where "cache_full_blocks id r [1, 2] 0 2 2 0 None p1 = Inr p'"
    "get_cached_block p' [2] [0] = Some [b]" "bhash p' b = Some [2, 0, 0, 0, 0]"
    unfolding bh make_block_hash_with_group_id_def by auto
  then show ?thesis using p(1) p1(1) unfolding r_def by blast
qed

end
