(* ===== verification/VL_SingleType.thy ===== *)
theory VL_SingleType
  imports VL_BlockPool
begin

text \<open>
  The KV cache managers for one attention type (\<open>v1/core/single_type_kv_cache_manager.py\<close>,
  with the specifications of \<open>v1/kv_cache_interface.py\<close>).  The class of a manager is determined
  by its specification, so a method with overrides is one definition that dispatches on the
  specification; the managers of all groups share the block pool, which every operation takes
  and returns.  Token counts are integers, because Mamba counts one token less than computed;
  a list of group ids is never empty.
\<close>

subsection \<open>Specifications\<close>

definition cdiv :: "int \<Rightarrow> int \<Rightarrow> int" where
  "cdiv a b = - (a div (- b))"

datatype mamba_mode = MambaNone | MambaAll | MambaAlign

text \<open>The first component is the block size; then the window, the chunk size, the sink length, or
  Mamba's cache mode and speculative blocks.\<close>

datatype kv_cache_spec =
    FullAttentionSpec nat
  | TQFullAttentionSpec nat
  | MLAAttentionSpec nat
  | HiddenStateCacheSpec nat
  | SinkFullAttentionSpec nat nat
  | SlidingWindowSpec nat nat
  | SlidingWindowMLASpec nat nat
  | ChunkedLocalAttentionSpec nat nat
  | MambaSpec nat mamba_mode nat
  | CrossAttentionSpec nat

primrec spec_block_size :: "kv_cache_spec \<Rightarrow> nat" where
  "spec_block_size (FullAttentionSpec b) = b"
| "spec_block_size (TQFullAttentionSpec b) = b"
| "spec_block_size (MLAAttentionSpec b) = b"
| "spec_block_size (HiddenStateCacheSpec b) = b"
| "spec_block_size (SinkFullAttentionSpec b n) = b"
| "spec_block_size (SlidingWindowSpec b w) = b"
| "spec_block_size (SlidingWindowMLASpec b w) = b"
| "spec_block_size (ChunkedLocalAttentionSpec b c) = b"
| "spec_block_size (MambaSpec b mode n) = b"
| "spec_block_size (CrossAttentionSpec b) = b"

fun is_full_attention :: "kv_cache_spec \<Rightarrow> bool" where
  "is_full_attention (FullAttentionSpec b) = True"
| "is_full_attention (TQFullAttentionSpec b) = True"
| "is_full_attention (MLAAttentionSpec b) = True"
| "is_full_attention (HiddenStateCacheSpec b) = True"
| "is_full_attention (SinkFullAttentionSpec b n) = True"
| "is_full_attention _ = False"

fun is_cross :: "kv_cache_spec \<Rightarrow> bool" where
  "is_cross (CrossAttentionSpec b) = True"
| "is_cross _ = False"

fun zeroes_new_blocks :: "kv_cache_spec \<Rightarrow> bool" where
  "zeroes_new_blocks (FullAttentionSpec b) = True"
| "zeroes_new_blocks (TQFullAttentionSpec b) = True"
| "zeroes_new_blocks _ = False"

definition sliding_window_cap :: "nat \<Rightarrow> nat \<Rightarrow> int \<Rightarrow> int \<Rightarrow> int" where
  "sliding_window_cap bs w max_num_batched_tokens max_model_len =
     cdiv (min (int w - 1 + max_num_batched_tokens) max_model_len) (int bs) + 1"

definition chunked_local_cap :: "nat \<Rightarrow> nat \<Rightarrow> int \<Rightarrow> int \<Rightarrow> int" where
  "chunked_local_cap bs c max_num_batched_tokens max_model_len =
     cdiv (min (int c + max_num_batched_tokens) max_model_len) (int bs)"

subsection \<open>State\<close>

record kv_manager =
  m_spec :: kv_cache_spec
  m_block_size :: nat
  m_enable_caching :: bool
  max_admission_blocks :: "int option"
  new_block_ids :: "nat list"
  req_to_blocks :: "(string \<times> nat list) list"
  num_cached_block :: "(string \<times> nat) list"
  m_group_id :: nat
  cached_blocks_this_step :: "bytes list"
  last_state_block_idx :: "(string \<times> int) list"
  allocated_block_reqs :: "string list"

definition get_manager_for_kv_cache_spec ::
  "kv_cache_spec \<Rightarrow> int \<Rightarrow> int \<Rightarrow> bool \<Rightarrow> nat \<Rightarrow> nat \<Rightarrow> nat \<Rightarrow> block_pool \<Rightarrow> (kv_manager \<times> block_pool) res" where
  "get_manager_for_kv_cache_spec spec max_num_batched_tokens max_model_len caching gid dcp pcp p =
     (let bs = (if dcp * pcp > 1 then spec_block_size spec * (dcp * pcp) else spec_block_size spec);
          cap = (case spec of
              SlidingWindowSpec b w \<Rightarrow> Some (sliding_window_cap b w max_num_batched_tokens max_model_len)
            | SlidingWindowMLASpec b w \<Rightarrow> Some (sliding_window_cap b w max_num_batched_tokens max_model_len)
            | ChunkedLocalAttentionSpec b c \<Rightarrow> Some (chunked_local_cap b c max_num_batched_tokens max_model_len)
            | _ \<Rightarrow> None);
          m = \<lparr>m_spec = spec, m_block_size = bs, m_enable_caching = caching, max_admission_blocks = cap,
               new_block_ids = [], req_to_blocks = [], num_cached_block = [], m_group_id = gid,
               cached_blocks_this_step = [], last_state_block_idx = [], allocated_block_reqs = []\<rparr>
      in case spec of
           SinkFullAttentionSpec b sink_len \<Rightarrow>
             if sink_len > 0 \<and> sink_len mod bs = 0
             then rbind (popleft_n (sink_len div bs) (free_block_queue p))
                    (\<lambda>(sinks, q). Inr (m, p\<lparr>free_block_queue := q\<rparr>))
             else Inl AssertionError
         | _ \<Rightarrow> Inr (m, p))"

definition req_blocks :: "kv_manager \<Rightarrow> string \<Rightarrow> nat list" where
  "req_blocks m rid = (case map_of (req_to_blocks m) rid of None \<Rightarrow> [] | Some bs \<Rightarrow> bs)"

definition set_req :: "string \<Rightarrow> nat list \<Rightarrow> kv_manager \<Rightarrow> kv_manager" where
  "set_req rid bs m = m\<lparr>req_to_blocks := AList.update rid bs (req_to_blocks m)\<rparr>"

definition cached_count :: "kv_manager \<Rightarrow> string \<Rightarrow> nat" where
  "cached_count m rid = (case map_of (num_cached_block m) rid of None \<Rightarrow> 0 | Some n \<Rightarrow> n)"

subsection \<open>Skipped tokens\<close>

fun get_num_skipped_tokens :: "kv_cache_spec \<Rightarrow> int \<Rightarrow> int" where
  "get_num_skipped_tokens (SlidingWindowSpec b w) n = max 0 (n - int w + 1)"
| "get_num_skipped_tokens (SlidingWindowMLASpec b w) n = max 0 (n - int w + 1)"
| "get_num_skipped_tokens (ChunkedLocalAttentionSpec b c) n = n div int c * int c"
| "get_num_skipped_tokens (MambaSpec b mode k) n = n - 1"
| "get_num_skipped_tokens _ n = 0"

subsection \<open>How many blocks\<close>

definition get_num_evictable_blocks :: "block_pool \<Rightarrow> nat list \<Rightarrow> int" where
  "get_num_evictable_blocks p bs = int (length (filter (\<lambda>b. rc p b = 0 \<and> \<not> is_null (blocks p ! b)) bs))"

definition num_blocks_to_allocate_base ::
  "string \<Rightarrow> int \<Rightarrow> nat list \<Rightarrow> int \<Rightarrow> bool \<Rightarrow> kv_manager \<Rightarrow> block_pool \<Rightarrow> int res" where
  "num_blocks_to_allocate_base rid ntoks new_computed total_computed_tokens apply_admission_cap m p =
     (let bs = int (m_block_size m);
          required0 = cdiv ntoks bs;
          required = (case max_admission_blocks m of
                        Some cap \<Rightarrow> if apply_admission_cap then min required0 cap else required0
                      | None \<Rightarrow> required0);
          num_req_blocks = int (length (req_blocks m rid))
      in if map_of (num_cached_block m) rid \<noteq> None
         then (if new_computed \<noteq> [] then Inl AssertionError else Inr (max (required - num_req_blocks) 0))
         else let num_skipped_tokens = get_num_skipped_tokens (m_spec m) total_computed_tokens;
                  num_local = int (length new_computed) + num_req_blocks;
                  num_skipped_blocks = num_skipped_tokens div bs;
                  num_new = max (required - max num_skipped_blocks num_local) 0;
                  skipped_new = max 0 (num_skipped_blocks - num_req_blocks)
              in Inr (num_new + get_num_evictable_blocks p (drop (nat skipped_new) new_computed)))"

definition num_blocks_to_allocate ::
  "string \<Rightarrow> int \<Rightarrow> nat list \<Rightarrow> int \<Rightarrow> int \<Rightarrow> bool \<Rightarrow> kv_manager \<Rightarrow> block_pool \<Rightarrow> (int \<times> kv_manager) res" where
  "num_blocks_to_allocate rid ntoks new_computed total_computed_tokens num_tokens_main apply_cap m p =
     (case m_spec m of
        MambaSpec b mode spec_blocks \<Rightarrow>
          if new_computed \<noteq> [] \<and> (case bhash p (last new_computed) of None \<Rightarrow> False
               | Some h \<Rightarrow> h \<in> set (cached_blocks_this_step m))
          then Inr (int (num_gpu_blocks p) + 1, m)
          else if mode \<noteq> MambaAlign
          then rbind (num_blocks_to_allocate_base rid (ntoks + int b * int spec_blocks) new_computed
                 total_computed_tokens apply_cap m p) (\<lambda>n. Inr (n, m))
          else let required = cdiv num_tokens_main (int (m_block_size m)) + int spec_blocks;
                   m1 = set_req rid (req_blocks m rid) m;
                   new0 = required - int (length new_computed) - int (length (req_blocks m rid));
                   new1 = (if new0 > 0 then (if rid \<in> set (allocated_block_reqs m) then 1 else 1 + int spec_blocks)
                           else new0)
               in Inr (new1 + get_num_evictable_blocks p new_computed, m1)
      | _ \<Rightarrow> rbind (num_blocks_to_allocate_base rid ntoks new_computed total_computed_tokens apply_cap m p)
               (\<lambda>n. Inr (n, m)))"

subsection \<open>Allocation\<close>

text \<open>\<open>get_new_blocks\<close> with a count that may be negative: then nothing is popped, but the counter of
  the queue is lowered by the negative count.\<close>

definition get_new_blocks_int :: "int \<Rightarrow> block_pool \<Rightarrow> (nat list \<times> block_pool) res" where
  "get_new_blocks_int n p =
     (if 0 \<le> n then get_new_blocks (nat n) p
      else if n > get_num_free_blocks p then Inl ValueError
      else let q = add_num (- n) (free_block_queue p);
               q' = (case next_free_block q Head of None \<Rightarrow> q
                     | Some c \<Rightarrow> set_prev c (Some Head) (set_next Head (Some c) q))
           in Inr ([], p\<lparr>free_block_queue := q'\<rparr>))"

definition allocate_new_computed_blocks ::
  "string \<Rightarrow> nat list \<Rightarrow> int \<Rightarrow> int \<Rightarrow> kv_manager \<Rightarrow> block_pool \<Rightarrow> (kv_manager \<times> block_pool) res" where
  "allocate_new_computed_blocks rid new_computed num_local num_external m p =
     (if is_cross (m_spec m) then (if new_computed \<noteq> [] then Inl AssertionError else Inr (m, p))
      else if map_of (num_cached_block m) rid \<noteq> None
      then (if new_computed \<noteq> [] then Inl AssertionError else Inr (m, p))
      else if req_blocks m rid \<noteq> [] then Inl AssertionError
      else let bs = int (m_block_size m);
               total = num_local + num_external;
               num_skipped_tokens = get_num_skipped_tokens (m_spec m) total;
               num_skipped_blocks = num_skipped_tokens div bs;
               computed = (if num_skipped_blocks > 0 then drop (nat num_skipped_blocks) new_computed else new_computed);
               external = (if num_skipped_blocks > 0 then min (total - num_skipped_tokens) num_external else num_external)
           in rbind (if m_enable_caching m then touch computed p
                     else if computed \<noteq> [] then Inl AssertionError else Inr p) (\<lambda>p1.
              let rblocks = replicate (nat num_skipped_blocks) (null_block p1) @ computed;
                  m1 = (set_req rid rblocks m)
                         \<lparr>num_cached_block := AList.update rid (length rblocks) (num_cached_block m)\<rparr>
              in if external > 0
                 then rbind (get_new_blocks_int (cdiv total bs - int (length rblocks)) p1) (\<lambda>(new, p2).
                   let m2 = set_req rid (rblocks @ new) m1
                   in Inr (if zeroes_new_blocks (m_spec m) then m2\<lparr>new_block_ids := new_block_ids m2 @ new\<rparr> else m2, p2))
                 else Inr (m1, p1)))"

definition allocate_new_blocks_base ::
  "string \<Rightarrow> int \<Rightarrow> kv_manager \<Rightarrow> block_pool \<Rightarrow> (nat list \<times> kv_manager \<times> block_pool) res" where
  "allocate_new_blocks_base rid ntoks m p =
     (let rblocks = req_blocks m rid;
          num_new = cdiv ntoks (int (m_block_size m)) - int (length rblocks)
      in if num_new \<le> 0 then Inr ([], set_req rid rblocks m, p)
         else rbind (get_new_blocks (nat num_new) p) (\<lambda>(new, p1).
           let m1 = set_req rid (rblocks @ new) m
           in Inr (new, if zeroes_new_blocks (m_spec m) then m1\<lparr>new_block_ids := new_block_ids m1 @ new\<rparr> else m1, p1)))"

definition py_index :: "'a list \<Rightarrow> int \<Rightarrow> nat" where
  "py_index xs i = nat (if i < 0 then int (length xs) + i else i)"

fun reuse_loop :: "nat \<Rightarrow> int list \<Rightarrow> int \<Rightarrow> nat list \<Rightarrow> nat list" where
  "reuse_loop nullb [] num_skipped bs = bs"
| "reuse_loop nullb (i # is) num_skipped bs =
     (if i < num_skipped
      then let bs' = bs @ [bs ! py_index bs i]
           in reuse_loop nullb is num_skipped (bs'[py_index bs' i := nullb])
      else bs)"

definition allocate_new_blocks_align ::
  "nat \<Rightarrow> string \<Rightarrow> int \<Rightarrow> kv_manager \<Rightarrow> block_pool \<Rightarrow> (nat list \<times> kv_manager \<times> block_pool) res" where
  "allocate_new_blocks_align spec_blocks rid ntoks m p =
     (let bs0 = req_blocks m rid;
          k = int spec_blocks;
          required = cdiv ntoks (int (m_block_size m)) + k;
          prev = int (length bs0);
          allocated = rid \<in> set (allocated_block_reqs m)
      in if required = prev then Inr ([], set_req rid bs0 m, p)
         else if \<not> required > prev then Inl AssertionError
         else let m1 = (if allocated then m\<lparr>last_state_block_idx := AList.update rid (prev - 1 - k) (last_state_block_idx m)\<rparr>
                        else if prev > 0 then m\<lparr>last_state_block_idx := AList.update rid (prev - 1) (last_state_block_idx m)\<rparr>
                        else m);
                  num_skipped = required - k - 1;
                  bs1 = bs0 @ (if prev < num_skipped then replicate (nat (num_skipped - prev)) (null_block p) else []);
                  bs2 = (if allocated then reuse_loop (null_block p) [prev - k..prev - 1] num_skipped bs1 else bs1);
                  num_new = required - int (length bs2)
              in if (if allocated then \<not> num_new \<le> 1 else \<not> num_new \<le> k + 1) then Inl AssertionError
                 else rbind (get_new_blocks_int num_new p) (\<lambda>(new, p1).
                   let bs3 = bs2 @ new;
                       m2 = set_req rid bs3 m1
                   in Inr (drop (nat prev) bs3,
                           m2\<lparr>allocated_block_reqs := List.insert rid (allocated_block_reqs m2)\<rparr>, p1)))"

definition allocate_new_blocks ::
  "string \<Rightarrow> int \<Rightarrow> int \<Rightarrow> kv_manager \<Rightarrow> block_pool \<Rightarrow> (nat list \<times> kv_manager \<times> block_pool) res" where
  "allocate_new_blocks rid ntoks num_tokens_main m p =
     (case m_spec m of
        MambaSpec b mode spec_blocks \<Rightarrow>
          if mode \<noteq> MambaAlign
          then allocate_new_blocks_base rid (ntoks + int (m_block_size m) * int spec_blocks) m p
          else allocate_new_blocks_align spec_blocks rid num_tokens_main m p
      | _ \<Rightarrow> allocate_new_blocks_base rid ntoks m p)"

definition take_new_block_ids :: "kv_manager \<Rightarrow> nat list \<times> kv_manager" where
  "take_new_block_ids m = (new_block_ids m, m\<lparr>new_block_ids := []\<rparr>)"

subsection \<open>Caching and freeing\<close>

definition cache_block_mask :: "kv_cache_spec \<Rightarrow> nat \<Rightarrow> nat \<Rightarrow> nat \<Rightarrow> nat \<Rightarrow> bool list option res" where
  "cache_block_mask spec bs num_cached num_full alignment_tokens =
     (let swa = (\<lambda>w.
          if \<not> alignment_tokens > bs then Inl AssertionError
          else let per_segment = alignment_tokens div bs;
                   tail = cdiv (int w - 1) (int bs)
               in if tail \<ge> int per_segment then Inr None
                  else Inr (Some (map (\<lambda>i. int (i mod per_segment) \<ge> int per_segment - tail) [num_cached..<num_full])))
      in case spec of
           SlidingWindowSpec b w \<Rightarrow> swa w
         | SlidingWindowMLASpec b w \<Rightarrow> swa w
         | _ \<Rightarrow> Inr None)"

definition cache_blocks_base ::
  "(bytes \<Rightarrow> bytes) \<Rightarrow> request \<Rightarrow> nat \<Rightarrow> nat option \<Rightarrow> kv_manager \<Rightarrow> block_pool \<Rightarrow> (kv_manager \<times> block_pool) res" where
  "cache_blocks_base sha256 r num_toks alignment_tokens m p =
     (let rid = request_id r;
          num_cached = cached_count m rid;
          num_full = num_toks div m_block_size m
      in if num_cached \<ge> num_full then Inr (m, p)
         else rbind (case alignment_tokens of
                       None \<Rightarrow> Inr None
                     | Some al \<Rightarrow> if al \<le> m_block_size m then Inr None
                         else cache_block_mask (m_spec m) (m_block_size m) num_cached num_full al) (\<lambda>bm.
              rbind (cache_full_blocks sha256 r (req_blocks m rid) num_cached num_full (m_block_size m)
                       (m_group_id m) bm p) (\<lambda>p1.
              Inr ((set_req rid (req_blocks m rid) m)
                     \<lparr>num_cached_block := AList.update rid num_full (num_cached_block m)\<rparr>, p1))))"

definition cache_blocks ::
  "(bytes \<Rightarrow> bytes) \<Rightarrow> request \<Rightarrow> nat \<Rightarrow> nat option \<Rightarrow> kv_manager \<Rightarrow> block_pool \<Rightarrow> (kv_manager \<times> block_pool) res" where
  "cache_blocks sha256 r num_toks alignment_tokens m p =
     (case m_spec m of
        CrossAttentionSpec b \<Rightarrow> Inl ValueError
      | MambaSpec b mode k \<Rightarrow>
          rbind (cache_blocks_base sha256 r num_toks alignment_tokens m p) (\<lambda>(m1, p1).
            let num_before = cached_count m (request_id r);
                num_after = cached_count m1 (request_id r);
                new = filter (\<lambda>b. \<not> is_null (blocks p1 ! b)) (slice num_before num_after (req_blocks m1 (request_id r)))
            in if num_after > num_before
               then (if list_all (\<lambda>b. bhash p1 b \<noteq> None) new
                     then Inr (m1\<lparr>cached_blocks_this_step :=
                            fold List.insert (map (\<lambda>b. the (bhash p1 b)) new) (cached_blocks_this_step m1)\<rparr>, p1)
                     else Inl AssertionError)
               else Inr (m1, p1))
      | _ \<Rightarrow> cache_blocks_base sha256 r num_toks alignment_tokens m p)"

definition free_request :: "string \<Rightarrow> kv_manager \<Rightarrow> block_pool \<Rightarrow> (kv_manager \<times> block_pool) res" where
  "free_request rid m p =
     (let m0 = (case m_spec m of
                  MambaSpec b MambaAlign k \<Rightarrow>
                    m\<lparr>allocated_block_reqs := removeAll rid (allocated_block_reqs m),
                      last_state_block_idx := AList.delete rid (last_state_block_idx m)\<rparr>
                | _ \<Rightarrow> m);
          rblocks = req_blocks m0 rid;
          m1 = m0\<lparr>req_to_blocks := AList.delete rid (req_to_blocks m0)\<rparr>
      in rbind (free_blocks (rev rblocks) p) (\<lambda>p1.
           Inr (m1\<lparr>num_cached_block := AList.delete rid (num_cached_block m1)\<rparr>, p1)))"

fun remove_loop :: "nat \<Rightarrow> nat \<Rightarrow> nat list \<Rightarrow> nat list \<Rightarrow> nat list \<times> nat list" where
  "remove_loop nullb 0 bs removed = (bs, removed)"
| "remove_loop nullb (Suc i) bs removed =
     (if bs ! i = nullb then (bs, removed)
      else remove_loop nullb i (bs[i := nullb]) (removed @ [bs ! i]))"

definition remove_skipped_base :: "string \<Rightarrow> int \<Rightarrow> kv_manager \<Rightarrow> block_pool \<Rightarrow> (kv_manager \<times> block_pool) res" where
  "remove_skipped_base rid total_computed_tokens m p =
     (let num_skipped_tokens = get_num_skipped_tokens (m_spec m) total_computed_tokens in
      if num_skipped_tokens \<le> 0 then Inr (m, p)
      else let bs = req_blocks m rid;
               num_skipped_blocks = min (num_skipped_tokens div int (m_block_size m)) (int (length bs));
               (bs', removed) = remove_loop (null_block p) (nat num_skipped_blocks) bs []
           in rbind (free_blocks removed p) (\<lambda>p1. Inr (set_req rid bs' m, p1)))"

definition remove_skipped_blocks :: "string \<Rightarrow> int \<Rightarrow> kv_manager \<Rightarrow> block_pool \<Rightarrow> (kv_manager \<times> block_pool) res" where
  "remove_skipped_blocks rid total_computed_tokens m p =
     (case m_spec m of
        MambaSpec b mode k \<Rightarrow>
          let n = max 0 (total_computed_tokens - int k) in
          rbind (remove_skipped_base rid n m p) (\<lambda>(m1, p1).
            case (mode, map_of (last_state_block_idx m1) rid) of
              (MambaAlign, Some idx) \<Rightarrow>
                if idx < cdiv n (int (m_block_size m1)) - 1
                then let bs = req_blocks m1 rid;
                         j = (if idx < 0 then int (length bs) + idx else idx) in
                  (if j < 0 \<or> j \<ge> int (length bs) then Inl IndexError
                   else if bs ! nat j \<noteq> null_block p1
                   then rbind (free_blocks [bs ! nat j] p1) (\<lambda>p2.
                          Inr (set_req rid (bs[nat j := null_block p1]) m1, p2))
                   else Inr (set_req rid bs m1, p1))
                else Inr (m1, p1)
            | _ \<Rightarrow> Inr (m1, p1))
      | _ \<Rightarrow> remove_skipped_base rid total_computed_tokens m p)"

definition new_step_starts :: "kv_manager \<Rightarrow> kv_manager" where
  "new_step_starts m =
     (case m_spec m of MambaSpec b mode k \<Rightarrow> m\<lparr>cached_blocks_this_step := []\<rparr> | _ \<Rightarrow> m)"

definition get_num_common_prefix_blocks :: "string \<Rightarrow> kv_manager \<Rightarrow> block_pool \<Rightarrow> nat \<times> kv_manager" where
  "get_num_common_prefix_blocks rid m p =
     (if is_full_attention (m_spec m)
      then let m1 = set_req rid (req_blocks m rid) m
           in (length (takeWhile (\<lambda>b. rc p b = int (length (req_to_blocks m1))) (req_blocks m1 rid)), m1)
      else (0, m))"

end
