(* ===== verification/VL_Ledger.thy ===== *)
theory VL_Ledger
  imports VL_SingleType
begin

text \<open>
  Who holds which block.  The block tables of one manager are a multiset of references; the
  ledger of a manager relates them, together with the references of all other managers, to the
  reference counts and the free queue of the pool, and says which blocks of a table are not yet
  in the prefix cache.  Every operation of a manager keeps the ledger, and the frame says what it
  leaves alone for the managers that share the pool.  The last part is admission: the demand the
  manager reports is what attaching the hit blocks and extending the table then takes.
  Sink attention, Mamba and cross attention are outside these lemmas.
\<close>

subsection \<open>References held by block tables\<close>

definition held_refs :: "(string \<times> nat list) list \<Rightarrow> nat multiset" where
  "held_refs al = sum_list (map (mset \<circ> snd) al)"

definition mgr_refs :: "kv_manager \<Rightarrow> nat multiset" where
  "mgr_refs m = held_refs (req_to_blocks m)"

lemma held_refs_simps [simp]:
  "held_refs [] = {#}" "held_refs ((k, bs) # al) = mset bs + held_refs al"
  by (simp_all add: held_refs_def)

definition al_get :: "(string \<times> nat list) list \<Rightarrow> string \<Rightarrow> nat list" where
  "al_get al k = (case map_of al k of None \<Rightarrow> [] | Some bs \<Rightarrow> bs)"

lemma al_get_simps [simp]:
  "al_get [] k = []" "al_get ((k', bs) # al) k = (if k = k' then bs else al_get al k)"
  by (auto simp: al_get_def)

lemma req_blocks_al: "req_blocks m rid = al_get (req_to_blocks m) rid"
  by (simp add: req_blocks_def al_get_def)

lemma al_get_notin: "k \<notin> fst ` set al \<Longrightarrow> al_get al k = []"
  by (metis al_get_def map_of_eq_None_iff option.simps(4))

lemma held_refs_split:
  "distinct (map fst al) \<Longrightarrow> held_refs al = mset (al_get al k) + held_refs (AList.delete k al)"
proof (induction al)
  case (Cons a al)
  have "AList.delete k al = al" if "k \<notin> fst ` set al" using that by (simp add: delete_idem)
  then show ?case
    using Cons by (cases a) (auto simp: al_get_notin)
qed simp

lemma held_refs_update:
  "distinct (map fst al) \<Longrightarrow> held_refs (AList.update k bs al) + mset (al_get al k) = held_refs al + mset bs"
  by (induction al) (auto simp: al_get_notin)

lemma al_get_update [simp]: "al_get (AList.update k bs al) k' = (if k' = k then bs else al_get al k')"
  by (simp add: al_get_def update_conv')

lemma al_get_delete [simp]: "al_get (AList.delete k al) k' = (if k' = k then [] else al_get al k')"
  by (simp add: al_get_def delete_conv')

lemma held_refs_delete:
  "distinct (map fst al) \<Longrightarrow> held_refs (AList.delete k al) = held_refs al - mset (al_get al k)"
  using held_refs_split [of al k] by simp

lemma al_get_subset: "distinct (map fst al) \<Longrightarrow> mset (al_get al k) \<subseteq># held_refs al"
  using held_refs_split [of al k] by simp

lemma req_blocks_set [simp]: "req_blocks (set_req rid bs m) r = (if r = rid then bs else req_blocks m r)"
  by (simp add: req_blocks_al set_req_def)

lemma in_held_refs: "distinct (map fst al) \<Longrightarrow> b \<in># held_refs al \<longleftrightarrow> (\<exists>k. b \<in> set (al_get al k))"
proof (induction al)
  case (Cons a al)
  obtain k0 bs0 where a: "a = (k0, bs0)" by (cases a)
  have "al_get al k0 = []" using Cons.prems a by (simp add: al_get_notin)
  then show ?case
    using Cons a by (auto intro: exI [of _ k0]) (metis empty_iff list.set(1))+
qed simp

text \<open>The blocks a request holds, the null block left out.\<close>

definition real_blocks :: "block_pool \<Rightarrow> nat list \<Rightarrow> nat list" where
  "real_blocks p bs = filter (\<lambda>b. b \<noteq> null_block p) bs"

definition table_ok :: "block_pool \<Rightarrow> (string \<times> nat list) list \<Rightarrow> bool" where
  "table_ok p al \<longleftrightarrow> distinct (map fst al) \<and>
     (\<forall>k. set (al_get al k) \<subseteq> {..<num_gpu_blocks p} \<and> distinct (real_blocks p (al_get al k)))"

definition mgr_ok :: "kv_manager \<Rightarrow> block_pool \<Rightarrow> nat multiset \<Rightarrow> bool" where
  "mgr_ok m p refs \<longleftrightarrow> 0 < m_block_size m \<and> table_ok p (req_to_blocks m) \<and>
     distinct (map fst (num_cached_block m)) \<and>
     (\<forall>k. cached_count m k \<le> length (req_blocks m k)) \<and>
     (\<forall>k i. cached_count m k \<le> i \<and> i < length (req_blocks m k) \<and> req_blocks m k ! i \<noteq> null_block p \<longrightarrow>
        bhash p (req_blocks m k ! i) = None \<and> count refs (req_blocks m k ! i) = 1)"

definition ledger :: "kv_manager \<Rightarrow> block_pool \<Rightarrow> nat list \<Rightarrow> nat multiset \<Rightarrow> bool" where
  "ledger m p xs other \<longleftrightarrow> pool_inv p xs (mgr_refs m + other) \<and> mgr_ok m p (mgr_refs m + other) \<and>
     m_enable_caching m = enable_caching p \<and> (enable_caching p \<or> (\<forall>c<num_gpu_blocks p. bhash p c = None))"

text \<open>What an operation of one manager may change for the others.\<close>

definition frame :: "kv_manager \<Rightarrow> block_pool \<Rightarrow> kv_manager \<Rightarrow> block_pool \<Rightarrow> nat multiset \<Rightarrow> bool" where
  "frame m p m' p' other \<longleftrightarrow> same_config p p' \<and> m_spec m' = m_spec m \<and> m_block_size m' = m_block_size m \<and>
     m_enable_caching m' = m_enable_caching m \<and> m_group_id m' = m_group_id m \<and>
     (\<forall>c\<in>#other. c < num_gpu_blocks p \<and> c \<noteq> null_block p \<longrightarrow> bhash p' c = bhash p c \<and>
        (bhash p c = None \<longrightarrow> count (mgr_refs m') c \<le> count (mgr_refs m) c))"

lemma frame_refl [simp]: "frame m p m p other"
  by (simp add: frame_def)

lemma frame_trans: "frame m p m1 p1 other \<Longrightarrow> frame m1 p1 m2 p2 other \<Longrightarrow> frame m p m2 p2 other"
  unfolding frame_def same_config_def by (auto dest!: bspec intro: le_trans)

lemma pool_inv_refs_cong:
  "pool_inv p xs refs \<Longrightarrow> (\<And>b. b \<noteq> null_block p \<Longrightarrow> count refs b = count refs' b) \<Longrightarrow> pool_inv p xs refs'"
  by (simp add: pool_inv_def pool_refs_def)

lemma table_ok_config: "same_config p p' \<Longrightarrow> table_ok p' al = table_ok p al"
  by (simp add: table_ok_def same_config_def real_blocks_def)

lemma table_ok_update:
  "table_ok p al \<Longrightarrow> set bs \<subseteq> {..<num_gpu_blocks p} \<Longrightarrow> distinct (real_blocks p bs) \<Longrightarrow>
   table_ok p (AList.update k bs al)"
  by (simp add: table_ok_def distinct_update)

lemma table_ok_delete: "table_ok p al \<Longrightarrow> table_ok p (AList.delete k al)"
  by (simp add: table_ok_def distinct_delete real_blocks_def)

lemma cached_count_update [simp]:
  "cached_count (m\<lparr>num_cached_block := AList.update k n (num_cached_block m)\<rparr>) k' = (if k' = k then n else cached_count m k')"
  by (simp add: cached_count_def update_conv')


lemma ledger_cong:
  assumes "req_to_blocks m' = req_to_blocks m" "num_cached_block m' = num_cached_block m"
    "m_block_size m' = m_block_size m" "m_enable_caching m' = m_enable_caching m"
  shows "ledger m' p xs other = ledger m p xs other"
proof -
  have "req_blocks m' k = req_blocks m k" "cached_count m' k = cached_count m k" for k
    using assms by (simp_all add: req_blocks_al cached_count_def)
  then show ?thesis using assms by (simp add: ledger_def mgr_ok_def mgr_refs_def)
qed

lemma mgr_refs_set_req:
  "table_ok p (req_to_blocks m) \<Longrightarrow>
   mgr_refs (set_req rid bs m) + mset (req_blocks m rid) = mgr_refs m + mset bs"
  by (simp add: mgr_refs_def set_req_def held_refs_update table_ok_def req_blocks_al)

lemma set_req_simps [simp]:
  "m_block_size (set_req rid bs m) = m_block_size m" "m_spec (set_req rid bs m) = m_spec m"
  "m_enable_caching (set_req rid bs m) = m_enable_caching m" "m_group_id (set_req rid bs m) = m_group_id m"
  "num_cached_block (set_req rid bs m) = num_cached_block m" "cached_count (set_req rid bs m) k = cached_count m k"
  "req_to_blocks (set_req rid bs m) = AList.update rid bs (req_to_blocks m)"
  "new_block_ids (set_req rid bs m) = new_block_ids m"
  by (simp_all add: set_req_def cached_count_def)

lemma ledger_table:
  assumes "ledger m p xs other"
  shows "table_ok p (req_to_blocks m)" "set (req_blocks m k) \<subseteq> {..<num_gpu_blocks p}"
    "distinct (real_blocks p (req_blocks m k))" "cached_count m k \<le> length (req_blocks m k)" "0 < m_block_size m"
  using assms by (auto simp: ledger_def mgr_ok_def table_ok_def req_blocks_al)

lemma ledger_held: "ledger m p xs other \<Longrightarrow> mset (req_blocks m k) \<subseteq># mgr_refs m"
  by (auto simp: ledger_def mgr_ok_def table_ok_def req_blocks_al mgr_refs_def al_get_subset)

lemma ledger_grow:
  assumes l: "ledger m p (new @ ys) other"
  shows "\<exists>p'. get_new_blocks (length new) p = Inr (new, p') \<and>
    ledger (set_req rid (req_blocks m rid @ new) m) p' ys other \<and>
    frame m p (set_req rid (req_blocks m rid @ new) m) p' other \<and>
    (\<forall>c. c \<notin> set new \<longrightarrow> bhash p' c = bhash p c)"
proof -
  define m' where "m' = set_req rid (req_blocks m rid @ new) m"
  have inv: "pool_inv p (new @ ys) (mgr_refs m + other)" using l by (simp add: ledger_def)
  obtain p' where p': "get_new_blocks (length new) p = Inr (new, p')"
    "pool_inv p' ys (mgr_refs m + other + mset new)" "same_config p p'"
    "\<forall>c. bhash p' c = (if c \<in> set new \<and> enable_caching p then None else bhash p c)"
    using get_new_blocks_inv [OF inv] by blast
  have cfg: "num_gpu_blocks p' = num_gpu_blocks p" "null_block p' = null_block p" "enable_caching p' = enable_caching p"
    using p'(3) by (simp_all add: same_config_def)
  have new: "b < num_gpu_blocks p \<and> b \<noteq> null_block p \<and> b \<notin># mgr_refs m + other" if "b \<in> set new" for b
    using pool_inv_xs [OF inv] pool_inv_free_iff(1) [OF inv] that by auto
  have refs: "mgr_refs m' = mgr_refs m + mset new"
    using mgr_refs_set_req [OF ledger_table(1) [OF l], of rid "req_blocks m rid @ new"] by (simp add: m'_def)
  have none: "bhash p' c = None" if "c \<in> set new" for c
    using p'(4) l new that by (auto simp: ledger_def)
  have dn: "distinct new" using pool_inv_distinct [OF inv] by simp
  have held: "c \<in># mgr_refs m" if "c \<in> set (req_blocks m k)" for c k
    using ledger_held [OF l, of k] that by (meson mset_subset_eqD set_mset_mset in_multiset_in_set)
  have cnt: "count (mgr_refs m' + other) c = (if c \<in> set new then 1 else count (mgr_refs m + other) c)" for c
  proof (cases "c \<in> set new")
    case True
    then have "count (mgr_refs m + other) c = 0" using new by (simp add: not_in_iff)
    then show ?thesis using True refs dn by (simp add: distinct_count_atmost_1)
  next
    case False
    then show ?thesis using refs by (simp flip: count_mset)
  qed
  have "mgr_ok m' p' (mgr_refs m' + other)"
    unfolding mgr_ok_def
  proof (intro conjI allI impI)
    have "set (req_blocks m rid @ new) \<subseteq> {..<num_gpu_blocks p'}"
      using ledger_table(2) [OF l, of rid] new cfg by auto
    moreover have "distinct (real_blocks p' (req_blocks m rid @ new))"
      using ledger_table(3) [OF l, of rid] dn new held cfg by (auto simp: real_blocks_def)
    ultimately show "table_ok p' (req_to_blocks m')"
      using ledger_table(1) [OF l] by (simp add: m'_def table_ok_update table_ok_config [OF p'(3), symmetric])
  next
    fix k i
    assume a: "cached_count m' k \<le> i \<and> i < length (req_blocks m' k) \<and> req_blocks m' k ! i \<noteq> null_block p'"
    then have "(\<exists>b. b \<in> set new \<and> req_blocks m' k ! i = b) \<or>
        (cached_count m k \<le> i \<and> i < length (req_blocks m k) \<and> req_blocks m' k ! i = req_blocks m k ! i)"
      by (auto simp: m'_def nth_append split: if_splits)
    then have "bhash p' (req_blocks m' k ! i) = None \<and> count (mgr_refs m' + other) (req_blocks m' k ! i) = 1"
    proof (elim disjE exE conjE)
      fix b assume "b \<in> set new" "req_blocks m' k ! i = b"
      then show ?thesis using none cnt by auto
    next
      assume b: "cached_count m k \<le> i" "i < length (req_blocks m k)" "req_blocks m' k ! i = req_blocks m k ! i"
      then have o: "bhash p (req_blocks m k ! i) = None \<and> count (mgr_refs m + other) (req_blocks m k ! i) = 1"
        using l a cfg by (auto simp: ledger_def mgr_ok_def)
      moreover have "req_blocks m k ! i \<notin> set new"
        using o new [of "req_blocks m k ! i"] by (metis count_eq_zero_iff zero_neq_one)
      ultimately show ?thesis using b p'(4) cnt by auto
    qed
    then show "bhash p' (req_blocks m' k ! i) = None" "count (mgr_refs m' + other) (req_blocks m' k ! i) = 1"
      by auto
  qed (use l in \<open>auto simp: ledger_def mgr_ok_def m'_def trans_le_add1\<close>)
  moreover have "pool_inv p' ys (mgr_refs m' + other)"
    using p'(2) refs by (simp add: ac_simps)
  moreover have "enable_caching p' \<or> (\<forall>c<num_gpu_blocks p'. bhash p' c = None)"
    using l p'(4) cfg by (auto simp: ledger_def)
  ultimately have "ledger m' p' ys other" using l cfg by (simp add: ledger_def m'_def)
  moreover have "frame m p m' p' other"
  proof -
    have "bhash p' c = bhash p c \<and> count (mgr_refs m') c \<le> count (mgr_refs m) c" if "c \<in># other" for c
    proof -
      have "c \<notin> set new" using new that by auto
      then show ?thesis using p'(4) refs by (simp flip: count_mset)
    qed
    then show ?thesis using p'(3) by (simp add: frame_def m'_def)
  qed
  moreover have "\<forall>c. c \<notin> set new \<longrightarrow> bhash p' c = bhash p c" using p'(4) by simp
  ultimately show ?thesis using p'(1) unfolding m'_def by blast
qed

lemma held_twice:
  assumes "table_ok p (req_to_blocks m)" "k \<noteq> rid" "c \<in> set (req_blocks m k)" "c \<in> set (req_blocks m rid)"
  shows "2 \<le> count (mgr_refs m) c"
proof -
  let ?al = "AList.delete rid (req_to_blocks m)"
  have d: "distinct (map fst (req_to_blocks m))" using assms(1) by (simp add: table_ok_def)
  have "mgr_refs m = mset (req_blocks m rid) + held_refs ?al"
    using held_refs_split [OF d] by (simp add: mgr_refs_def req_blocks_al)
  then have "count (mgr_refs m) c = count (mset (req_blocks m rid)) c + count (held_refs ?al) c"
    by (simp only: count_union)
  moreover have "mset (req_blocks m k) \<subseteq># held_refs ?al"
    using al_get_subset [of ?al k] d assms(2) by (simp add: distinct_delete req_blocks_al)
  then have "count (mset (req_blocks m k)) c \<le> count (held_refs ?al) c"
    by (simp only: subseteq_mset_def)
  moreover have "0 < count (mset (req_blocks m k)) c" "0 < count (mset (req_blocks m rid)) c"
    using assms(3,4) by (simp_all del: count_mset)
  ultimately show ?thesis by linarith
qed

lemma held_other_twice:
  assumes "ledger m p xs other" "c \<in># other" "c \<in> set (req_blocks m k)"
  shows "2 \<le> count (mgr_refs m + other) c"
proof -
  have "c \<in># mgr_refs m"
    using ledger_held [OF assms(1), of k] assms(3) by (meson mset_subset_eqD in_multiset_in_set)
  then have "0 < count (mgr_refs m) c" "0 < count other c" using assms(2) by simp_all
  then show ?thesis unfolding count_union by linarith
qed

lemma ledger_uncached:
  assumes "ledger m p xs other" "cached_count m k \<le> i" "i < length (req_blocks m k)" "req_blocks m k ! i \<noteq> null_block p"
  shows "bhash p (req_blocks m k ! i) = None" "count (mgr_refs m + other) (req_blocks m k ! i) = 1"
  using assms by (auto simp: ledger_def mgr_ok_def)

lemma count_req_blocks:
  assumes "ledger m p xs other" "c \<noteq> null_block p"
  shows "count (mset (req_blocks m k)) c = (if c \<in> set (req_blocks m k) then 1 else 0)"
proof -
  have "count (mset (real_blocks p (req_blocks m k))) c = (if c \<in> set (real_blocks p (req_blocks m k)) then 1 else 0)"
    using ledger_table(3) [OF assms(1)] by (simp only: distinct_count_atmost_1)
  moreover have "count (mset (real_blocks p (req_blocks m k))) c = count (mset (req_blocks m k)) c"
    using assms(2) by (simp add: real_blocks_def mset_filter del: count_mset)
  ultimately show ?thesis using assms(2) by (simp only: real_blocks_def set_filter mem_Collect_eq simp_thms)
qed

text \<open>The tables change, the pool does: the general step of all remaining operations.\<close>

lemma ledger_set:
  assumes l: "ledger m p xs other" and cfg: "same_config p p'"
    and inv: "pool_inv p' xs' (mgr_refs m' + other)"
    and m': "m_block_size m' = m_block_size m" "m_enable_caching m' = m_enable_caching m"
      "distinct (map fst (num_cached_block m'))" "table_ok p (req_to_blocks m')"
    and same: "\<And>k. k \<noteq> rid \<Longrightarrow> req_blocks m' k = req_blocks m k \<and> cached_count m' k = cached_count m k"
    and hash: "\<And>k i. k \<noteq> rid \<Longrightarrow> cached_count m k \<le> i \<Longrightarrow> i < length (req_blocks m k) \<Longrightarrow>
      req_blocks m k ! i \<noteq> null_block p \<Longrightarrow>
      bhash p' (req_blocks m k ! i) = None \<and> count (mgr_refs m' + other) (req_blocks m k ! i) = 1"
    and own: "cached_count m' rid \<le> length (req_blocks m' rid)"
      "\<And>i. cached_count m' rid \<le> i \<Longrightarrow> i < length (req_blocks m' rid) \<Longrightarrow> req_blocks m' rid ! i \<noteq> null_block p \<Longrightarrow>
      bhash p' (req_blocks m' rid ! i) = None \<and> count (mgr_refs m' + other) (req_blocks m' rid ! i) = 1"
    and cach: "enable_caching p \<or> (\<forall>c<num_gpu_blocks p. bhash p' c = None)"
  shows "ledger m' p' xs' other"
proof -
  have c: "num_gpu_blocks p' = num_gpu_blocks p" "null_block p' = null_block p" "enable_caching p' = enable_caching p"
    using cfg by (simp_all add: same_config_def)
  have "mgr_ok m' p' (mgr_refs m' + other)"
    unfolding mgr_ok_def
  proof (intro conjI allI impI)
    show "0 < m_block_size m'" using ledger_table(5) [OF l] m' by simp
    show "table_ok p' (req_to_blocks m')" using m'(4) table_ok_config [OF cfg] by simp
    show "distinct (map fst (num_cached_block m'))" by (rule m'(3))
  next
    fix k
    show "cached_count m' k \<le> length (req_blocks m' k)"
      using own(1) same ledger_table(4) [OF l] by (cases "k = rid") auto
  next
    fix k i
    assume "cached_count m' k \<le> i \<and> i < length (req_blocks m' k) \<and> req_blocks m' k ! i \<noteq> null_block p'"
    then have "bhash p' (req_blocks m' k ! i) = None \<and> count (mgr_refs m' + other) (req_blocks m' k ! i) = 1"
      using own(2) hash same c by (cases "k = rid") auto
    then show "bhash p' (req_blocks m' k ! i) = None" "count (mgr_refs m' + other) (req_blocks m' k ! i) = 1"
      by auto
  qed
  then show ?thesis
    using inv l m'(2) c cach by (simp add: ledger_def)
qed

lemma ledger_touch:
  assumes l: "ledger m p xs other" and empty: "req_blocks m rid = []"
    and rng: "set computed \<subseteq> {..<num_gpu_blocks p}" "distinct (real_blocks p computed)"
    and hashed: "\<And>b. b \<in> set computed \<Longrightarrow> b \<noteq> null_block p \<Longrightarrow> bhash p b \<noteq> None"
    and m': "m' = (set_req rid (replicate n (null_block p) @ computed) m)
      \<lparr>num_cached_block := AList.update rid (n + length computed) (num_cached_block m)\<rparr>"
  shows "\<exists>p'. touch computed p = Inr p' \<and> ledger m' p' (filter (\<lambda>b. b \<notin> set computed) xs) other \<and>
    frame m p m' p' other \<and> (\<forall>c. bhash p' c = bhash p c)"
proof -
  have inv: "pool_inv p xs (mgr_refs m + other)" using l by (simp add: ledger_def)
  obtain p' where p': "touch computed p = Inr p'"
    "pool_inv p' (filter (\<lambda>b. b \<notin> set computed) xs) (mgr_refs m + other + mset computed)"
    "same_config p p'" "\<forall>c. bhash p' c = bhash p c"
    using touch_inv [OF inv] rng by blast
  have null: "null_block p' = null_block p" using p'(3) by (simp add: same_config_def)
  have "mgr_refs m' = mgr_refs m + mset (replicate n (null_block p) @ computed)"
    using mgr_refs_set_req [OF ledger_table(1) [OF l], of rid "replicate n (null_block p) @ computed"] empty
    by (simp add: m' mgr_refs_def)
  then have cnt: "count (mgr_refs m') c = count (mgr_refs m) c + count (mset computed) c" if "c \<noteq> null_block p" for c
    using that by (simp del: count_mset)
  have nc: "count (mset computed) c = 0" if "bhash p c = None" "c \<noteq> null_block p" for c
    using hashed that by (metis count_eq_zero_iff set_mset_mset)
  have rb: "req_blocks m' k = (if k = rid then replicate n (null_block p) @ computed else req_blocks m k)"
    "cached_count m' k = (if k = rid then n + length computed else cached_count m k)" for k
    by (simp_all add: m' req_blocks_al cached_count_def update_conv')
  have "ledger m' p' (filter (\<lambda>b. b \<notin> set computed) xs) other"
  proof (rule ledger_set [OF l p'(3), where rid = rid])
    show "pool_inv p' (filter (\<lambda>b. b \<notin> set computed) xs) (mgr_refs m' + other)"
      by (rule pool_inv_refs_cong [OF p'(2)]) (simp add: cnt null del: count_mset)
    show "distinct (map fst (num_cached_block m'))"
      using l by (simp add: m' ledger_def mgr_ok_def distinct_update)
    have null_lt: "null_block p < num_gpu_blocks p" using inv by (simp add: pool_defs)
    show "table_ok p (req_to_blocks m')"
      using ledger_table(1) [OF l] rng null_lt
      by (auto simp: m' intro!: table_ok_update simp: real_blocks_def filter_empty_conv)
    show "enable_caching p \<or> (\<forall>c<num_gpu_blocks p. bhash p' c = None)"
      using l p'(4) by (simp add: ledger_def)
    show "bhash p' (req_blocks m k ! i) = None \<and> count (mgr_refs m' + other) (req_blocks m k ! i) = 1"
      if "cached_count m k \<le> i" "i < length (req_blocks m k)" "req_blocks m k ! i \<noteq> null_block p" for k i
      using ledger_uncached [OF l that] nc [OF _ that(3)] cnt [OF that(3)] p'(4) unfolding count_union by presburger
  qed (auto simp: rb, simp_all add: m')
  moreover have "frame m p m' p' other"
    using p'(3,4) cnt nc by (auto simp: frame_def m' simp del: count_mset)
  ultimately show ?thesis using p'(1,4) by blast
qed

text \<open>Giving back blocks of one request.\<close>

lemma ledger_release:
  assumes l: "ledger m p xs other"
    and m': "m_spec m' = m_spec m" "m_block_size m' = m_block_size m" "m_enable_caching m' = m_enable_caching m"
      "m_group_id m' = m_group_id m" "distinct (map fst (num_cached_block m'))" "table_ok p (req_to_blocks m')"
    and same: "\<And>k. k \<noteq> rid \<Longrightarrow> req_blocks m' k = req_blocks m k \<and> cached_count m' k = cached_count m k"
    and rem: "set removed \<subseteq> set (req_blocks m rid)" "distinct (real_blocks p removed)"
    and refs: "\<And>c. c \<noteq> null_block p \<Longrightarrow> count (mgr_refs m') c + count (mset removed) c = count (mgr_refs m) c"
    and own: "cached_count m' rid \<le> length (req_blocks m' rid)"
      "\<And>i. cached_count m' rid \<le> i \<Longrightarrow> i < length (req_blocks m' rid) \<Longrightarrow> req_blocks m' rid ! i \<noteq> null_block p \<Longrightarrow>
        cached_count m rid \<le> i \<and> i < length (req_blocks m rid) \<and> req_blocks m' rid ! i = req_blocks m rid ! i \<and>
        req_blocks m rid ! i \<notin> set removed"
  shows "\<exists>p'. free_blocks removed p = Inr p' \<and>
    ledger m' p' (xs @ filter (\<lambda>b. b \<noteq> null_block p \<and> count (mgr_refs m + other) b = 1) removed) other \<and>
    frame m p m' p' other \<and> (\<forall>c<num_gpu_blocks p. bhash p' c = bhash p c)"
proof -
  have inv: "pool_inv p xs (mgr_refs m + other)" using l by (simp add: ledger_def)
  have in_m: "b \<in># mgr_refs m" if "b \<in> set removed" for b
    using ledger_held [OF l, of rid] rem(1) that by (meson mset_subset_eqD in_multiset_in_set subsetD)
  obtain p' where p': "free_blocks removed p = Inr p'"
    "pool_inv p' (xs @ filter (\<lambda>b. b \<noteq> null_block p \<and> count (mgr_refs m + other) b = 1) removed)
       (mgr_refs m + other - mset removed)"
    "same_config p p'" "\<forall>c<num_gpu_blocks p. bhash p' c = bhash p c"
  proof -
    have "\<forall>b\<in>set removed. b < num_gpu_blocks p" using ledger_table(2) [OF l, of rid] rem(1) by auto
    moreover have "distinct (filter (\<lambda>b. b \<noteq> null_block p) removed)" using rem(2) by (simp add: real_blocks_def)
    moreover have "\<forall>b\<in>set removed. b \<noteq> null_block p \<longrightarrow> b \<in># mgr_refs m + other" using in_m by auto
    ultimately show ?thesis using free_blocks_inv [OF inv] that by blast
  qed
  have null: "null_block p' = null_block p" using p'(3) by (simp add: same_config_def)
  have lt: "req_blocks m k ! i < num_gpu_blocks p" if "i < length (req_blocks m k)" for k i
    using ledger_table(2) [OF l, of k] that nth_mem by fastforce
  have keep: "bhash p' c = None \<and> count (mgr_refs m' + other) c = 1"
    if "bhash p c = None" "count (mgr_refs m + other) c = 1" "c \<noteq> null_block p" "c < num_gpu_blocks p" "c \<notin> set removed" for c
  proof -
    have "count (mset removed) c = 0" using that(5) by simp
    then have "count (mgr_refs m') c = count (mgr_refs m) c" using refs [OF that(3)] by linarith
    then show ?thesis using that p'(4) by simp
  qed
  have "ledger m' p' (xs @ filter (\<lambda>b. b \<noteq> null_block p \<and> count (mgr_refs m + other) b = 1) removed) other"
  proof (rule ledger_set [OF l p'(3) _ m'(2,3,5,6) same])
    show "pool_inv p' (xs @ filter (\<lambda>b. b \<noteq> null_block p \<and> count (mgr_refs m + other) b = 1) removed) (mgr_refs m' + other)"
    proof (rule pool_inv_refs_cong [OF p'(2)])
      fix b assume "b \<noteq> null_block p'"
      then have "count (mgr_refs m') b + count (mset removed) b = count (mgr_refs m) b" using refs null by simp
      then show "count (mgr_refs m + other - mset removed) b = count (mgr_refs m' + other) b"
        unfolding count_diff count_union by linarith
    qed
    show "bhash p' (req_blocks m k ! i) = None \<and> count (mgr_refs m' + other) (req_blocks m k ! i) = 1"
      if a: "k \<noteq> rid" "cached_count m k \<le> i" "i < length (req_blocks m k)" "req_blocks m k ! i \<noteq> null_block p" for k i
    proof (rule keep)
      show "req_blocks m k ! i \<notin> set removed"
      proof
        assume "req_blocks m k ! i \<in> set removed"
        then have "2 \<le> count (mgr_refs m) (req_blocks m k ! i)"
          using held_twice [OF ledger_table(1) [OF l] a(1)] a(3) rem(1) by auto
        then show False using ledger_uncached(2) [OF l a(2-4)] unfolding count_union by linarith
      qed
    qed (use ledger_uncached [OF l a(2-4)] a lt in auto)
    show "bhash p' (req_blocks m' rid ! i) = None \<and> count (mgr_refs m' + other) (req_blocks m' rid ! i) = 1"
      if "cached_count m' rid \<le> i" "i < length (req_blocks m' rid)" "req_blocks m' rid ! i \<noteq> null_block p" for i
    proof -
      have b: "cached_count m rid \<le> i" "i < length (req_blocks m rid)" "req_blocks m' rid ! i = req_blocks m rid ! i"
        "req_blocks m rid ! i \<notin> set removed" using own(2) [OF that] by auto
      show ?thesis using keep [of "req_blocks m rid ! i"] ledger_uncached [OF l b(1,2)] that(3) b lt by auto
    qed
    show "enable_caching p \<or> (\<forall>c<num_gpu_blocks p. bhash p' c = None)"
      using l p'(4) by (auto simp: ledger_def)
  qed (use own(1) in auto)
  moreover have "count (mgr_refs m') c \<le> count (mgr_refs m) c" if "c \<noteq> null_block p" for c
    using refs [OF that] by linarith
  then have "frame m p m' p' other"
    using p'(3,4) m' by (simp add: frame_def)
  ultimately show ?thesis using p'(1,4) by blast
qed

lemma ledger_free:
  assumes l: "ledger m p xs other" and spec: "\<And>b k. m_spec m \<noteq> MambaSpec b MambaAlign k"
  shows "\<exists>m' p'. free_request rid m p = Inr (m', p') \<and>
    ledger m' p' (xs @ filter (\<lambda>b. b \<noteq> null_block p \<and> count (mgr_refs m + other) b = 1) (rev (req_blocks m rid))) other \<and>
    frame m p m' p' other \<and> (\<forall>k. req_blocks m' k = (if k = rid then [] else req_blocks m k)) \<and>
    (\<forall>k. map_of (num_cached_block m') k = (if k = rid then None else map_of (num_cached_block m) k)) \<and>
    (\<forall>c<num_gpu_blocks p. bhash p' c = bhash p c)"
proof -
  define m' where "m' = m\<lparr>req_to_blocks := AList.delete rid (req_to_blocks m),
    num_cached_block := AList.delete rid (num_cached_block m)\<rparr>"
  have t: "table_ok p (req_to_blocks m)" by (rule ledger_table(1) [OF l])
  have rb: "req_blocks m' k = (if k = rid then [] else req_blocks m k)"
    "cached_count m' k = (if k = rid then 0 else cached_count m k)" for k
    by (simp_all add: m'_def req_blocks_al cached_count_def delete_conv')
  have m0: "(case m_spec m of MambaSpec b MambaAlign k \<Rightarrow>
      m\<lparr>allocated_block_reqs := removeAll rid (allocated_block_reqs m),
        last_state_block_idx := AList.delete rid (last_state_block_idx m)\<rparr> | _ \<Rightarrow> m) = m"
    using spec by (simp split: kv_cache_spec.split mamba_mode.split)
  have f: "free_request rid m p = rbind (free_blocks (rev (req_blocks m rid)) p) (\<lambda>p1. Inr (m', p1))"
    by (simp add: free_request_def m0 Let_def m'_def)
  have "\<exists>p'. free_blocks (rev (req_blocks m rid)) p = Inr p' \<and>
    ledger m' p' (xs @ filter (\<lambda>b. b \<noteq> null_block p \<and> count (mgr_refs m + other) b = 1) (rev (req_blocks m rid))) other \<and>
    frame m p m' p' other \<and> (\<forall>c<num_gpu_blocks p. bhash p' c = bhash p c)"
  proof (rule ledger_release [OF l, where rid = rid])
    show "distinct (map fst (num_cached_block m'))"
      using l by (simp add: m'_def ledger_def mgr_ok_def distinct_delete)
    show "table_ok p (req_to_blocks m')" using table_ok_delete [OF t] by (simp add: m'_def)
    show "distinct (real_blocks p (rev (req_blocks m rid)))"
      using ledger_table(3) [OF l, of rid] by (simp add: real_blocks_def flip: rev_filter)
    have "mgr_refs m = mset (req_blocks m rid) + mgr_refs m'"
      using t held_refs_split [of "req_to_blocks m" rid] by (simp add: mgr_refs_def m'_def table_ok_def req_blocks_al)
    then show "count (mgr_refs m') c + count (mset (rev (req_blocks m rid))) c = count (mgr_refs m) c" for c
      by (simp only: count_union mset_rev add.commute)
  qed (simp_all add: rb m'_def [symmetric], simp_all add: m'_def)
  then show ?thesis
    using f rb by (auto simp: m'_def delete_conv')
qed

text \<open>The loop of \<open>remove_skipped_blocks\<close> stops at the first null block from the right.\<close>

lemma slice_nth: "b \<le> length xs \<Longrightarrow> i < b - a \<Longrightarrow> slice a b xs ! i = xs ! (a + i)"
  by (simp add: slice_def)

lemma slice_snoc: "j \<le> n \<Longrightarrow> n < length xs \<Longrightarrow> slice j (Suc n) xs = slice j n xs @ [xs ! n]"
  by (simp add: slice_def Suc_diff_le take_Suc_conv_app_nth)

lemma slice_split:
  assumes "i \<le> j"
  shows "xs = take i xs @ slice i j xs @ drop j xs"
proof -
  have "take j xs = take i xs @ slice i j xs"
    using assms take_add [of i "j - i" xs] by (simp add: slice_def)
  then show ?thesis by (metis append.assoc append_take_drop_id)
qed

lemma remove_loop_spec:
  assumes "n \<le> length bs"
  obtains j where "j \<le> n" "remove_loop nullb n bs removed
      = (take j bs @ replicate (n - j) nullb @ drop n bs, removed @ rev (slice j n bs))"
    "\<forall>i. j \<le> i \<and> i < n \<longrightarrow> bs ! i \<noteq> nullb" "j = 0 \<or> bs ! (j - 1) = nullb"
proof -
  have "\<exists>j\<le>n. remove_loop nullb n bs removed
      = (take j bs @ replicate (n - j) nullb @ drop n bs, removed @ rev (slice j n bs)) \<and>
    (\<forall>i. j \<le> i \<and> i < n \<longrightarrow> bs ! i \<noteq> nullb) \<and> (j = 0 \<or> bs ! (j - 1) = nullb)"
    using assms
  proof (induction n arbitrary: bs removed)
    case 0
    then show ?case by (simp add: slice_def)
  next
    case (Suc n)
    show ?case
    proof (cases "bs ! n = nullb")
      case True
      then show ?thesis by (intro exI [of _ "Suc n"]) (auto simp: slice_def)
    next
      case False
      obtain j where j: "j \<le> n" "remove_loop nullb n (bs[n := nullb]) (removed @ [bs ! n])
          = (take j (bs[n := nullb]) @ replicate (n - j) nullb @ drop n (bs[n := nullb]),
             (removed @ [bs ! n]) @ rev (slice j n (bs[n := nullb])))"
        "\<forall>i. j \<le> i \<and> i < n \<longrightarrow> bs[n := nullb] ! i \<noteq> nullb" "j = 0 \<or> bs[n := nullb] ! (j - 1) = nullb"
      proof -
        have "n \<le> length (bs[n := nullb])" using Suc.prems by simp
        from Suc.IH [OF this, of "removed @ [bs ! n]"] show ?thesis using that by blast
      qed
      have "drop n (bs[n := nullb]) = nullb # drop (Suc n) bs"
        using Suc.prems by (simp add: Cons_nth_drop_Suc [symmetric])
      then have "replicate (n - j) nullb @ drop n (bs[n := nullb]) = replicate (Suc n - j) nullb @ drop (Suc n) bs"
        using j(1) by (simp add: Suc_diff_le replicate_app_Cons_same)
      moreover have "slice j n (bs[n := nullb]) = slice j n bs"
        by (simp add: slice_def drop_update_swap take_update_cancel j(1))
      ultimately show ?thesis
        using j False Suc.prems
        by (intro exI [of _ j]) (auto simp: slice_snoc less_Suc_eq nth_list_update split: if_splits)
    qed
  qed
  then show thesis using that by blast
qed

lemma ledger_remove_skipped:
  assumes l: "ledger m p xs other"
  obtains m' p' xs' where "remove_skipped_base rid n m p = Inr (m', p')" "ledger m' p' xs' other"
    "frame m p m' p' other" "num_cached_block m' = num_cached_block m" "\<And>k. k \<noteq> rid \<Longrightarrow> req_blocks m' k = req_blocks m k"
    "length (req_blocks m' rid) = length (req_blocks m rid)"
    "length xs \<le> length xs'" "\<And>c. c < num_gpu_blocks p \<Longrightarrow> bhash p' c = bhash p c"
proof (cases "get_num_skipped_tokens (m_spec m) n \<le> 0")
  case True
  then show thesis using l by (intro that [of m p xs]) (auto simp: remove_skipped_base_def)
next
  case False
  define bs where "bs = req_blocks m rid"
  define k where "k = nat (min (get_num_skipped_tokens (m_spec m) n div int (m_block_size m)) (int (length bs)))"
  have "k \<le> length bs" by (simp add: k_def)
  then obtain j where j: "j \<le> k" "remove_loop (null_block p) k bs []
      = (take j bs @ replicate (k - j) (null_block p) @ drop k bs, rev (slice j k bs))"
    "\<forall>i. j \<le> i \<and> i < k \<longrightarrow> bs ! i \<noteq> null_block p"
    by (rule remove_loop_spec [where removed = "[]"]) auto
  define bs' where "bs' = take j bs @ replicate (k - j) (null_block p) @ drop k bs"
  define m' where "m' = set_req rid bs' m"
  have e: "remove_skipped_base rid n m p = rbind (free_blocks (rev (slice j k bs)) p) (\<lambda>p1. Inr (m', p1))"
    using False j(2) by (simp add: remove_skipped_base_def Let_def bs_def [symmetric] k_def [symmetric] bs'_def m'_def)
  have split: "bs = take j bs @ slice j k bs @ drop k bs"
    by (rule slice_split [OF j(1)])
  have len: "length bs' = length bs"
    using j(1) \<open>k \<le> length bs\<close> by (simp add: bs'_def)
  have nth: "bs' ! i = (if j \<le> i \<and> i < k then null_block p else bs ! i)" if "i < length bs" for i
    using that j(1) \<open>k \<le> length bs\<close> by (auto simp: bs'_def nth_append)
  have dist: "distinct (filter (\<lambda>b. b \<noteq> null_block p) bs)"
    using ledger_table(3) [OF l, of rid] by (simp add: real_blocks_def bs_def)
  have dist3: "distinct (filter (\<lambda>b. b \<noteq> null_block p) (take j bs @ slice j k bs @ drop k bs))"
    using dist split by simp
  have "\<exists>p'. free_blocks (rev (slice j k bs)) p = Inr p' \<and>
    ledger m' p' (xs @ filter (\<lambda>b. b \<noteq> null_block p \<and> count (mgr_refs m + other) b = 1) (rev (slice j k bs))) other \<and>
    frame m p m' p' other \<and> (\<forall>c<num_gpu_blocks p. bhash p' c = bhash p c)"
  proof (rule ledger_release [OF l, where rid = rid])
    show "distinct (map fst (num_cached_block m'))" using l by (simp add: m'_def ledger_def mgr_ok_def)
    have "null_block p < num_gpu_blocks p" using l by (simp add: ledger_def pool_defs)
    moreover have "set bs' \<subseteq> insert (null_block p) (set bs)"
      by (auto simp: bs'_def dest: in_set_takeD in_set_dropD)
    moreover have "distinct (real_blocks p bs')"
      using dist3 by (auto simp: real_blocks_def bs'_def)
    ultimately show "table_ok p (req_to_blocks m')"
      using ledger_table(1) [OF l] ledger_table(2) [OF l, of rid] by (auto simp: m'_def bs_def intro!: table_ok_update)
    show "set (rev (slice j k bs)) \<subseteq> set (req_blocks m rid)"
      by (auto simp: slice_def bs_def dest: in_set_takeD in_set_dropD)
    show "distinct (real_blocks p (rev (slice j k bs)))"
      using dist3 by (simp add: real_blocks_def flip: rev_filter)
    show "count (mgr_refs m') c + count (mset (rev (slice j k bs))) c = count (mgr_refs m) c" if "c \<noteq> null_block p" for c
    proof -
      have "mset bs = mset (take j bs) + mset (slice j k bs) + mset (drop k bs)"
        using split by (metis mset_append add.assoc)
      moreover have "count (mset (replicate (k - j) (null_block p))) c = 0"
        using that by (simp del: count_mset)
      ultimately have "count (mset bs') c + count (mset (slice j k bs)) c = count (mset bs) c"
        unfolding bs'_def mset_append count_union by (simp only: count_union)
      moreover have "count (mgr_refs m') c + count (mset bs) c = count (mgr_refs m) c + count (mset bs') c"
        using mgr_refs_set_req [OF ledger_table(1) [OF l], of rid bs'] unfolding m'_def bs_def by (metis count_union)
      ultimately show ?thesis unfolding mset_rev by linarith
    qed
    show "cached_count m' rid \<le> i \<Longrightarrow> i < length (req_blocks m' rid) \<Longrightarrow> req_blocks m' rid ! i \<noteq> null_block p \<Longrightarrow>
        cached_count m rid \<le> i \<and> i < length (req_blocks m rid) \<and> req_blocks m' rid ! i = req_blocks m rid ! i \<and>
        req_blocks m rid ! i \<notin> set (rev (slice j k bs))" for i
    proof -
      assume a: "cached_count m' rid \<le> i" "i < length (req_blocks m' rid)" "req_blocks m' rid ! i \<noteq> null_block p"
      then have i: "i < length bs" "bs ! i \<noteq> null_block p" "i < j \<or> k \<le> i" "bs' ! i = bs ! i"
        using len nth [of i] by (auto simp: m'_def split: if_splits)
      have "bs ! i \<in> set (take j bs) \<union> set (drop k bs)"
        using i(1,3) by (elim disjE) (auto simp: in_set_conv_nth intro: exI [of _ i] exI [of _ "i - k"])
      then have "bs ! i \<notin> set (slice j k bs)"
        using dist3 i(2) by auto
      then show ?thesis using a i by (simp add: m'_def bs_def)
    qed
  qed (use ledger_table(4) [OF l] len in \<open>simp_all add: m'_def bs_def\<close>)
  then show thesis
    using e len by (auto simp: m'_def bs_def intro!: that)
qed

definition hashes_for :: "request \<Rightarrow> nat \<Rightarrow> nat \<Rightarrow> nat \<Rightarrow> bool" where
  "hashes_for r hbs bs n \<longleftrightarrow> n \<le> length (block_hashes r) \<and>
     (bs = hbs \<or> (bs mod hbs = 0 \<and> n \<le> length (block_hashes r) div (bs div hbs)))"

lemma cache_mask_ok:
  assumes "n < al"
  shows "\<exists>bm. cache_block_mask spec n nc nf al = Inr bm \<and> (case bm of None \<Rightarrow> True | Some v \<Rightarrow> length v = nf - nc)"
  using assms by (cases spec) (simp_all add: cache_block_mask_def Let_def)

lemma mem_slice: "x \<in> set (slice a b xs) \<Longrightarrow> b \<le> length xs \<Longrightarrow> \<exists>i. a \<le> i \<and> i < b \<and> x = xs ! i"
  by (auto simp: slice_def in_set_conv_nth) (metis le_add1 less_diff_conv add.commute)

lemma ledger_cache:
  assumes l: "ledger m p xs other" and e: "enable_caching p"
    and nf: "n div m_block_size m \<le> length (req_blocks m (request_id r))"
    and hs: "hashes_for r (hash_block_size p) (m_block_size m) (n div m_block_size m)"
  shows "\<exists>m' p'. cache_blocks_base sha r n al m p = Inr (m', p') \<and> ledger m' p' xs other \<and> frame m p m' p' other \<and>
    (\<forall>k. req_blocks m' k = req_blocks m k) \<and>
    (\<forall>k. cached_count m' k = (if k = request_id r then max (cached_count m k) (n div m_block_size m) else cached_count m k)) \<and>
    (\<forall>k. k \<noteq> request_id r \<longrightarrow> map_of (num_cached_block m') k = map_of (num_cached_block m) k)"
proof (cases "n div m_block_size m \<le> cached_count m (request_id r)")
  case True
  then show ?thesis using l by (simp add: cache_blocks_base_def max_absorb1)
next
  case False
  define rid where "rid = request_id r"
  define nc where "nc = cached_count m rid"
  define nf where "nf = n div m_block_size m"
  define bs where "bs = req_blocks m rid"
  have lt: "nc < nf" using False by (simp add: nc_def nf_def rid_def)
  have inv: "pool_inv p xs (mgr_refs m + other)" using l by (simp add: ledger_def)
  have nfl: "nf \<le> length bs" using nf by (simp add: nf_def bs_def rid_def)
  obtain bm where bm: "(case al of None \<Rightarrow> Inr None | Some a \<Rightarrow> if a \<le> m_block_size m then Inr None
      else cache_block_mask (m_spec m) (m_block_size m) nc nf a) = Inr bm"
    "case bm of None \<Rightarrow> True | Some v \<Rightarrow> length v = nf - nc"
  proof (cases al)
    case None
    then show ?thesis using that [of None] by simp
  next
    case (Some a)
    then show ?thesis
      using that [of None] that cache_mask_ok [of "m_block_size m" a "m_spec m" nc nf]
      by (cases "a \<le> m_block_size m") auto
  qed
  obtain h where h: "(if m_block_size m = hash_block_size p then Inr (block_hashes r)
       else block_hashes_with_block_size (block_hashes r) (hash_block_size p) (m_block_size m)) = Inr h"
    "nf \<le> length h" "nf \<le> length (block_hashes r)"
    using hs that by (cases "m_block_size m = hash_block_size p")
      (auto simp: hashes_for_def block_hashes_with_block_size_def nf_def Let_def)
  have unc: "bhash p (bs ! i) = None" "count (mgr_refs m + other) (bs ! i) = 1"
    if "nc \<le> i" "i < nf" "bs ! i \<noteq> null_block p" for i
    using ledger_uncached [OF l, of rid i] that nfl by (auto simp: nc_def bs_def)
  obtain p' where p': "cache_full_blocks sha r bs nc nf (m_block_size m) (m_group_id m) bm p = Inr p'"
    "pool_inv p' xs (mgr_refs m + other)" "same_pool p p'"
    "\<forall>c. c \<notin> set (slice nc nf bs) \<longrightarrow> blocks p' ! c = blocks p ! c"
  proof -
    have "\<forall>b\<in>set bs. b < num_gpu_blocks p" using ledger_table(2) [OF l, of rid] by (auto simp: bs_def)
    moreover have "\<forall>b\<in>set (slice nc nf bs). b \<noteq> null_block p \<longrightarrow> bhash p b = None"
    proof (intro ballI impI)
      fix b assume b: "b \<in> set (slice nc nf bs)" "b \<noteq> null_block p"
      obtain i where "nc \<le> i" "i < nf" "b = bs ! i" using mem_slice [OF b(1) nfl] by blast
      then show "bhash p b = None" using unc(1) b(2) by simp
    qed
    moreover have "distinct (filter (\<lambda>b. b \<noteq> null_block p) (slice nc nf bs))"
    proof -
      have "bs = take nc bs @ slice nc nf bs @ drop nf bs"
        using lt by (intro slice_split) simp
      then show ?thesis
        using ledger_table(3) [OF l, of rid] unfolding real_blocks_def bs_def [symmetric]
        by (metis (no_types, lifting) distinct_append filter_append)
    qed
    ultimately show ?thesis
      using cache_full_blocks_inv [OF inv _ _ _ nfl h(3) h(1,2) bm(2) lt] that by blast
  qed
  define m' where "m' = (set_req rid bs m)\<lparr>num_cached_block := AList.update rid nf (num_cached_block m)\<rparr>"
  have eq: "cache_blocks_base sha r n al m p = Inr (m', p')"
    unfolding cache_blocks_base_def Let_def rid_def [symmetric] nc_def [symmetric] nf_def [symmetric]
      bs_def [symmetric] bm(1) rbind_simps p'(1)
    using lt by (simp add: m'_def)
  have cfg: "same_config p p'" using p'(3) by (simp add: same_pool_def)
  have rb: "req_blocks m' k = req_blocks m k" "cached_count m' k = (if k = rid then nf else cached_count m k)" for k
    by (simp_all add: m'_def bs_def req_blocks_al cached_count_def update_conv')
  have refs: "mgr_refs m' = mgr_refs m"
    using mgr_refs_set_req [OF ledger_table(1) [OF l], of rid bs] by (simp add: m'_def mgr_refs_def bs_def)
  have own: "c \<notin> set (slice nc nf bs)" if "c \<noteq> null_block p" "count (mgr_refs m + other) c = 1" "c \<in> set (req_blocks m k)" "k \<noteq> rid" for c k
  proof
    assume "c \<in> set (slice nc nf bs)"
    then have "c \<in> set (req_blocks m rid)" by (auto simp: slice_def bs_def dest: in_set_takeD in_set_dropD)
    then have "2 \<le> count (mgr_refs m) c" using held_twice [OF ledger_table(1) [OF l] that(4,3)] by simp
    then show False using that(2) unfolding count_union by linarith
  qed
  have dist: "bs ! i \<notin> set (slice nc nf bs)" if "nf \<le> i" "i < length bs" "bs ! i \<noteq> null_block p" for i
  proof
    assume "bs ! i \<in> set (slice nc nf bs)"
    then obtain j where j: "j < nf" "bs ! i = bs ! j" using mem_slice [OF _ nfl] by blast
    have "bs ! i \<in> set (take nf bs)" using j nfl by (auto simp: in_set_conv_nth)
    moreover have "bs ! i \<in> set (drop nf bs)" using that by (auto simp: in_set_conv_nth intro: exI [of _ "i - nf"])
    moreover have "filter (\<lambda>b. b \<noteq> null_block p) bs
        = filter (\<lambda>b. b \<noteq> null_block p) (take nf bs) @ filter (\<lambda>b. b \<noteq> null_block p) (drop nf bs)"
      by (metis append_take_drop_id filter_append)
    then have "set (filter (\<lambda>b. b \<noteq> null_block p) (take nf bs)) \<inter> set (filter (\<lambda>b. b \<noteq> null_block p) (drop nf bs)) = {}"
      using ledger_table(3) [OF l, of rid] by (simp only: real_blocks_def bs_def distinct_append)
    ultimately show False using that(3) by auto
  qed
  have "ledger m' p' xs other"
  proof (rule ledger_set [OF l cfg, where rid = rid])
    show "pool_inv p' xs (mgr_refs m' + other)" using p'(2) refs by simp
    show "distinct (map fst (num_cached_block m'))"
      using l by (simp add: m'_def ledger_def mgr_ok_def distinct_update)
    show "table_ok p (req_to_blocks m')"
      using ledger_table [OF l] by (auto simp: m'_def bs_def intro!: table_ok_update)
    show "bhash p' (req_blocks m k ! i) = None \<and> count (mgr_refs m' + other) (req_blocks m k ! i) = 1"
      if "k \<noteq> rid" "cached_count m k \<le> i" "i < length (req_blocks m k)" "req_blocks m k ! i \<noteq> null_block p" for k i
      using ledger_uncached [OF l that(2-4)] own [of "req_blocks m k ! i" k] that p'(4) refs by simp
    show "bhash p' (req_blocks m' rid ! i) = None \<and> count (mgr_refs m' + other) (req_blocks m' rid ! i) = 1"
      if "cached_count m' rid \<le> i" "i < length (req_blocks m' rid)" "req_blocks m' rid ! i \<noteq> null_block p" for i
      using ledger_uncached [OF l, of rid i] dist [of i] that lt rb p'(4) refs by (simp add: bs_def nc_def)
  qed (use e nfl rb in \<open>auto simp: m'_def bs_def\<close>)
  moreover have "frame m p m' p' other"
  proof -
    have "c \<notin> set (slice nc nf bs)" if "c \<in># other" "c \<noteq> null_block p" for c
    proof
      assume "c \<in> set (slice nc nf bs)"
      then obtain i where i: "nc \<le> i" "i < nf" "c = bs ! i" using mem_slice [OF _ nfl] by blast
      then have "2 \<le> count (mgr_refs m + other) c"
        using held_other_twice [OF l that(1), of rid] nfl by (auto simp: bs_def)
      then show False using unc(2) [OF i(1,2)] i(3) that(2) by simp
    qed
    then show ?thesis using cfg refs p'(4) by (simp add: frame_def m'_def)
  qed
  ultimately show ?thesis
    using eq rb lt by (auto simp: m'_def rid_def nc_def nf_def update_conv')
qed

subsection \<open>Admission\<close>

fun attn_spec :: "kv_cache_spec \<Rightarrow> bool" where
  "attn_spec (SinkFullAttentionSpec b n) = False"
| "attn_spec (MambaSpec b mode n) = False"
| "attn_spec (CrossAttentionSpec b) = False"
| "attn_spec _ = True"

lemma attn_spec_ops:
  assumes "attn_spec (m_spec m)"
  shows "num_blocks_to_allocate rid ntoks comput tot main cap m p
      = rbind (num_blocks_to_allocate_base rid ntoks comput tot cap m p) (\<lambda>n. Inr (n, m))"
    "allocate_new_blocks rid ntoks main m p = allocate_new_blocks_base rid ntoks m p"
    "cache_blocks sha r n al m p = cache_blocks_base sha r n al m p"
    "remove_skipped_blocks rid nn m p = remove_skipped_base rid nn m p"
    "\<not> is_cross (m_spec m)" "m_spec m \<noteq> MambaSpec b mode k"
  using assms
  by (cases "m_spec m"; simp add: num_blocks_to_allocate_def allocate_new_blocks_def cache_blocks_def
      remove_skipped_blocks_def)+

lemma attn_skipped: "attn_spec spec \<Longrightarrow> 0 \<le> n \<Longrightarrow> 0 \<le> get_num_skipped_tokens spec n"
  by (cases spec) (simp_all add: div_int_pos_iff)

text \<open>The demand of a request: new blocks, and hit blocks that have to leave the free queue.\<close>

definition new_demand :: "kv_manager \<Rightarrow> string \<Rightarrow> int \<Rightarrow> nat list \<Rightarrow> int \<Rightarrow> int" where
  "new_demand m rid ntoks computed tot =
     max (cdiv ntoks (int (m_block_size m)) -
          max (get_num_skipped_tokens (m_spec m) tot div int (m_block_size m))
              (int (length computed) + int (length (req_blocks m rid)))) 0"

definition hit_suffix :: "kv_manager \<Rightarrow> nat list \<Rightarrow> int \<Rightarrow> nat list" where
  "hit_suffix m computed tot =
     drop (nat (get_num_skipped_tokens (m_spec m) tot div int (m_block_size m))) computed"

lemma evictable_removed:
  assumes inv: "pool_inv p xs refs" and rng: "set computed \<subseteq> {..<num_gpu_blocks p}"
  shows "int (length xs) \<le> int (length (filter (\<lambda>b. b \<notin> set computed) xs)) + get_num_evictable_blocks p computed"
proof -
  let ?E = "filter (\<lambda>b. rc p b = 0 \<and> \<not> is_null (blocks p ! b)) computed"
  have "length xs = length (filter (\<lambda>b. b \<notin> set computed) xs) + length (filter (\<lambda>b. b \<in> set computed) xs)"
    using sum_length_filter_compl [of "\<lambda>b. b \<in> set computed" xs] by simp
  moreover have "length (filter (\<lambda>b. b \<in> set computed) xs) \<le> length ?E"
  proof -
    have "set (filter (\<lambda>b. b \<in> set computed) xs) \<subseteq> set ?E"
      using pool_inv_xs [OF inv] inv by (auto simp: pool_defs)
    then have "card (set (filter (\<lambda>b. b \<in> set computed) xs)) \<le> length ?E"
      by (meson List.finite_set card_length card_mono le_trans)
    then show ?thesis using pool_inv_distinct [OF inv] by (metis distinct_card distinct_filter)
  qed
  ultimately show ?thesis unfolding get_num_evictable_blocks_def by linarith
qed

text \<open>Pools that only gained references.\<close>

definition pool_le :: "block_pool \<Rightarrow> block_pool \<Rightarrow> bool" where
  "pool_le p p' \<longleftrightarrow> same_config p p' \<and> (\<forall>b. bhash p' b = bhash p b) \<and>
     (\<forall>b<num_gpu_blocks p. is_null (blocks p' ! b) = is_null (blocks p ! b) \<and>
        (b \<noteq> null_block p \<longrightarrow> rc p b \<le> rc p' b) \<and> (b \<noteq> null_block p \<longrightarrow> 0 \<le> rc p b))"

lemma evictable_mono:
  assumes "pool_le p p'" "pool_inv p xs refs" "set bs \<subseteq> {..<num_gpu_blocks p}"
  shows "get_num_evictable_blocks p' bs \<le> get_num_evictable_blocks p bs"
  using assms(3)
proof (induction bs)
  case (Cons b bs)
  have "rc p b = 0 \<and> \<not> is_null (blocks p ! b)" if "rc p' b = 0" "\<not> is_null (blocks p' ! b)"
  proof -
    have b: "b < num_gpu_blocks p" using Cons.prems by simp
    then have "\<not> is_null (blocks p ! b)" using that assms(1) by (simp add: pool_le_def)
    moreover from this have "b \<noteq> null_block p" using assms(2) b by (simp add: pool_defs)
    ultimately show ?thesis using that assms(1) b unfolding pool_le_def by force
  qed
  then show ?case using Cons by (auto simp: get_num_evictable_blocks_def)
qed (simp add: get_num_evictable_blocks_def)

lemma pool_leI:
  assumes "pool_inv p xs refs" "pool_inv p' xs' refs'" "same_config p p'" "\<forall>b. bhash p' b = bhash p b"
    and "\<And>b. b \<noteq> null_block p \<Longrightarrow> count refs b \<le> count refs' b"
  shows "pool_le p p'"
  using assms by (auto simp: pool_le_def pool_defs same_config_def)

lemma pool_le_trans:
  assumes "pool_le p q" "pool_le q r"
  shows "pool_le p r"
proof -
  have "rc p b \<le> rc r b" if "b < num_gpu_blocks p" "b \<noteq> null_block p" for b
  proof (rule order_trans)
    show "rc p b \<le> rc q b" using assms(1) that by (simp add: pool_le_def)
    show "rc q b \<le> rc r b" using assms that by (simp add: pool_le_def same_config_def)
  qed
  then show ?thesis using assms by (simp add: pool_le_def same_config_def)
qed

lemma le_div_iff_mult: "0 < b \<Longrightarrow> k \<le> x div b \<longleftrightarrow> k * b \<le> (x::int)"
proof
  assume b: "0 < b" and k: "k \<le> x div b"
  have "k * b \<le> x div b * b" using k b by (simp add: mult_right_mono)
  also have "\<dots> \<le> x" using b by (metis div_mult_mod_eq le_add_same_cancel1 pos_mod_sign)
  finally show "k * b \<le> x" .
next
  assume b: "0 < b" and k: "k * b \<le> x"
  show "k \<le> x div b" using zdiv_mono1 [OF k b] b by simp
qed

lemma cdiv_le_iff: "0 < b \<Longrightarrow> cdiv a b \<le> n \<longleftrightarrow> a \<le> n * b"
  using le_div_iff_mult [of b "- n" "- a"] by (auto simp: cdiv_def div_minus_right)

lemma attn_skipped_le: "attn_spec spec \<Longrightarrow> 0 \<le> n \<Longrightarrow> (case spec of SlidingWindowSpec b w \<Rightarrow> 0 < w
    | SlidingWindowMLASpec b w \<Rightarrow> 0 < w | _ \<Rightarrow> True) \<Longrightarrow> get_num_skipped_tokens spec n \<le> n"
  by (cases spec) (auto, metis div_mult_mod_eq le_add_same_cancel1 mult_eq_0_iff pos_mod_sign of_nat_0_less_iff neq0_conv of_nat_0 mult_zero_right order.refl)

text \<open>A manager ready to admit a request: hit blocks only for a request that has nothing yet, hashed
  or null, and computed tokens backed by blocks.\<close>

fun window_pos :: "kv_cache_spec \<Rightarrow> bool" where
  "window_pos (SlidingWindowSpec b w) = (0 < w)"
| "window_pos (SlidingWindowMLASpec b w) = (0 < w)"
| "window_pos _ = True"

definition hit_ok :: "block_pool \<Rightarrow> nat list \<Rightarrow> bool" where
  "hit_ok p comput \<longleftrightarrow> set comput \<subseteq> {..<num_gpu_blocks p} \<and> distinct (real_blocks p comput) \<and>
     (\<forall>b\<in>set comput. b \<noteq> null_block p \<longrightarrow> bhash p b \<noteq> None)"

definition admits :: "kv_manager \<Rightarrow> string \<Rightarrow> nat list \<Rightarrow> nat \<Rightarrow> bool" where
  "admits m rid comput tot \<longleftrightarrow> attn_spec (m_spec m) \<and> window_pos (m_spec m) \<and>
     (comput \<noteq> [] \<longrightarrow> map_of (num_cached_block m) rid = None \<and> req_blocks m rid = [] \<and> m_enable_caching m) \<and>
     tot \<le> (length comput + length (req_blocks m rid)) * m_block_size m"

definition demand :: "kv_manager \<Rightarrow> block_pool \<Rightarrow> string \<Rightarrow> nat \<Rightarrow> nat list \<Rightarrow> int \<Rightarrow> int" where
  "demand m p rid ntoks comput tot =
     max (cdiv (int ntoks) (int (m_block_size m)) - int (length comput + length (req_blocks m rid))) 0
     + get_num_evictable_blocks p (hit_suffix m comput tot)"

lemma skipped_blocks_le:
  assumes "admits m rid comput tot" "0 < m_block_size m"
  shows "get_num_skipped_tokens (m_spec m) (int tot) div int (m_block_size m)
    \<le> int (length comput + length (req_blocks m rid))"
proof -
  have "get_num_skipped_tokens (m_spec m) (int tot) \<le> int tot"
    using assms by (intro attn_skipped_le) (auto simp: admits_def split: kv_cache_spec.split)
  also have "\<dots> \<le> int ((length comput + length (req_blocks m rid)) * m_block_size m)"
    using assms(1) unfolding admits_def of_nat_le_iff by simp
  finally have "get_num_skipped_tokens (m_spec m) (int tot)
      \<le> int (length comput + length (req_blocks m rid)) * int (m_block_size m)" by simp
  then show ?thesis
    using zdiv_mono1 [OF _ , of _ _ "int (m_block_size m)"] assms(2)
    by (metis nonzero_mult_div_cancel_right of_nat_0_less_iff of_nat_0_eq_iff neq0_conv)
qed

lemma demand_computed:
  assumes a: "admits m rid comput tot" and l: "ledger m p xs other"
  shows "num_blocks_to_allocate rid (int ntoks) comput (int tot) main False m p = Inr (demand m p rid ntoks comput (int tot), m)"
proof -
  let ?s = "get_num_skipped_tokens (m_spec m) (int tot) div int (m_block_size m)"
  have pos: "0 < m_block_size m" by (rule ledger_table(5) [OF l])
  have s: "?s \<le> int (length comput + length (req_blocks m rid))" by (rule skipped_blocks_le [OF a pos])
  have e: "get_num_evictable_blocks p (drop n comput) = 0" if "comput = []" for n
    using that by (simp add: get_num_evictable_blocks_def)
  have "num_blocks_to_allocate_base rid (int ntoks) comput (int tot) False m p = Inr (demand m p rid ntoks comput (int tot))"
  proof (cases "map_of (num_cached_block m) rid")
    case (Some n)
    then have "comput = []" using a by (auto simp: admits_def)
    then show ?thesis
      using Some by (simp add: num_blocks_to_allocate_base_def demand_def hit_suffix_def get_num_evictable_blocks_def
          Let_def split: option.split)
  next
    case None
    have "drop (nat (max 0 (?s - int (length (req_blocks m rid))))) comput = hit_suffix m comput (int tot)"
    proof (cases "comput = []")
      case False
      then have "req_blocks m rid = []" using a by (simp add: admits_def)
      then show ?thesis by (simp add: hit_suffix_def max_def)
    qed (simp add: hit_suffix_def)
    moreover have "max ?s (int (length comput) + int (length (req_blocks m rid))) = int (length comput + length (req_blocks m rid))"
      using s by simp
    ultimately show ?thesis
      using None by (simp add: num_blocks_to_allocate_base_def demand_def Let_def split: option.split)
  qed
  then show ?thesis using a by (simp add: attn_spec_ops admits_def)
qed

lemma ledger_pool: "ledger m p xs other \<Longrightarrow> pool_inv p xs (mgr_refs m + other)"
  by (simp add: ledger_def)

lemma hit_ok_suffix: "hit_ok p comput \<Longrightarrow> hit_ok p (drop n comput)"
  unfolding hit_ok_def real_blocks_def
  by (metis (no_types, lifting) distinct_append filter_append append_take_drop_id in_set_dropD set_drop_subset subset_trans)

text \<open>The hit blocks of a new request are attached: they leave the free queue, nothing is allocated.\<close>

lemma attach_hits:
  assumes l: "ledger m p xs other" and a: "admits m rid comput tot" and h: "hit_ok p comput"
    and new: "map_of (num_cached_block m) rid = None" "req_blocks m rid = []"
  obtains m' p' xs' where "allocate_new_computed_blocks rid comput (int tot) 0 m p = Inr (m', p')"
    "ledger m' p' xs' other" "frame m p m' p' other" "pool_le p p'"
    "int (length xs) \<le> int (length xs') + get_num_evictable_blocks p (hit_suffix m comput (int tot))"
    "length (req_blocks m' rid) = length comput" "\<And>k. k \<noteq> rid \<Longrightarrow> req_blocks m' k = req_blocks m k"
    "map_of (num_cached_block m') rid \<noteq> None"
    "\<And>k. k \<noteq> rid \<Longrightarrow> map_of (num_cached_block m') k = map_of (num_cached_block m) k"
proof -
  let ?s = "get_num_skipped_tokens (m_spec m) (int tot) div int (m_block_size m)"
  have pos: "0 < m_block_size m" by (rule ledger_table(5) [OF l])
  define c where "c = hit_suffix m comput (int tot)"
  have c: "hit_ok p c" using hit_ok_suffix [OF h] by (simp add: c_def hit_suffix_def)
  have s: "?s \<le> int (length comput)" using skipped_blocks_le [OF a pos] new(2) by simp
  have pad: "(if ?s > 0 then drop (nat ?s) comput else comput) = c" by (auto simp: c_def hit_suffix_def)
  define m' where "m' = (set_req rid (replicate (nat ?s) (null_block p) @ c) m)
      \<lparr>num_cached_block := AList.update rid (nat ?s + length c) (num_cached_block m)\<rparr>"
  obtain p' where p': "touch c p = Inr p'" "ledger m' p' (filter (\<lambda>b. b \<notin> set c) xs) other" "frame m p m' p' other"
    "\<forall>x. bhash p' x = bhash p x"
    using ledger_touch [OF l new(2), of c m' "nat ?s"] c unfolding hit_ok_def m'_def by blast
  have cfg: "same_config p p'" using p'(3) by (simp add: frame_def)
  have len: "nat ?s + length c = length comput"
    using s by (cases "?s \<ge> 0") (auto simp: c_def hit_suffix_def)
  have t: "(if m_enable_caching m then touch c p else if c \<noteq> [] then Inl AssertionError else Inr p) = Inr p'"
  proof (cases "m_enable_caching m")
    case False
    then have "comput = []" using a by (auto simp: admits_def)
    then show ?thesis using False p'(1) by (simp add: c_def hit_suffix_def)
  qed (use p' in simp)
  have eq: "allocate_new_computed_blocks rid comput (int tot) 0 m p = Inr (m', p')"
    unfolding allocate_new_computed_blocks_def Let_def add_0_right pad t rbind_simps
    using a new cfg by (simp add: attn_spec_ops admits_def m'_def same_config_def)
  have "pool_le p p'"
  proof (rule pool_leI [OF ledger_pool [OF l] ledger_pool [OF p'(2)] cfg p'(4)])
    have "mgr_refs m' = mgr_refs m + mset (replicate (nat ?s) (null_block p) @ c)"
      using mgr_refs_set_req [OF ledger_table(1) [OF l], of rid "replicate (nat ?s) (null_block p) @ c"] new(2)
      by (simp add: m'_def mgr_refs_def)
    then show "count (mgr_refs m + other) b \<le> count (mgr_refs m' + other) b" for b by simp
  qed
  moreover have "req_blocks m' k = (if k = rid then replicate (nat ?s) (null_block p) @ c else req_blocks m k)" for k
    by (simp add: m'_def req_blocks_al)
  moreover have "int (length xs) \<le> int (length (filter (\<lambda>b. b \<notin> set c) xs)) + get_num_evictable_blocks p c"
    using evictable_removed [OF ledger_pool [OF l]] c by (simp add: hit_ok_def)
  moreover have "map_of (num_cached_block m') k = (if k = rid then Some (length comput) else map_of (num_cached_block m) k)" for k
    by (simp add: m'_def update_conv' len)
  ultimately show thesis
    using eq p'(2,3) len
    by (intro that [of m' p' "filter (\<lambda>b. b \<notin> set c) xs"]) (simp_all add: c_def [symmetric])
qed

text \<open>New blocks for a request whose table is too short.\<close>

lemma extend_table:
  assumes l: "ledger m p xs other"
    and n: "nat (cdiv (int ntoks) (int (m_block_size m)) - int (length (req_blocks m rid))) = n" "n \<le> length xs"
  obtains m' p' where "allocate_new_blocks_base rid (int ntoks) m p = Inr (take n xs, m', p')"
    "ledger m' p' (drop n xs) other" "frame m p m' p' other"
    "\<And>k. req_blocks m' k = (if k = rid then req_blocks m k @ take n xs else req_blocks m k)"
    "num_cached_block m' = num_cached_block m"
proof -
  let ?d = "cdiv (int ntoks) (int (m_block_size m)) - int (length (req_blocks m rid))"
  let ?m = "set_req rid (req_blocks m rid @ take n xs) m"
  define m' where "m' = (if n > 0 \<and> zeroes_new_blocks (m_spec m)
      then ?m\<lparr>new_block_ids := new_block_ids ?m @ take n xs\<rparr> else ?m)"
  have l': "ledger m p (take n xs @ drop n xs) other" using l by simp
  have len: "length (take n xs) = n" using n(2) by simp
  obtain p' where p': "get_new_blocks n p = Inr (take n xs, p')" "ledger ?m p' (drop n xs) other" "frame m p ?m p' other"
    using ledger_grow [OF l', of rid] unfolding len by blast
  have zero: "ledger ?m p (drop n xs) other \<and> frame m p ?m p other" if "n = 0"
  proof -
    have r: "mgr_refs ?m = mgr_refs m"
      using mgr_refs_set_req [OF ledger_table(1) [OF l], of rid "req_blocks m rid @ take n xs"] that by simp
    have rb: "req_blocks ?m k = req_blocks m k" for k using that by simp
    have "ledger ?m p xs other"
    proof (rule ledger_set [OF l same_config_refl, where rid = rid])
      show "table_ok p (req_to_blocks ?m)"
        using ledger_table(1) [OF l] ledger_table(2,3) [OF l, of rid] that by (simp add: table_ok_update)
      show "enable_caching p \<or> (\<forall>c<num_gpu_blocks p. bhash p c = None)" using l by (simp add: ledger_def)
      show "distinct (map fst (num_cached_block ?m))" using l by (simp add: ledger_def mgr_ok_def)
    qed (use ledger_uncached [OF l] ledger_table(4) [OF l] ledger_pool [OF l] r that in simp_all)
    then show ?thesis using that r by (simp add: frame_def)
  qed
  have x: "ledger m' q xs' other = ledger ?m q xs' other" "frame m p m' q other = frame m p ?m q other" for q xs'
    by (rule ledger_cong; simp add: m'_def) (simp add: m'_def frame_def mgr_refs_def)
  show thesis
  proof (cases "n = 0")
    case True
    then show thesis
      using n(1) zero x by (intro that [of m' p]) (auto simp: allocate_new_blocks_base_def Let_def m'_def)
  next
    case False
    then have "\<not> ?d \<le> 0" using n(1) by auto
    then show thesis
      using p' x False n(1)
      by (intro that [of m' p']) (auto simp: allocate_new_blocks_base_def Let_def m'_def req_blocks_al)
  qed
qed

end
