(* ===== verification/VL_Recycle.thy ===== *)
theory VL_Recycle
  imports VL_Ledger
begin

text \<open>
  Managers that give blocks back while a request runs (sliding window, chunked local attention):
  the null blocks of a table stay in front, and the real blocks stay within the cap that
  \<open>get_num_blocks_to_allocate\<close> and the sizing of the pool use for admission.
\<close>

subsection \<open>Blocks held by recycling managers\<close>

lemma cdiv_minus_div: "0 < b \<Longrightarrow> cdiv x b - y div b \<le> cdiv (x - y) b + 1"
proof -
  assume b: "0 < b"
  have "x \<le> (cdiv (x - y) b + 1 + y div b) * b"
  proof -
    have "x - y \<le> cdiv (x - y) b * b" using cdiv_le_iff [OF b, of "x - y" "cdiv (x - y) b"] by simp
    moreover have "y = y div b * b + y mod b" by simp
    moreover have "y mod b < b" by (rule pos_mod_bound [OF b])
    ultimately show ?thesis unfolding distrib_right by linarith
  qed
  then show ?thesis using cdiv_le_iff [OF b, of x "cdiv (x - y) b + 1 + y div b"] by simp
qed

lemma cdiv_minus_dvd: "0 < b \<Longrightarrow> b dvd y \<Longrightarrow> cdiv x b - y div b \<le> cdiv (x - y) b"
proof -
  assume b: "0 < b" "b dvd y"
  have "x \<le> (cdiv (x - y) b + y div b) * b"
    using cdiv_le_iff [OF b(1), of "x - y" "cdiv (x - y) b"] b by (simp add: distrib_right)
  then show ?thesis using cdiv_le_iff [OF b(1), of x "cdiv (x - y) b + y div b"] by simp
qed

lemma cdiv_mono: "0 < b \<Longrightarrow> x \<le> y \<Longrightarrow> cdiv x b \<le> cdiv y b"
  using cdiv_le_iff [of b x "cdiv y b"] cdiv_le_iff [of b y "cdiv y b"] by linarith

definition null_first :: "block_pool \<Rightarrow> nat list \<Rightarrow> bool" where
  "null_first p bs \<longleftrightarrow> (\<exists>q rs. bs = replicate q (null_block p) @ rs \<and> null_block p \<notin> set rs)"

lemma real_blocks_simps [simp]:
  "real_blocks p (xs @ ys) = real_blocks p xs @ real_blocks p ys" "real_blocks p (replicate n (null_block p)) = []"
  by (simp_all add: real_blocks_def)

lemma real_blocks_id [simp]: "null_block p \<notin> set rs \<Longrightarrow> real_blocks p rs = rs"
  unfolding real_blocks_def by (rule filter_True) auto

lemma remove_loop_null_first:
  assumes "nullb \<notin> set rs" "k \<le> q + length rs"
  shows "fst (remove_loop nullb k (replicate q nullb @ rs) []) = replicate (max q k) nullb @ drop (k - q) rs"
proof -
  let ?bs = "replicate q nullb @ rs"
  have k: "k \<le> length ?bs" using assms(2) by simp
  obtain j where j: "j \<le> k" "fst (remove_loop nullb k ?bs []) = take j ?bs @ replicate (k - j) nullb @ drop k ?bs"
    "\<forall>i. j \<le> i \<and> i < k \<longrightarrow> ?bs ! i \<noteq> nullb" "j = 0 \<or> ?bs ! (j - 1) = nullb"
    by (rule remove_loop_spec [OF k, where nullb = nullb and removed = "[]"]) auto
  have nth: "?bs ! i = nullb \<longleftrightarrow> i < q" if "i < length ?bs" for i
    using that assms(1) by (auto simp: nth_append in_set_conv_nth)
  have "j = k \<or> q \<le> j" using j(1,3) k nth [of j] by (metis le_neq_implies_less le_refl not_le order_less_le_trans)
  moreover have "j \<le> q" using j(1,4) k nth [of "j - 1"] by (cases j) auto
  moreover have "replicate a nullb @ replicate (c - a) nullb = replicate c nullb" if "a \<le> c" for a c
    using that by (simp flip: replicate_add)
  ultimately show ?thesis using j(1,2) k by (auto simp: max_def)
qed

lemma remove_skipped_null_first:
  assumes l: "ledger m p xs other" and pre: "null_first p (req_blocks m rid)"
    and covered: "get_num_skipped_tokens (m_spec m) n \<le> int (length (req_blocks m rid)) * int (m_block_size m)"
    and r: "remove_skipped_base rid n m p = Inr (m1, p1)"
  shows "null_first p (req_blocks m1 rid)" "length (req_blocks m1 rid) = length (req_blocks m rid)"
    "int (length (real_blocks p (req_blocks m1 rid)))
      \<le> int (length (req_blocks m rid)) - max 0 (get_num_skipped_tokens (m_spec m) n) div int (m_block_size m)"
proof -
  let ?s = "get_num_skipped_tokens (m_spec m) n" and ?b = "int (m_block_size m)"
  obtain q rs where bs: "req_blocks m rid = replicate q (null_block p) @ rs" "null_block p \<notin> set rs"
    using pre by (auto simp: null_first_def)
  have b: "0 < ?b" using ledger_table(5) [OF l] by simp
  have "null_first p (req_blocks m1 rid) \<and> length (req_blocks m1 rid) = length (req_blocks m rid) \<and>
    int (length (real_blocks p (req_blocks m1 rid))) \<le> int (length (req_blocks m rid)) - max 0 ?s div ?b"
  proof (cases "?s \<le> 0")
    case True
    then show ?thesis using r pre bs by (auto simp: remove_skipped_base_def)
  next
    case False
    define k where "k = nat (?s div ?b)"
    have sk: "?s div ?b \<le> int (length (req_blocks m rid))"
      using covered b by (metis zdiv_mono1 nonzero_mult_div_cancel_right less_irrefl)
    have k: "k \<le> q + length rs" "int k = ?s div ?b"
      using sk bs(1) False b by (auto simp: k_def pos_imp_zdiv_nonneg_iff)
    have "req_blocks m1 rid = fst (remove_loop (null_block p) k (replicate q (null_block p) @ rs) [])"
      using r False sk bs(1)
      by (auto simp: remove_skipped_base_def Let_def k_def min_def case_prod_unfold res_simps)
    also have "\<dots> = replicate (max q k) (null_block p) @ drop (k - q) rs"
      by (rule remove_loop_null_first [OF bs(2) k(1)])
    finally have m1: "req_blocks m1 rid = replicate (max q k) (null_block p) @ drop (k - q) rs" .
    have nd: "null_block p \<notin> set (drop (k - q) rs)" using bs(2) by (auto dest: in_set_dropD)
    then have "null_first p (req_blocks m1 rid)" using m1 by (auto simp: null_first_def)
    moreover have "length (drop (k - q) rs) + max q k = q + length rs" using k(1) by (simp add: max_def)
    ultimately show ?thesis using m1 nd bs(1) k False by simp linarith
  qed
  then show "null_first p (req_blocks m1 rid)" "length (req_blocks m1 rid) = length (req_blocks m rid)"
    "int (length (real_blocks p (req_blocks m1 rid))) \<le> int (length (req_blocks m rid)) - max 0 ?s div ?b"
    by simp_all
qed




end
