(* ===== verification/VL_CacheHit.thy ===== *)
theory VL_CacheHit
  imports VL_SingleType
begin

text \<open>
  Prefix-cache lookup (\<open>find_longest_cache_hit\<close> of each manager class).  The hashes of a request
  are a list, or the same list read at a coarser block size.  The result holds, for every group,
  the blocks of the hit, with the null block for positions whose content is not needed.
\<close>

datatype hash_list = PlainHashes "bytes list" | ScaledHashes "bytes list" nat

fun hl_list :: "hash_list \<Rightarrow> bytes list" where
  "hl_list (PlainHashes hs) = hs"
| "hl_list (ScaledHashes hs scale) = map (scaled_hash_at hs scale) [0..<length hs div scale]"

fun hl_at :: "hash_list \<Rightarrow> nat \<Rightarrow> bytes res" where
  "hl_at (PlainHashes hs) i = (if i < length hs then Inr (hs ! i) else Inl IndexError)"
| "hl_at (ScaledHashes hs scale) i = Inr (scaled_hash_at hs scale i)"

text \<open>Dropping blocks until the length is aligned.\<close>

function align_loop :: "nat \<Rightarrow> nat \<Rightarrow> nat list list \<Rightarrow> nat list list" where
  "align_loop bs al computed =
     (if bs \<noteq> al \<and> computed \<noteq> [] \<and> length (hd computed) * bs mod al \<noteq> 0
      then align_loop bs al (map butlast computed) else computed)"
  by pat_completeness auto
termination
proof (relation "measure (\<lambda>(bs, al, c). length (hd c))")
  fix bs al :: nat and computed :: "nat list list"
  assume a: "bs \<noteq> al \<and> computed \<noteq> [] \<and> length (hd computed) * bs mod al \<noteq> 0"
  then have "length (hd computed) \<noteq> 0" by (metis mod_0 mult_is_0)
  then show "((bs, al, map butlast computed), bs, al, computed) \<in> measure (\<lambda>(bs, al, c). length (hd c))"
    using a by (cases computed) auto
qed simp

declare align_loop.simps [simp del]

fun full_hit_loop :: "block_pool \<Rightarrow> nat list \<Rightarrow> bytes list \<Rightarrow> nat list list \<Rightarrow> nat list list" where
  "full_hit_loop p gids [] computed = computed"
| "full_hit_loop p gids (h # hs) computed =
     (case get_cached_block p h gids of
        Some (c # cs) \<Rightarrow> full_hit_loop p gids hs (map2 (\<lambda>x b. x @ [b]) computed (c # cs))
      | _ \<Rightarrow> computed)"

definition full_attention_hit ::
  "hash_list \<Rightarrow> nat \<Rightarrow> nat list \<Rightarrow> block_pool \<Rightarrow> nat \<Rightarrow> bool \<Rightarrow> nat \<Rightarrow> nat \<Rightarrow> nat \<Rightarrow> nat list list" where
  "full_attention_hit hashes max_length gids p block_size use_eagle alignment_tokens dcp pcp =
     (let bs = (if dcp * pcp > 1 then block_size * (dcp * pcp) else block_size);
          computed = full_hit_loop p gids (take (max_length div bs) (hl_list hashes)) (replicate (length gids) []);
          computed1 = (if use_eagle \<and> hd computed \<noteq> [] then map butlast computed else computed)
      in align_loop bs alignment_tokens computed1)"

fun window_loop ::
  "block_pool \<Rightarrow> nat list \<Rightarrow> hash_list \<Rightarrow> nat \<Rightarrow> bool \<Rightarrow> nat \<Rightarrow> int \<Rightarrow> nat \<Rightarrow> nat list list \<Rightarrow> nat \<Rightarrow>
     (nat list list \<times> nat \<times> bool) res" where
  "window_loop p gids hashes bs use_eagle al need 0 computed contiguous = Inr (computed, contiguous, False)"
| "window_loop p gids hashes bs use_eagle al need (Suc i) computed contiguous =
     rbind (hl_at hashes i) (\<lambda>h.
       (case get_cached_block p h gids of
          Some (c # cs) \<Rightarrow>
            if contiguous = 0 \<and> bs \<noteq> al \<and> ((if use_eagle then i else i + 1) * bs) mod al \<noteq> 0
            then window_loop p gids hashes bs use_eagle al need i computed contiguous
            else let computed1 = map2 (\<lambda>x b. x[i := b]) computed (c # cs);
                     contiguous1 = contiguous + 1
                 in if int contiguous1 \<ge> need
                    then Inr (map (take (i + contiguous1)) computed1, contiguous1, True)
                    else window_loop p gids hashes bs use_eagle al need i computed1 contiguous1
        | _ \<Rightarrow> window_loop p gids hashes bs use_eagle al need i computed 0))"

definition sliding_window_hit ::
  "hash_list \<Rightarrow> nat \<Rightarrow> nat list \<Rightarrow> block_pool \<Rightarrow> nat \<Rightarrow> nat \<Rightarrow> bool \<Rightarrow> nat \<Rightarrow> nat list list res" where
  "sliding_window_hit hashes max_length gids p bs w use_eagle al =
     (let need = cdiv (int w - 1) (int bs) + (if use_eagle then 1 else 0);
          n = max_length div bs
      in rbind (window_loop p gids hashes bs use_eagle al need n (replicate (length gids) (replicate n (null_block p))) 0)
           (\<lambda>(computed, contiguous, match_found).
              let c1 = (if match_found then computed
                        else align_loop bs al (map (take contiguous) computed))
              in Inr (if use_eagle \<and> hd c1 \<noteq> [] then align_loop bs al (map butlast c1) else c1)))"

fun chunk_hit_loop :: "block_pool \<Rightarrow> nat list \<Rightarrow> hash_list \<Rightarrow> nat list \<Rightarrow> nat list list \<Rightarrow> nat list list res" where
  "chunk_hit_loop p gids hashes [] computed = Inr computed"
| "chunk_hit_loop p gids hashes (i # is) computed =
     rbind (hl_at hashes i) (\<lambda>h.
       (case get_cached_block p h gids of
          Some (c # cs) \<Rightarrow> chunk_hit_loop p gids hashes is (map2 (\<lambda>x b. x @ [b]) computed (c # cs))
        | _ \<Rightarrow> Inr computed))"

definition chunked_local_hit ::
  "hash_list \<Rightarrow> nat \<Rightarrow> nat list \<Rightarrow> block_pool \<Rightarrow> nat \<Rightarrow> nat \<Rightarrow> bool \<Rightarrow> nat \<Rightarrow> nat list list res" where
  "chunked_local_hit hashes max_length gids p bs chunk use_eagle al =
     (if use_eagle \<or> bs \<noteq> al then Inl AssertionError
      else let n = max_length div bs;
               start = (if max_length > 0 then max_length div chunk * chunk else 0);
               start_block = start div bs
           in chunk_hit_loop p gids hashes [start_block..<n]
                (replicate (length gids) (replicate start_block (null_block p))))"

fun mamba_hit_loop :: "block_pool \<Rightarrow> nat list \<Rightarrow> hash_list \<Rightarrow> nat \<Rightarrow> nat \<Rightarrow> nat \<Rightarrow> nat list list \<Rightarrow> nat list list res" where
  "mamba_hit_loop p gids hashes bs al 0 computed = Inr computed"
| "mamba_hit_loop p gids hashes bs al (Suc i) computed =
     rbind (hl_at hashes i) (\<lambda>h.
       (case get_cached_block p h gids of
          Some (c # cs) \<Rightarrow>
            if bs \<noteq> al \<and> (i + 1) * bs mod al \<noteq> 0
            then mamba_hit_loop p gids hashes bs al i computed
            else Inr (map2 (\<lambda>x b. x @ replicate i (null_block p) @ [b]) computed (c # cs))
        | _ \<Rightarrow> mamba_hit_loop p gids hashes bs al i computed))"

definition find_longest_cache_hit ::
  "hash_list \<Rightarrow> nat \<Rightarrow> nat list \<Rightarrow> block_pool \<Rightarrow> kv_cache_spec \<Rightarrow> bool \<Rightarrow> nat \<Rightarrow> nat \<Rightarrow> nat \<Rightarrow> nat list list res" where
  "find_longest_cache_hit hashes max_length gids p spec use_eagle al dcp pcp =
     (case spec of
        SlidingWindowSpec bs w \<Rightarrow>
          if dcp \<noteq> 1 \<or> pcp \<noteq> 1 then Inl AssertionError else sliding_window_hit hashes max_length gids p bs w use_eagle al
      | SlidingWindowMLASpec bs w \<Rightarrow>
          if dcp \<noteq> 1 \<or> pcp \<noteq> 1 then Inl AssertionError else sliding_window_hit hashes max_length gids p bs w use_eagle al
      | ChunkedLocalAttentionSpec bs c \<Rightarrow>
          if dcp \<noteq> 1 \<or> pcp \<noteq> 1 then Inl AssertionError else chunked_local_hit hashes max_length gids p bs c use_eagle al
      | MambaSpec bs mode k \<Rightarrow>
          if dcp \<noteq> 1 \<or> pcp \<noteq> 1 then Inl AssertionError
          else mamba_hit_loop p gids hashes bs al (max_length div bs) (replicate (length gids) [])
      | CrossAttentionSpec bs \<Rightarrow> Inl NotImplementedError
      | _ \<Rightarrow> Inr (full_attention_hit hashes max_length gids p (spec_block_size spec) use_eagle al dcp pcp))"

end
