(* ===== verification/VL_Coordinator.thy ===== *)
theory VL_Coordinator
  imports VL_CacheHit VL_Ledger
begin

text \<open>
  The KV cache coordinator and manager (\<open>v1/core/kv_cache_coordinator.py\<close>,
  \<open>v1/core/kv_cache_manager.py\<close>).  The three coordinator classes are one record with a kind;
  it owns the block pool and the manager of every group, and a method that loops over the
  managers threads the pool through them.  Two specifications are equal when their block sizes
  and windows are; the tensor shapes are not in the model.  Prefix-cache statistics and the
  annotation of events with specification kinds are not modelled.
\<close>

subsection \<open>State\<close>

record kv_cache_config =
  num_blocks :: nat
  kv_cache_groups :: "(kv_cache_spec \<times> bool) list"

datatype coordinator_kind = NoPrefixCache | Unitary | Hybrid

record kv_coordinator =
  c_kind :: coordinator_kind
  c_groups :: "(kv_cache_spec \<times> bool) list"
  c_pool :: block_pool
  c_managers :: "kv_manager list"
  eagle_group_ids :: "nat list"
  c_block_size :: nat
  c_dcp :: nat
  c_pcp :: nat
  c_hash_block_size :: nat
  attention_groups :: "(kv_cache_spec \<times> nat list) list"
  lcm_block_size :: nat
  eagle_attn_group_indices :: "nat list"

text \<open>A method applied to every manager in turn.\<close>

fun each_manager ::
  "(nat \<Rightarrow> kv_manager \<Rightarrow> block_pool \<Rightarrow> ('a \<times> kv_manager \<times> block_pool) res) \<Rightarrow> nat \<Rightarrow> kv_manager list \<Rightarrow>
     block_pool \<Rightarrow> ('a list \<times> kv_manager list \<times> block_pool) res" where
  "each_manager f i [] p = Inr ([], [], p)"
| "each_manager f i (m # ms) p =
     rbind (f i m p) (\<lambda>(x, m1, p1).
     rbind (each_manager f (i + 1) ms p1) (\<lambda>(xs, ms1, p2). Inr (x # xs, m1 # ms1, p2)))"

definition on_managers ::
  "(nat \<Rightarrow> kv_manager \<Rightarrow> block_pool \<Rightarrow> ('a \<times> kv_manager \<times> block_pool) res) \<Rightarrow> kv_coordinator \<Rightarrow>
     ('a list \<times> kv_coordinator) res" where
  "on_managers f c =
     rbind (each_manager f 0 (c_managers c) (c_pool c))
       (\<lambda>(xs, ms, p). Inr (xs, c\<lparr>c_managers := ms, c_pool := p\<rparr>))"

definition at_group :: "nat list list \<Rightarrow> nat \<Rightarrow> nat list res" where
  "at_group bs i = (if i < length bs then Inr (bs ! i) else Inl IndexError)"

subsection \<open>Construction\<close>

fun make_managers ::
  "(kv_cache_spec \<times> bool) list \<Rightarrow> nat \<Rightarrow> int \<Rightarrow> int \<Rightarrow> bool \<Rightarrow> nat \<Rightarrow> nat \<Rightarrow> block_pool \<Rightarrow>
     (kv_manager list \<times> block_pool) res" where
  "make_managers [] i max_batched max_len caching dcp pcp p = Inr ([], p)"
| "make_managers (g # gs) i max_batched max_len caching dcp pcp p =
     rbind (get_manager_for_kv_cache_spec (fst g) max_batched max_len caching i dcp pcp p) (\<lambda>(m, p1).
     rbind (make_managers gs (i + 1) max_batched max_len caching dcp pcp p1) (\<lambda>(ms, p2). Inr (m # ms, p2)))"

fun add_attention_group :: "kv_cache_spec \<Rightarrow> nat \<Rightarrow> (kv_cache_spec \<times> nat list) list \<Rightarrow> (kv_cache_spec \<times> nat list) list" where
  "add_attention_group spec i [] = [(spec, [i])]"
| "add_attention_group spec i ((s, ids) # gs) =
     (if s = spec then (s, ids @ [i]) # gs else (s, ids) # add_attention_group spec i gs)"

definition split_groups :: "(kv_cache_spec \<times> bool) list \<Rightarrow> (kv_cache_spec \<times> nat list) list" where
  "split_groups gs =
     fold (\<lambda>(i, g). add_attention_group (fst g) i) (zip [0..<length gs] gs) []"

definition verify_and_split_kv_cache_groups :: "kv_coordinator \<Rightarrow> kv_coordinator res" where
  "verify_and_split_kv_cache_groups c =
     (let ags = split_groups (c_groups c) in
      if \<not> length ags > 1 then Inl AssertionError
      else let sorted_ags = filter (is_full_attention \<circ> fst) ags @ filter (Not \<circ> is_full_attention \<circ> fst) ags
           in Inr (c\<lparr>attention_groups := sorted_ags,
                     lcm_block_size := fold lcm (map (spec_block_size \<circ> fst) ags) 1,
                     eagle_attn_group_indices :=
                       filter (\<lambda>i. list_ex (\<lambda>g. g \<in> set (eagle_group_ids c)) (snd (sorted_ags ! i)))
                         [0..<length sorted_ags]\<rparr>))"

definition get_kv_cache_coordinator ::
  "kv_cache_config \<Rightarrow> int \<Rightarrow> int \<Rightarrow> bool \<Rightarrow> bool \<Rightarrow> bool \<Rightarrow> nat \<Rightarrow> nat \<Rightarrow> nat \<Rightarrow> bool \<Rightarrow> kv_coordinator res" where
  "get_kv_cache_coordinator cfg max_model_len max_num_batched_tokens use_eagle caching events dcp pcp hbs ints =
     rbind (block_pool_init (num_blocks cfg) caching hbs events ints) (\<lambda>p.
     let gs = kv_cache_groups cfg;
         flagged = filter (\<lambda>i. snd (gs ! i)) [0..<length gs];
         eagle = (if use_eagle \<and> flagged = [] then [0..<length gs] else flagged)
     in rbind (make_managers gs 0 max_num_batched_tokens max_model_len caching dcp pcp p) (\<lambda>(ms, p1).
        let c = \<lparr>c_kind = NoPrefixCache, c_groups = gs, c_pool = p1, c_managers = ms, eagle_group_ids = eagle,
                 c_block_size = 0, c_dcp = dcp, c_pcp = pcp, c_hash_block_size = hbs, attention_groups = [],
                 lcm_block_size = 0, eagle_attn_group_indices = []\<rparr>
        in if \<not> caching then Inr c
           else if length gs = 1
           then let bs0 = spec_block_size (fst (gs ! 0));
                    bs1 = (if dcp > 1 then bs0 * dcp else bs0);
                    bs = (if pcp > 1 then bs1 * pcp else bs1)
                in if hbs \<noteq> bs then Inl AssertionError
                   else Inr (c\<lparr>c_kind := Unitary, c_block_size := bs\<rparr>)
           else if \<not> list_all (\<lambda>g. spec_block_size (fst g) mod hbs = 0) gs \<or> dcp \<noteq> 1 \<or> pcp \<noteq> 1
           then Inl AssertionError
           else verify_and_split_kv_cache_groups (c\<lparr>c_kind := Hybrid\<rparr>)))"

subsection \<open>Operations on all groups\<close>

definition coord_num_blocks_to_allocate ::
  "string \<Rightarrow> int \<Rightarrow> nat list list \<Rightarrow> int \<Rightarrow> int \<Rightarrow> int \<Rightarrow> bool \<Rightarrow> kv_coordinator \<Rightarrow> (int \<times> kv_coordinator) res" where
  "coord_num_blocks_to_allocate rid ntoks new_computed num_encoder_tokens total_computed_tokens ntoks_main apply_cap c =
     rbind (on_managers (\<lambda>i m p.
        if is_cross (m_spec m)
        then rbind (num_blocks_to_allocate rid num_encoder_tokens [] 0 num_encoder_tokens apply_cap m p)
               (\<lambda>(n, m1). Inr (n, m1, p))
        else rbind (at_group new_computed i) (\<lambda>bs.
             rbind (num_blocks_to_allocate rid ntoks bs total_computed_tokens ntoks_main apply_cap m p)
               (\<lambda>(n, m1). Inr (n, m1, p)))) c)
       (\<lambda>(ns, c1). Inr (sum_list ns, c1))"

definition coord_allocate_new_computed_blocks ::
  "string \<Rightarrow> nat list list \<Rightarrow> int \<Rightarrow> int \<Rightarrow> kv_coordinator \<Rightarrow> kv_coordinator res" where
  "coord_allocate_new_computed_blocks rid new_computed num_local num_external c =
     rbind (on_managers (\<lambda>i m p.
        rbind (at_group new_computed i) (\<lambda>bs.
        rbind (allocate_new_computed_blocks rid bs num_local num_external m p) (\<lambda>(m1, p1). Inr ((), m1, p1)))) c)
       (\<lambda>(us, c1). Inr c1)"

definition coord_allocate_new_blocks ::
  "string \<Rightarrow> int \<Rightarrow> int \<Rightarrow> int \<Rightarrow> kv_coordinator \<Rightarrow> (nat list list \<times> kv_coordinator) res" where
  "coord_allocate_new_blocks rid ntoks ntoks_main num_encoder_tokens =
     on_managers (\<lambda>i m p.
       allocate_new_blocks rid (if is_cross (m_spec m) then num_encoder_tokens else ntoks) ntoks_main m p)"

definition coord_cache_blocks :: "(bytes \<Rightarrow> bytes) \<Rightarrow> request \<Rightarrow> nat \<Rightarrow> kv_coordinator \<Rightarrow> kv_coordinator res" where
  "coord_cache_blocks sha256 r num_computed c =
     (let (n, al) = (if c_kind c = Hybrid
                     then (num_computed div lcm_block_size c * lcm_block_size c, Some (lcm_block_size c))
                     else (num_computed, None))
      in rbind (on_managers (\<lambda>i m p.
           rbind (cache_blocks sha256 r n al m p) (\<lambda>(m1, p1). Inr ((), m1, p1))) c) (\<lambda>(us, c1). Inr c1))"

definition coord_free :: "string \<Rightarrow> kv_coordinator \<Rightarrow> kv_coordinator res" where
  "coord_free rid c =
     rbind (on_managers (\<lambda>i m p. rbind (free_request rid m p) (\<lambda>(m1, p1). Inr ((), m1, p1))) c)
       (\<lambda>(us, c1). Inr c1)"

definition coord_get_num_common_prefix_blocks :: "string \<Rightarrow> kv_coordinator \<Rightarrow> (nat list \<times> kv_coordinator) res" where
  "coord_get_num_common_prefix_blocks rid c =
     (if c_kind c = NoPrefixCache then Inr (replicate (length (c_managers c)) 0, c)
      else on_managers (\<lambda>i m p. let (n, m1) = get_num_common_prefix_blocks rid m p in Inr (n, m1, p)) c)"

definition coord_remove_skipped_blocks :: "string \<Rightarrow> int \<Rightarrow> kv_coordinator \<Rightarrow> kv_coordinator res" where
  "coord_remove_skipped_blocks rid total_computed_tokens c =
     rbind (on_managers (\<lambda>i m p.
       rbind (remove_skipped_blocks rid total_computed_tokens m p) (\<lambda>(m1, p1). Inr ((), m1, p1))) c)
       (\<lambda>(us, c1). Inr c1)"

definition coord_get_blocks :: "string \<Rightarrow> kv_coordinator \<Rightarrow> nat list list" where
  "coord_get_blocks rid c = map (\<lambda>m. req_blocks m rid) (c_managers c)"

definition coord_new_step_starts :: "kv_coordinator \<Rightarrow> kv_coordinator" where
  "coord_new_step_starts c = c\<lparr>c_managers := map new_step_starts (c_managers c)\<rparr>"

subsection \<open>The longest cache hit\<close>

definition group_hashes :: "bytes list \<Rightarrow> nat \<Rightarrow> kv_cache_spec \<Rightarrow> hash_list res" where
  "group_hashes hs hbs spec =
     (if spec_block_size spec = hbs then Inr (PlainHashes hs)
      else if spec_block_size spec mod hbs = 0 then Inr (ScaledHashes hs (spec_block_size spec div hbs))
      else Inl AssertionError)"

type_synonym hit_state = "nat \<times> nat list option list \<times> nat list"

fun hybrid_pass ::
  "bytes list \<Rightarrow> nat \<Rightarrow> kv_coordinator \<Rightarrow> nat \<Rightarrow> (kv_cache_spec \<times> nat list) list \<Rightarrow> hit_state \<Rightarrow> hit_state res" where
  "hybrid_pass hs max_hit c idx [] st = Inr st"
| "hybrid_pass hs max_hit c idx ((spec, gids) # ags) (cur_len, hits, verified) =
     (let bs = spec_block_size spec in
      if is_full_attention spec \<and> hits ! hd gids \<noteq> None
      then hybrid_pass hs max_hit c (idx + 1) ags (cur_len div bs * bs, hits, verified)
      else let use_eagle = (idx \<in> set (eagle_attn_group_indices c) \<and> idx \<notin> set verified);
               max_len = (if use_eagle then min (cur_len + bs) max_hit else cur_len)
           in rbind (group_hashes hs (c_hash_block_size c) spec) (\<lambda>hl.
              rbind (find_longest_cache_hit hl max_len gids (c_pool c) spec use_eagle (lcm_block_size c) 1 1) (\<lambda>hit_blocks.
                let new_len = length (hd hit_blocks) * bs;
                    verified1 = (if use_eagle then List.insert idx verified
                                 else if new_len < cur_len then [] else verified);
                    hits1 = fold (\<lambda>(g, b) h. h[g := Some b]) (zip gids hit_blocks) hits
                in hybrid_pass hs max_hit c (idx + 1) ags (new_len, hits1, verified1))))"

function hybrid_loop ::
  "bytes list \<Rightarrow> nat \<Rightarrow> kv_coordinator \<Rightarrow> bool \<Rightarrow> nat \<Rightarrow> nat list option list \<Rightarrow> nat list \<Rightarrow>
     (nat \<times> nat list option list) res" where
  "hybrid_loop hs max_hit c simple hit_length hits verified =
     (case hybrid_pass hs max_hit c 0 (attention_groups c) (hit_length, hits, verified) of
        Inl e \<Rightarrow> Inl e
      | Inr (cur_len, hits1, verified1) \<Rightarrow>
          if cur_len \<ge> hit_length then Inr (hit_length, hits1)
          else if simple then Inr (cur_len, hits1)
          else hybrid_loop hs max_hit c simple cur_len hits1 verified1)"
  by pat_completeness auto
termination
  by (relation "measure (\<lambda>(hs, m, c, s, len, h, v). len)") auto

declare hybrid_loop.simps [simp del]

definition hybrid_hit :: "bytes list \<Rightarrow> nat \<Rightarrow> kv_coordinator \<Rightarrow> (nat list list \<times> nat) res" where
  "hybrid_hit hs max_hit c =
     (let simple = (length (attention_groups c) = 2 \<and> is_full_attention (fst (attention_groups c ! 0)))
      in rbind (hybrid_loop hs max_hit c simple max_hit (replicate (length (c_groups c)) None) []) (\<lambda>(hit_length, hits).
         let (spec, gids) = attention_groups c ! 0;
             hits1 = (if is_full_attention spec
                      then fold (\<lambda>g h. h[g := map_option (take (hit_length div spec_block_size spec)) (h ! g)]) gids hits
                      else hits)
         in Inr (map (\<lambda>b. case b of None \<Rightarrow> [] | Some bs \<Rightarrow> bs) hits1, hit_length)))"

definition coord_find_longest_cache_hit :: "bytes list \<Rightarrow> nat \<Rightarrow> kv_coordinator \<Rightarrow> (nat list list \<times> nat) res" where
  "coord_find_longest_cache_hit hs max_hit c =
     (case c_kind c of
        NoPrefixCache \<Rightarrow> Inr (replicate (length (c_managers c)) [], 0)
      | Unitary \<Rightarrow>
          rbind (find_longest_cache_hit (PlainHashes hs) max_hit [0] (c_pool c) (fst (c_groups c ! 0))
                   (0 \<in> set (eagle_group_ids c)) (c_block_size c) (c_dcp c) (c_pcp c))
            (\<lambda>hit. Inr (hit, length (hd hit) * c_block_size c))
      | Hybrid \<Rightarrow> hybrid_hit hs max_hit c)"

subsection \<open>The KV cache manager\<close>

record kv_cache_manager =
  k_max_model_len :: nat
  k_enable_caching :: bool
  k_num_groups :: nat
  coordinator :: kv_coordinator

definition kv_cache_manager_init ::
  "kv_cache_config \<Rightarrow> nat \<Rightarrow> nat \<Rightarrow> nat option \<Rightarrow> bool \<Rightarrow> bool \<Rightarrow> bool \<Rightarrow> nat \<Rightarrow> nat \<Rightarrow> bool \<Rightarrow> kv_cache_manager res" where
  "kv_cache_manager_init cfg max_model_len hbs max_batched caching use_eagle events dcp pcp ints =
     rbind (get_kv_cache_coordinator cfg (int max_model_len)
              (int (case max_batched of None \<Rightarrow> max_model_len | Some n \<Rightarrow> n)) use_eagle caching events dcp pcp hbs ints)
       (\<lambda>c. Inr \<lparr>k_max_model_len = max_model_len, k_enable_caching = caching,
                 k_num_groups = length (kv_cache_groups cfg), coordinator = c\<rparr>)"

definition empty_blocks :: "kv_cache_manager \<Rightarrow> nat list list" where
  "empty_blocks k = replicate (k_num_groups k) []"

definition create_kv_cache_blocks :: "kv_cache_manager \<Rightarrow> nat list list \<Rightarrow> nat list list" where
  "create_kv_cache_blocks k bs = (if list_ex (\<lambda>b. b \<noteq> []) bs then bs else empty_blocks k)"

definition get_computed_blocks :: "request \<Rightarrow> kv_cache_manager \<Rightarrow> (nat list list \<times> nat) res" where
  "get_computed_blocks r k =
     (if \<not> k_enable_caching k \<or> skip_reading_prefix_cache r then Inr (empty_blocks k, 0)
      else rbind (coord_find_longest_cache_hit (block_hashes r) (num_tokens r - 1) (coordinator k))
             (\<lambda>(bs, n). Inr (create_kv_cache_blocks k bs, n)))"

text \<open>\<open>allocate_slots\<close>; the new computed blocks are the caller's, normalised by
  \<open>create_kv_cache_blocks\<close>, so the identity test with the empty constant is emptiness.\<close>

definition allocate_slots ::
  "(bytes \<Rightarrow> bytes) \<Rightarrow> request \<Rightarrow> nat \<Rightarrow> nat \<Rightarrow> nat list list option \<Rightarrow> nat \<Rightarrow> nat \<Rightarrow> bool \<Rightarrow> nat \<Rightarrow> bool \<Rightarrow>
     kv_cache_manager \<Rightarrow> (nat list list option \<times> kv_cache_manager) res" where
  "allocate_slots sha256 r num_new_tokens num_new_computed_tokens new_computed_blocks num_lookahead_tokens
       num_external_computed_tokens delay_cache_blocks num_encoder_tokens full_sequence_must_fit k =
     (if num_new_tokens = 0 \<and> num_external_computed_tokens = 0 then Inl ValueError
      else let computed = (case new_computed_blocks of None \<Rightarrow> empty_blocks k | Some bs \<Rightarrow> bs);
               rid = request_id r;
               num_local = num_computed_tokens r + num_new_computed_tokens;
               total_computed = min (num_local + num_external_computed_tokens) (k_max_model_len k);
               full = min (num_tokens r) (k_max_model_len k);
               c0 = coordinator k
      in rbind (if full_sequence_must_fit
                then rbind (coord_num_blocks_to_allocate rid (int full) computed (int num_encoder_tokens)
                              (int total_computed) (int full) True c0)
                       (\<lambda>(n, c). Inr (n > get_num_free_blocks (c_pool c), c))
                else Inr (False, c0)) (\<lambda>(wont_fit, c1).
         if wont_fit then Inr (None, k\<lparr>coordinator := c1\<rparr>)
         else let main = total_computed + num_new_tokens;
                  need_slot = min (main + num_lookahead_tokens) (k_max_model_len k)
         in rbind (coord_remove_skipped_blocks rid (int total_computed) c1) (\<lambda>c2.
            rbind (coord_num_blocks_to_allocate rid (int need_slot) computed (int num_encoder_tokens)
                     (int (num_local + num_external_computed_tokens)) (int main) False c2) (\<lambda>(n, c3).
            if n > get_num_free_blocks (c_pool c3) then Inr (None, k\<lparr>coordinator := c3\<rparr>)
            else rbind (if list_ex (\<lambda>b. b \<noteq> []) computed \<or> num_external_computed_tokens > 0
                        then coord_allocate_new_computed_blocks rid computed (int num_local)
                               (int num_external_computed_tokens) c3
                        else Inr c3) (\<lambda>c4.
            rbind (coord_allocate_new_blocks rid (int need_slot) (int main) (int num_encoder_tokens) c4) (\<lambda>(new, c5).
            if \<not> k_enable_caching k \<or> delay_cache_blocks
            then Inr (Some (create_kv_cache_blocks k new), k\<lparr>coordinator := c5\<rparr>)
            else rbind (coord_cache_blocks sha256 r (min (total_computed + num_new_tokens) (num_tokens r)) c5)
                   (\<lambda>c6. Inr (Some (create_kv_cache_blocks k new), k\<lparr>coordinator := c6\<rparr>))))))))"

definition kv_free :: "request \<Rightarrow> kv_cache_manager \<Rightarrow> kv_cache_manager res" where
  "kv_free r k = rbind (coord_free (request_id r) (coordinator k)) (\<lambda>c. Inr (k\<lparr>coordinator := c\<rparr>))"

definition kv_remove_skipped_blocks :: "string \<Rightarrow> int \<Rightarrow> kv_cache_manager \<Rightarrow> kv_cache_manager res" where
  "kv_remove_skipped_blocks rid n k =
     rbind (coord_remove_skipped_blocks rid n (coordinator k)) (\<lambda>c. Inr (k\<lparr>coordinator := c\<rparr>))"

definition kv_evict_blocks :: "nat list \<Rightarrow> kv_cache_manager \<Rightarrow> kv_cache_manager res" where
  "kv_evict_blocks ids k =
     rbind (evict_blocks ids (c_pool (coordinator k))) (\<lambda>p. Inr (k\<lparr>coordinator := (coordinator k)\<lparr>c_pool := p\<rparr>\<rparr>))"

definition kv_reset_prefix_cache :: "kv_cache_manager \<Rightarrow> bool \<times> kv_cache_manager" where
  "kv_reset_prefix_cache k =
     (let (ok, p) = reset_prefix_cache (c_pool (coordinator k))
      in (ok, k\<lparr>coordinator := (coordinator k)\<lparr>c_pool := p\<rparr>\<rparr>))"

definition kv_cache_blocks :: "(bytes \<Rightarrow> bytes) \<Rightarrow> request \<Rightarrow> nat \<Rightarrow> kv_cache_manager \<Rightarrow> kv_cache_manager res" where
  "kv_cache_blocks sha256 r n k =
     (if k_enable_caching k
      then rbind (coord_cache_blocks sha256 r n (coordinator k)) (\<lambda>c. Inr (k\<lparr>coordinator := c\<rparr>))
      else Inr k)"

definition kv_get_block_ids :: "string \<Rightarrow> kv_cache_manager \<Rightarrow> nat list list" where
  "kv_get_block_ids rid k = create_kv_cache_blocks k (coord_get_blocks rid (coordinator k))"

definition kv_take_new_block_ids :: "kv_cache_manager \<Rightarrow> nat list \<times> kv_cache_manager" where
  "kv_take_new_block_ids k =
     (let rs = map take_new_block_ids (c_managers (coordinator k))
      in (concat (map fst rs), k\<lparr>coordinator := (coordinator k)\<lparr>c_managers := map snd rs\<rparr>\<rparr>))"

definition kv_new_step_starts :: "kv_cache_manager \<Rightarrow> kv_cache_manager" where
  "kv_new_step_starts k = k\<lparr>coordinator := coord_new_step_starts (coordinator k)\<rparr>"

end
