(* ===== verification/VL_KVProofs.thy ===== *)
theory VL_KVProofs
  imports VL_Coordinator
begin

text \<open>
  Correctness of the KV cache manager: the ledgers of all groups over one pool, the passes of the
  coordinator, and from them that \<open>allocate_slots\<close> never fails half-way and that no block is lost.
\<close>

subsection \<open>The ledgers of all groups\<close>

definition all_refs :: "kv_manager list \<Rightarrow> nat multiset" where
  "all_refs ms = sum_list (map mgr_refs ms)"

lemma all_refs_simps [simp]: "all_refs [] = {#}" "all_refs (m # ms) = mgr_refs m + all_refs ms"
  by (simp_all add: all_refs_def)

definition hashes_off :: "block_pool \<Rightarrow> bool" where
  "hashes_off p \<longleftrightarrow> enable_caching p \<or> (\<forall>c<num_gpu_blocks p. bhash p c = None)"

fun ledgers :: "kv_manager list \<Rightarrow> block_pool \<Rightarrow> nat list \<Rightarrow> nat multiset \<Rightarrow> bool" where
  "ledgers [] p xs other \<longleftrightarrow> pool_inv p xs other \<and> hashes_off p"
| "ledgers (m # ms) p xs other \<longleftrightarrow> ledger m p xs (all_refs ms + other) \<and> ledgers ms p xs (mgr_refs m + other)"

lemma ledgers_pool: "ledgers ms p xs other \<Longrightarrow> pool_inv p xs (all_refs ms + other) \<and> hashes_off p"
  by (induction ms arbitrary: other) (fastforce simp: ac_simps)+

definition gframe :: "nat multiset \<Rightarrow> block_pool \<Rightarrow> nat multiset \<Rightarrow> block_pool \<Rightarrow> nat multiset \<Rightarrow> bool" where
  "gframe A p A' p' other \<longleftrightarrow> same_config p p' \<and>
     (\<forall>c\<in>#other. c < num_gpu_blocks p \<and> c \<noteq> null_block p \<longrightarrow> bhash p' c = bhash p c \<and>
        (bhash p c = None \<longrightarrow> count A' c \<le> count A c))"

lemma frame_gframe: "frame m p m' p' other \<Longrightarrow> gframe (mgr_refs m) p (mgr_refs m') p' other"
  by (simp add: frame_def gframe_def)

lemma gframe_mono: "gframe A p A' p' other \<Longrightarrow> set_mset other' \<subseteq> set_mset other \<Longrightarrow> gframe A p A' p' other'"
  by (auto simp: gframe_def)

lemma gframe_seq:
  assumes "gframe A p A' p1 other" "gframe B p1 B' p2 other"
  shows "gframe (A + B) p (A' + B') p2 other"
  using assms unfolding gframe_def same_config_def by (auto simp: add_mono dest!: bspec)

lemma ledger_gframe:
  assumes l: "ledger m p xs (A + other)" and g: "gframe A p A' p' (mgr_refs m + other)"
    and inv: "pool_inv p' xs' (mgr_refs m + (A' + other))" "hashes_off p'"
  shows "ledger m p' xs' (A' + other)"
proof -
  have cfg: "same_config p p'" using g by (simp add: gframe_def)
  have c: "bhash p' c = None \<and> count (mgr_refs m + (A' + other)) c = 1"
    if "bhash p c = None" "count (mgr_refs m + (A + other)) c = 1" "c \<noteq> null_block p" "c \<in> set (req_blocks m k)" for c k
  proof -
    have m: "c \<in># mgr_refs m"
      using ledger_held [OF l, of k] that(4) by (meson mset_subset_eqD in_multiset_in_set)
    have lt: "c < num_gpu_blocks p" using ledger_table(2) [OF l, of k] that(4) by auto
    have f: "bhash p' c = bhash p c" "bhash p c = None \<longrightarrow> count A' c \<le> count A c"
      using g m lt that(3) by (auto simp: gframe_def)
    have "0 < count (mgr_refs m) c" using m by simp
    then have "count A c = 0" "count A' c = 0" using that f unfolding count_union by linarith+
    then show ?thesis using that f by simp
  qed
  have cf: "num_gpu_blocks p' = num_gpu_blocks p" "null_block p' = null_block p" "enable_caching p' = enable_caching p"
    using cfg by (simp_all add: same_config_def)
  have "mgr_ok m p' (mgr_refs m + (A' + other))"
    unfolding mgr_ok_def
  proof (intro conjI allI impI)
    show "table_ok p' (req_to_blocks m)" using ledger_table(1) [OF l] table_ok_config [OF cfg] by simp
    fix k i
    assume "cached_count m k \<le> i \<and> i < length (req_blocks m k) \<and> req_blocks m k ! i \<noteq> null_block p'"
    then have i: "cached_count m k \<le> i" "i < length (req_blocks m k)" "req_blocks m k ! i \<noteq> null_block p"
      using cf by auto
    from c [OF ledger_uncached [OF l i] i(3)] i(2)
    show "bhash p' (req_blocks m k ! i) = None" "count (mgr_refs m + (A' + other)) (req_blocks m k ! i) = 1"
      using nth_mem by blast+
  qed (use l in \<open>auto simp: ledger_def mgr_ok_def\<close>)
  then show ?thesis
    using inv l cf by (simp add: ledger_def hashes_off_def)
qed

lemma ledgers_gframe:
  assumes "ledgers ms p xs (A + other)" "gframe A p A' p' (all_refs ms + other)"
    "pool_inv p' xs' (all_refs ms + (A' + other))" "hashes_off p'"
  shows "ledgers ms p' xs' (A' + other)"
  using assms
proof (induction ms arbitrary: other)
  case (Cons m ms)
  have pool: "pool_inv p' xs' (mgr_refs m + (A' + (all_refs ms + other)))"
    "pool_inv p' xs' (all_refs ms + (A' + (mgr_refs m + other)))"
    using Cons.prems(3) by (simp_all only: all_refs_simps union_ac)
  have l: "ledger m p xs (A + (all_refs ms + other))" "ledgers ms p xs (A + (mgr_refs m + other))"
    using Cons.prems(1) by (simp_all only: ledgers.simps union_ac)
  have g: "gframe A p A' p' (mgr_refs m + (all_refs ms + other))" "gframe A p A' p' (all_refs ms + (mgr_refs m + other))"
    using Cons.prems(2) by (simp_all only: all_refs_simps union_ac)
  have "ledger m p' xs' (A' + (all_refs ms + other))"
    by (rule ledger_gframe [OF l(1) g(1) pool(1) Cons.prems(4)])
  moreover have "ledgers ms p' xs' (A' + (mgr_refs m + other))"
    by (rule Cons.IH [OF l(2) g(2) pool(2) Cons.prems(4)])
  ultimately show ?case by (simp only: ledgers.simps union_ac)
qed simp

lemma ledger_hashes: "ledger m p xs other \<Longrightarrow> hashes_off p"
  by (simp add: ledger_def hashes_off_def)

text \<open>A step that keeps one ledger and its frame, applied to every manager, keeps all of them.\<close>

lemma each_manager_ok:
  assumes step: "\<And>i m p xs other. ledger m p xs other \<Longrightarrow> Q p \<Longrightarrow> Pre i m \<Longrightarrow> cost i m \<le> length xs \<Longrightarrow>
      \<exists>x m' p' xs'. f i m p = Inr (x, m', p') \<and> ledger m' p' xs' other \<and> frame m p m' p' other \<and> Q p' \<and>
        length xs \<le> length xs' + cost i m \<and> Post i m x m'"
  shows "ledgers ms p xs other \<Longrightarrow> Q p \<Longrightarrow> (\<And>j. j < length ms \<Longrightarrow> Pre (i + j) (ms ! j)) \<Longrightarrow>
    (\<Sum>j<length ms. cost (i + j) (ms ! j)) \<le> length xs \<Longrightarrow>
    \<exists>ys ms' p' xs'. each_manager f i ms p = Inr (ys, ms', p') \<and> ledgers ms' p' xs' other \<and>
      gframe (all_refs ms) p (all_refs ms') p' other \<and> Q p' \<and>
      length xs \<le> length xs' + (\<Sum>j<length ms. cost (i + j) (ms ! j)) \<and> length ys = length ms \<and> length ms' = length ms \<and>
      (\<forall>j<length ms. Post (i + j) (ms ! j) (ys ! j) (ms' ! j))"
proof (induction ms arbitrary: i p xs other)
  case Nil
  then show ?case by (auto simp: gframe_def intro!: exI [of _ xs])
next
  case (Cons m ms)
  have sum: "(\<Sum>j<length (m # ms). cost (i + j) ((m # ms) ! j)) = cost i m + (\<Sum>j<length ms. cost (i + 1 + j) (ms ! j))"
    by (simp only: list.size(4) add_Suc_right add_0_right sum.lessThan_Suc_shift) simp
  have l: "ledger m p xs (all_refs ms + other)" "ledgers ms p xs (mgr_refs m + other)" using Cons.prems(1) by simp_all
  have "Pre i m" using Cons.prems(3) [of 0] by simp
  moreover have "cost i m \<le> length xs" using Cons.prems(4) sum by linarith
  ultimately obtain x m1 p1 xs1 where 1: "f i m p = Inr (x, m1, p1)" "ledger m1 p1 xs1 (all_refs ms + other)"
    "frame m p m1 p1 (all_refs ms + other)" "Q p1" "length xs \<le> length xs1 + cost i m" "Post i m x m1"
    using step [OF l(1) Cons.prems(2)] by blast
  have g1: "gframe (mgr_refs m) p (mgr_refs m1) p1 (all_refs ms + other)" using frame_gframe [OF 1(3)] .
  have l1: "ledgers ms p1 xs1 (mgr_refs m1 + other)"
  proof (rule ledgers_gframe [OF l(2) g1])
    show "pool_inv p1 xs1 (all_refs ms + (mgr_refs m1 + other))"
      using ledger_pool [OF 1(2)] by (simp add: ac_simps)
    show "hashes_off p1" by (rule ledger_hashes [OF 1(2)])
  qed
  have "\<exists>ys ms' p' xs'. each_manager f (i + 1) ms p1 = Inr (ys, ms', p') \<and> ledgers ms' p' xs' (mgr_refs m1 + other) \<and>
      gframe (all_refs ms) p1 (all_refs ms') p' (mgr_refs m1 + other) \<and> Q p' \<and>
      length xs1 \<le> length xs' + (\<Sum>j<length ms. cost (i + 1 + j) (ms ! j)) \<and> length ys = length ms \<and> length ms' = length ms \<and>
      (\<forall>j<length ms. Post (i + 1 + j) (ms ! j) (ys ! j) (ms' ! j))"
  proof (rule Cons.IH [OF l1 1(4)])
    show "Pre (i + 1 + j) (ms ! j)" if "j < length ms" for j using Cons.prems(3) [of "Suc j"] that by simp
    show "(\<Sum>j<length ms. cost (i + 1 + j) (ms ! j)) \<le> length xs1" using Cons.prems(4) sum 1(5) by linarith
  qed
  then obtain ys ms' p' xs' where 2: "each_manager f (i + 1) ms p1 = Inr (ys, ms', p')"
    "ledgers ms' p' xs' (mgr_refs m1 + other)" "gframe (all_refs ms) p1 (all_refs ms') p' (mgr_refs m1 + other)" "Q p'"
    "length xs1 \<le> length xs' + (\<Sum>j<length ms. cost (i + 1 + j) (ms ! j))" "length ys = length ms" "length ms' = length ms"
    "\<forall>j<length ms. Post (i + 1 + j) (ms ! j) (ys ! j) (ms' ! j)"
    by blast
  have "ledger m1 p' xs' (all_refs ms' + other)"
  proof (rule ledger_gframe [OF 1(2) 2(3)])
    show "pool_inv p' xs' (mgr_refs m1 + (all_refs ms' + other))"
      using ledgers_pool [OF 2(2)] by (simp add: ac_simps)
    show "hashes_off p'" using ledgers_pool [OF 2(2)] by simp
  qed
  then have "ledgers (m1 # ms') p' xs' other" using 2(2) by simp
  moreover have "gframe (mgr_refs m + all_refs ms) p (mgr_refs m1 + all_refs ms') p' other"
    by (rule gframe_seq [OF gframe_mono [OF g1] gframe_mono [OF 2(3)]]) auto
  moreover have "Post (i + j) ((m # ms) ! j) ((x # ys) ! j) ((m1 # ms') ! j)" if "j < Suc (length ms)" for j
    using 1(6) 2(8) that by (cases j) auto
  moreover have "each_manager f i (m # ms) p = Inr (x # ys, m1 # ms', p')" using 1(1) 2(1) by simp
  ultimately show ?case
    using 1(5) 2(4-7) sum by (intro exI [of _ "x # ys"] exI [of _ "m1 # ms'"] exI [of _ p'] exI [of _ xs']) auto
qed

lemma each_manager_pure:
  "(\<And>j. j < length ms \<Longrightarrow> f (i + j) (ms ! j) p = Inr (g (i + j) (ms ! j), ms ! j, p)) \<Longrightarrow>
   each_manager f i ms p = Inr (map (\<lambda>j. g (i + j) (ms ! j)) [0..<length ms], ms, p)"
proof (induction ms arbitrary: i)
  case (Cons m ms)
  have "each_manager f (i + 1) ms p = Inr (map (\<lambda>j. g (i + 1 + j) (ms ! j)) [0..<length ms], ms, p)"
    using Cons.prems [of "Suc j" for j] by (intro Cons.IH) simp
  moreover have "f i m p = Inr (g i m, m, p)" using Cons.prems [of 0] by simp
  ultimately show ?case by (simp add: map_upt_Suc del: upt_Suc)
qed simp

lemma ledgers_nth: "ledgers ms p xs other \<Longrightarrow> j < length ms \<Longrightarrow> \<exists>other'. ledger (ms ! j) p xs other'"
proof (induction ms arbitrary: other j)
  case (Cons m ms)
  then show ?case by (cases j) auto
qed simp

definition kv_ok :: "kv_coordinator \<Rightarrow> nat list \<Rightarrow> bool" where
  "kv_ok c xs \<longleftrightarrow> ledgers (c_managers c) (c_pool c) xs {#} \<and>
     (\<forall>m\<in>set (c_managers c). attn_spec (m_spec m) \<and> window_pos (m_spec m))"

definition admissible :: "kv_coordinator \<Rightarrow> string \<Rightarrow> nat list list \<Rightarrow> nat \<Rightarrow> bool" where
  "admissible c rid comput tot \<longleftrightarrow> length comput = length (c_managers c) \<and>
     (\<forall>j<length comput. admits (c_managers c ! j) rid (comput ! j) tot \<and> hit_ok (c_pool c) (comput ! j)) \<and>
     (list_ex (\<lambda>b. b \<noteq> []) comput \<longrightarrow> (\<forall>m\<in>set (c_managers c).
        map_of (num_cached_block m) rid = None \<and> req_blocks m rid = []))"

text \<open>Two coordinators with the same managers, up to what the operations of one request change.\<close>

definition same_tables :: "string \<Rightarrow> kv_manager \<Rightarrow> kv_manager \<Rightarrow> bool" where
  "same_tables rid m m' \<longleftrightarrow> m_spec m' = m_spec m \<and> m_block_size m' = m_block_size m \<and>
     m_enable_caching m' = m_enable_caching m \<and>
     (\<forall>k. k \<noteq> rid \<longrightarrow> req_blocks m' k = req_blocks m k \<and> map_of (num_cached_block m') k = map_of (num_cached_block m) k)"

lemma same_tables_refl [simp]: "same_tables rid m m"
  by (simp add: same_tables_def)

lemma same_tables_trans: "same_tables rid a b \<Longrightarrow> same_tables rid b c \<Longrightarrow> same_tables rid a c"
  by (simp add: same_tables_def)

lemma frame_same_tables:
  assumes "frame m p m' p' other" "\<And>k. k \<noteq> rid \<Longrightarrow> req_blocks m' k = req_blocks m k"
    "\<And>k. k \<noteq> rid \<Longrightarrow> map_of (num_cached_block m') k = map_of (num_cached_block m) k"
  shows "same_tables rid m m'"
  using assms by (simp add: frame_def same_tables_def)

text \<open>Asking for the demand changes nothing.\<close>

lemma coord_demand:
  assumes ok: "kv_ok c xs" and a: "admissible c rid comput tot"
  shows "coord_num_blocks_to_allocate rid (int ntoks) comput enc (int tot) main False c
    = Inr (\<Sum>j<length (c_managers c). demand (c_managers c ! j) (c_pool c) rid ntoks (comput ! j) (int tot), c)"
proof -
  let ?f = "\<lambda>i m p.
        if is_cross (m_spec m)
        then rbind (num_blocks_to_allocate rid enc [] 0 enc False m p) (\<lambda>(n, m1). Inr (n, m1, p))
        else rbind (at_group comput i) (\<lambda>bs.
             rbind (num_blocks_to_allocate rid (int ntoks) bs (int tot) main False m p) (\<lambda>(n, m1). Inr (n, m1, p)))"
  have "each_manager ?f 0 (c_managers c) (c_pool c)
    = Inr (map (\<lambda>j. demand (c_managers c ! j) (c_pool c) rid ntoks (comput ! j) (int tot)) [0..<length (c_managers c)],
           c_managers c, c_pool c)"
  proof (rule each_manager_pure [of "c_managers c" ?f 0 "c_pool c"
        "\<lambda>j m. demand m (c_pool c) rid ntoks (comput ! j) (int tot)", unfolded add_0])
    fix j assume j: "j < length (c_managers c)"
    obtain other where l: "ledger (c_managers c ! j) (c_pool c) xs other"
      using ledgers_nth j ok by (force simp: kv_ok_def)
    have "admits (c_managers c ! j) rid (comput ! j) tot" using a j by (simp add: admissible_def)
    moreover have "\<not> is_cross (m_spec (c_managers c ! j))"
      using ok j by (intro attn_spec_ops(5)) (auto simp: kv_ok_def)
    ultimately show "?f j (c_managers c ! j) (c_pool c)
        = Inr (demand (c_managers c ! j) (c_pool c) rid ntoks (comput ! j) (int tot), c_managers c ! j, c_pool c)"
      using demand_computed [OF _ l] a j by (simp add: at_group_def admissible_def)
  qed
  then show ?thesis
    by (simp add: coord_num_blocks_to_allocate_def on_managers_def interv_sum_list_conv_sum_set_nat atLeast0LessThan)
qed

text \<open>So does the check whether the whole sequence fits, which applies the admission cap.\<close>

lemma num_blocks_total:
  assumes "attn_spec (m_spec m)" "comput \<noteq> [] \<longrightarrow> map_of (num_cached_block m) rid = None"
  shows "\<exists>n. num_blocks_to_allocate rid ntoks comput tot main cap m p = Inr (n, m)"
  using assms by (auto simp: attn_spec_ops num_blocks_to_allocate_base_def Let_def)

lemma coord_full_check:
  assumes ok: "kv_ok c xs" and a: "admissible c rid comput tot"
  shows "\<exists>n. coord_num_blocks_to_allocate rid ntoks comput enc tot' main cap c = Inr (n, c)"
proof -
  let ?f = "\<lambda>i m p.
        if is_cross (m_spec m)
        then rbind (num_blocks_to_allocate rid enc [] 0 enc cap m p) (\<lambda>(n, m1). Inr (n, m1, p))
        else rbind (at_group comput i) (\<lambda>bs.
             rbind (num_blocks_to_allocate rid ntoks bs tot' main cap m p) (\<lambda>(n, m1). Inr (n, m1, p)))"
  define g where "g = (\<lambda>j m. SOME n. num_blocks_to_allocate rid ntoks (comput ! j) tot' main cap m (c_pool c) = Inr (n, m))"
  have "each_manager ?f 0 (c_managers c) (c_pool c)
    = Inr (map (\<lambda>j. g j (c_managers c ! j)) [0..<length (c_managers c)], c_managers c, c_pool c)"
  proof (rule each_manager_pure [of "c_managers c" ?f 0 "c_pool c" g, unfolded add_0])
    fix j assume j: "j < length (c_managers c)"
    have spec: "attn_spec (m_spec (c_managers c ! j))" using ok j by (auto simp: kv_ok_def)
    have "\<exists>n. num_blocks_to_allocate rid ntoks (comput ! j) tot' main cap (c_managers c ! j) (c_pool c) = Inr (n, c_managers c ! j)"
      using a j by (intro num_blocks_total [OF spec]) (simp add: admissible_def admits_def)
    then have "num_blocks_to_allocate rid ntoks (comput ! j) tot' main cap (c_managers c ! j) (c_pool c)
        = Inr (g j (c_managers c ! j), c_managers c ! j)" unfolding g_def by (rule someI_ex)
    then show "?f j (c_managers c ! j) (c_pool c) = Inr (g j (c_managers c ! j), c_managers c ! j, c_pool c)"
      using a j attn_spec_ops(5) [OF spec] by (simp add: at_group_def admissible_def)
  qed
  then show ?thesis
    by (simp add: coord_num_blocks_to_allocate_def on_managers_def)
qed

definition pool_hash_eq :: "block_pool \<Rightarrow> block_pool \<Rightarrow> bool" where
  "pool_hash_eq p p' \<longleftrightarrow> same_config p p' \<and> (\<forall>c<num_gpu_blocks p. bhash p' c = bhash p c)"

lemma pool_hash_eq_refl [simp]: "pool_hash_eq p p"
  by (simp add: pool_hash_eq_def)

lemma pool_hash_eq_trans: "pool_hash_eq p q \<Longrightarrow> pool_hash_eq q r \<Longrightarrow> pool_hash_eq p r"
  by (simp add: pool_hash_eq_def same_config_def)

lemma hit_ok_eq:
  assumes "pool_hash_eq p p'"
  shows "hit_ok p' bs = hit_ok p bs"
proof (cases "set bs \<subseteq> {..<num_gpu_blocks p}")
  case True
  then have "\<forall>b\<in>set bs. bhash p' b = bhash p b" using assms by (auto simp: pool_hash_eq_def)
  then show ?thesis using assms by (simp add: pool_hash_eq_def same_config_def hit_ok_def real_blocks_def)
next
  case False
  then show ?thesis using assms by (simp add: pool_hash_eq_def same_config_def hit_ok_def)
qed

text \<open>What a pass over all managers keeps of the coordinator.\<close>

definition coord_same :: "kv_coordinator \<Rightarrow> kv_coordinator \<Rightarrow> bool" where
  "coord_same c c' \<longleftrightarrow> (\<exists>ms p. c' = c\<lparr>c_managers := ms, c_pool := p\<rparr>) \<and> length (c_managers c') = length (c_managers c) \<and>
     same_config (c_pool c) (c_pool c')"

lemma coord_same_refl [simp]: "coord_same c c"
  by (simp add: coord_same_def) (metis kv_coordinator.surjective kv_coordinator.update_convs(3,4))

lemma coord_same_trans: "coord_same a b \<Longrightarrow> coord_same b c \<Longrightarrow> coord_same a c"
  by (force simp: coord_same_def intro: same_config_trans)

lemma coord_same_fields:
  assumes "coord_same c c'"
  shows "c_kind c' = c_kind c" "c_groups c' = c_groups c" "lcm_block_size c' = lcm_block_size c"
    "length (c_managers c') = length (c_managers c)" "same_config (c_pool c) (c_pool c')"
  using assms by (auto simp: coord_same_def)

definition coord_tables :: "string \<Rightarrow> kv_coordinator \<Rightarrow> kv_coordinator \<Rightarrow> bool" where
  "coord_tables rid c c' \<longleftrightarrow> coord_same c c' \<and>
     (\<forall>j<length (c_managers c). same_tables rid (c_managers c ! j) (c_managers c' ! j))"

lemma coord_tables_refl [simp]: "coord_tables rid c c"
  by (simp add: coord_tables_def)

lemma coord_tables_trans:
  assumes "coord_tables rid a b" "coord_tables rid b c"
  shows "coord_tables rid a c"
proof -
  have "coord_same a b" "coord_same b c" using assms by (simp_all add: coord_tables_def)
  then have "coord_same a c" "length (c_managers b) = length (c_managers a)"
    by (rule coord_same_trans) (rule coord_same_fields(4) [OF \<open>coord_same a b\<close>])
  then show ?thesis
    using assms same_tables_trans by (simp add: coord_tables_def) blast
qed

text \<open>A pass over all managers, in the shape every operation of the coordinator has.\<close>

lemma on_managers_ok:
  assumes ok: "kv_ok c xs" and q: "Q (c_pool c)"
    and pre: "\<And>j. j < length (c_managers c) \<Longrightarrow> Pre j (c_managers c ! j)"
    and cost: "(\<Sum>j<length (c_managers c). cost j (c_managers c ! j)) \<le> length xs"
    and step: "\<And>i m p xs other. ledger m p xs other \<Longrightarrow> Q p \<Longrightarrow> attn_spec (m_spec m) \<Longrightarrow> window_pos (m_spec m) \<Longrightarrow>
      Pre i m \<Longrightarrow> cost i m \<le> length xs \<Longrightarrow>
      \<exists>x m' p' xs'. f i m p = Inr (x, m', p') \<and> ledger m' p' xs' other \<and> frame m p m' p' other \<and> Q p' \<and>
        length xs \<le> length xs' + cost i m \<and> same_tables rid m m' \<and> Post i m x m'"
  obtains ys c' xs' where "on_managers f c = Inr (ys, c')" "kv_ok c' xs'" "coord_tables rid c c'" "Q (c_pool c')"
    "length xs \<le> length xs' + (\<Sum>j<length (c_managers c). cost j (c_managers c ! j))" "length ys = length (c_managers c)"
    "\<And>j. j < length (c_managers c) \<Longrightarrow> Post j (c_managers c ! j) (ys ! j) (c_managers c' ! j)"
proof -
  have l: "ledgers (c_managers c) (c_pool c) xs {#}" using ok by (simp add: kv_ok_def)
  let ?Pre = "\<lambda>i m. attn_spec (m_spec m) \<and> window_pos (m_spec m) \<and> Pre i m"
  let ?Post = "\<lambda>i m x m'. same_tables rid m m' \<and> Post i m x m'"
  let ?cost = "\<lambda>j. cost j (c_managers c ! j)"
  have "\<exists>ys ms' p' xs'. each_manager f 0 (c_managers c) (c_pool c) = Inr (ys, ms', p') \<and> ledgers ms' p' xs' {#} \<and>
      gframe (all_refs (c_managers c)) (c_pool c) (all_refs ms') p' {#} \<and> Q p' \<and>
      length xs \<le> length xs' + (\<Sum>j<length (c_managers c). cost (0 + j) (c_managers c ! j)) \<and>
      length ys = length (c_managers c) \<and> length ms' = length (c_managers c) \<and>
      (\<forall>j<length (c_managers c). ?Post (0 + j) (c_managers c ! j) (ys ! j) (ms' ! j))"
  proof (rule each_manager_ok [where Q = Q and Pre = ?Pre and cost = cost and Post = ?Post and f = f, OF _ l q])
    show "\<exists>x m' p' xs'. f i m p = Inr (x, m', p') \<and> ledger m' p' xs' other \<and> frame m p m' p' other \<and> Q p' \<and>
        length xs \<le> length xs' + cost i m \<and> ?Post i m x m'"
      if "ledger m p xs other" "Q p" "?Pre i m" "cost i m \<le> length xs" for i m p xs other
      using step [OF that(1,2)] that(3,4) by blast
    show "?Pre (0 + j) (c_managers c ! j)" if "j < length (c_managers c)" for j
      using pre that ok by (simp add: kv_ok_def)
    show "(\<Sum>j<length (c_managers c). cost (0 + j) (c_managers c ! j)) \<le> length xs" using cost by simp
  qed
  then obtain ys ms' p' xs' where *: "each_manager f 0 (c_managers c) (c_pool c) = Inr (ys, ms', p')"
    "ledgers ms' p' xs' {#}" "gframe (all_refs (c_managers c)) (c_pool c) (all_refs ms') p' {#}" "Q p'"
    "length xs \<le> length xs' + (\<Sum>j<length (c_managers c). ?cost j)"
    "length ys = length (c_managers c)" "length ms' = length (c_managers c)"
    "\<forall>j<length (c_managers c). ?Post j (c_managers c ! j) (ys ! j) (ms' ! j)"
    by auto
  let ?c = "c\<lparr>c_managers := ms', c_pool := p'\<rparr>"
  have "coord_same c ?c" using *(3,7) by (auto simp: coord_same_def gframe_def)
  then have "coord_tables rid c ?c" using *(8) by (simp add: coord_tables_def)
  moreover have "kv_ok ?c xs'"
  proof -
    have "attn_spec (m_spec m) \<and> window_pos (m_spec m)" if mem: "m \<in> set ms'" for m
    proof -
      obtain j where j: "j < length (c_managers c)" "m = ms' ! j" using mem *(7) by (auto simp: in_set_conv_nth)
      have "same_tables rid (c_managers c ! j) m" using *(8) j by blast
      then have "m_spec m = m_spec (c_managers c ! j)" by (simp only: same_tables_def)
      then show ?thesis using ok j(1) by (simp add: kv_ok_def)
    qed
    then show ?thesis using *(2) by (simp add: kv_ok_def)
  qed
  moreover have "on_managers f c = Inr (ys, ?c)" using *(1) by (simp add: on_managers_def)
  moreover have "Q (c_pool ?c)" using *(4) by simp
  moreover have "Post j (c_managers c ! j) (ys ! j) (c_managers ?c ! j)" if "j < length (c_managers c)" for j
    using *(8) that by simp
  ultimately show thesis using that *(5,6) by blast
qed

text \<open>The four passes of an allocation.\<close>

lemma coord_remove_ok:
  assumes ok: "kv_ok c xs"
  obtains c' xs' where "coord_remove_skipped_blocks rid n c = Inr c'" "kv_ok c' xs'" "coord_tables rid c c'"
    "pool_hash_eq (c_pool c) (c_pool c')" "length xs \<le> length xs'"
    "\<And>j. j < length (c_managers c) \<Longrightarrow> num_cached_block (c_managers c' ! j) = num_cached_block (c_managers c ! j) \<and>
       length (req_blocks (c_managers c' ! j) rid) = length (req_blocks (c_managers c ! j) rid)"
proof -
  let ?f = "\<lambda>i m p. rbind (remove_skipped_blocks rid n m p) (\<lambda>(m1, p1). Inr ((), m1, p1))"
  obtain ys c' xs' where *: "on_managers ?f c = Inr (ys, c')" "kv_ok c' xs'" "coord_tables rid c c'"
    "pool_hash_eq (c_pool c) (c_pool c')" "length xs \<le> length xs' + (\<Sum>j<length (c_managers c). 0)"
    "\<And>j. j < length (c_managers c) \<Longrightarrow> num_cached_block (c_managers c' ! j) = num_cached_block (c_managers c ! j) \<and>
       length (req_blocks (c_managers c' ! j) rid) = length (req_blocks (c_managers c ! j) rid)"
  proof (rule on_managers_ok [where f = ?f and c = c and xs = xs and rid = rid and cost = "\<lambda>_ _. 0" and Pre = "\<lambda>_ _. True"
        and Q = "pool_hash_eq (c_pool c)" and Post = "\<lambda>_ m _ m'. num_cached_block m' = num_cached_block m \<and>
          length (req_blocks m' rid) = length (req_blocks m rid)", OF ok])
    fix i m p xs other
    assume l: "ledger m p xs other" and q: "pool_hash_eq (c_pool c) p" and a: "attn_spec (m_spec m)"
    obtain m' p' xs' where r: "remove_skipped_base rid n m p = Inr (m', p')" "ledger m' p' xs' other" "frame m p m' p' other"
      "num_cached_block m' = num_cached_block m" "\<And>k. k \<noteq> rid \<Longrightarrow> req_blocks m' k = req_blocks m k"
      "length (req_blocks m' rid) = length (req_blocks m rid)" "length xs \<le> length xs'"
      "\<And>c. c < num_gpu_blocks p \<Longrightarrow> bhash p' c = bhash p c"
      by (rule ledger_remove_skipped [OF l, where rid = rid and n = n]) (blast intro: that)
    have "pool_hash_eq p p'" using r(3,8) by (simp add: pool_hash_eq_def frame_def)
    then have "pool_hash_eq (c_pool c) p'" by (rule pool_hash_eq_trans [OF q])
    moreover have "same_tables rid m m'" using frame_same_tables [OF r(3,5)] r(4) by simp
    ultimately show "\<exists>x m' p' xs'. ?f i m p = Inr (x, m', p') \<and> ledger m' p' xs' other \<and> frame m p m' p' other \<and>
        pool_hash_eq (c_pool c) p' \<and> length xs \<le> length xs' + 0 \<and> same_tables rid m m' \<and>
        num_cached_block m' = num_cached_block m \<and> length (req_blocks m' rid) = length (req_blocks m rid)"
      using r(1-4,6,7) attn_spec_ops(4) [OF a] by (intro exI [of _ "()"] exI [of _ m'] exI [of _ p'] exI [of _ xs']) simp
  qed (auto intro: that)
  then show thesis by (intro that [of c' xs']) (simp_all add: coord_remove_skipped_blocks_def)
qed

lemma evictable_nonneg: "0 \<le> get_num_evictable_blocks p bs"
  by (simp add: get_num_evictable_blocks_def)

lemma coord_attach_ok:
  assumes ok: "kv_ok c xs" and a: "admissible c rid comput tot" and ne: "list_ex (\<lambda>b. b \<noteq> []) comput"
    and cost: "(\<Sum>j<length (c_managers c). nat (get_num_evictable_blocks (c_pool c)
      (hit_suffix (c_managers c ! j) (comput ! j) (int tot)))) \<le> length xs"
  obtains c' xs' where "coord_allocate_new_computed_blocks rid comput (int tot) 0 c = Inr c'" "kv_ok c' xs'"
    "coord_tables rid c c'"
    "length xs \<le> length xs' + (\<Sum>j<length (c_managers c). nat (get_num_evictable_blocks (c_pool c)
      (hit_suffix (c_managers c ! j) (comput ! j) (int tot))))"
    "\<And>j. j < length (c_managers c) \<Longrightarrow> length (req_blocks (c_managers c' ! j) rid) = length (comput ! j)"
proof -
  let ?p = "c_pool c"
  let ?f = "\<lambda>i m p. rbind (at_group comput i) (\<lambda>bs.
        rbind (allocate_new_computed_blocks rid bs (int tot) 0 m p) (\<lambda>(m1, p1). Inr ((), m1, p1)))"
  let ?cost = "\<lambda>j m. nat (get_num_evictable_blocks ?p (hit_suffix m (comput ! j) (int tot)))"
  have inv: "pool_inv ?p xs (all_refs (c_managers c) + {#})"
    using ledgers_pool [of "c_managers c" ?p xs "{#}"] ok by (simp add: kv_ok_def)
  have refl: "pool_le ?p ?p" by (rule pool_leI [OF inv inv]) simp_all
  obtain ys c' xs' where *: "on_managers ?f c = Inr (ys, c')" "kv_ok c' xs'" "coord_tables rid c c'"
    "length xs \<le> length xs' + (\<Sum>j<length (c_managers c). ?cost j (c_managers c ! j))"
    "\<And>j. j < length (c_managers c) \<Longrightarrow> length (req_blocks (c_managers c' ! j) rid) = length (comput ! j)"
  proof (rule on_managers_ok [where f = ?f and c = c and xs = xs and rid = rid and cost = ?cost
        and Pre = "\<lambda>j m. j < length comput \<and> admits m rid (comput ! j) tot \<and> hit_ok ?p (comput ! j) \<and>
          map_of (num_cached_block m) rid = None \<and> req_blocks m rid = []"
        and Q = "pool_le ?p" and Post = "\<lambda>j m _ m'. length (req_blocks m' rid) = length (comput ! j)", OF ok refl])
    fix j assume "j < length (c_managers c)"
    then show "j < length comput \<and> admits (c_managers c ! j) rid (comput ! j) tot \<and> hit_ok ?p (comput ! j) \<and>
          map_of (num_cached_block (c_managers c ! j)) rid = None \<and> req_blocks (c_managers c ! j) rid = []"
      using a ne by (simp add: admissible_def)
  next
    fix i m p xs other
    assume l: "ledger m p xs other" and q: "pool_le ?p p"
      and pre: "i < length comput \<and> admits m rid (comput ! i) tot \<and> hit_ok ?p (comput ! i) \<and>
          map_of (num_cached_block m) rid = None \<and> req_blocks m rid = []"
    have h: "hit_ok p (comput ! i)"
      using pre q hit_ok_eq [of ?p p] by (simp add: pool_le_def pool_hash_eq_def)
    obtain m' p' xs' where r: "allocate_new_computed_blocks rid (comput ! i) (int tot) 0 m p = Inr (m', p')"
      "ledger m' p' xs' other" "frame m p m' p' other" "pool_le p p'"
      "int (length xs) \<le> int (length xs') + get_num_evictable_blocks p (hit_suffix m (comput ! i) (int tot))"
      "length (req_blocks m' rid) = length (comput ! i)" "\<And>k. k \<noteq> rid \<Longrightarrow> req_blocks m' k = req_blocks m k"
      "\<And>k. k \<noteq> rid \<Longrightarrow> map_of (num_cached_block m') k = map_of (num_cached_block m) k"
      using attach_hits [OF l _ h, where rid = rid and tot = tot] pre by (metis (no_types, lifting))
    have "set (hit_suffix m (comput ! i) (int tot)) \<subseteq> {..<num_gpu_blocks ?p}"
      using pre by (auto simp: hit_ok_def hit_suffix_def dest: in_set_dropD)
    then have "get_num_evictable_blocks p (hit_suffix m (comput ! i) (int tot))
        \<le> get_num_evictable_blocks ?p (hit_suffix m (comput ! i) (int tot))" by (rule evictable_mono [OF q inv])
    then have "length xs \<le> length xs' + ?cost i m" using r(5) by linarith
    moreover have "?f i m p = Inr ((), m', p')" using r(1) pre by (simp add: at_group_def)
    moreover have "same_tables rid m m'" by (rule frame_same_tables [OF r(3,7,8)])
    ultimately show "\<exists>x m' p' xs'. ?f i m p = Inr (x, m', p') \<and> ledger m' p' xs' other \<and> frame m p m' p' other \<and>
        pool_le ?p p' \<and> length xs \<le> length xs' + ?cost i m \<and> same_tables rid m m' \<and>
        length (req_blocks m' rid) = length (comput ! i)"
      using r(2,3,6) pool_le_trans [OF q r(4)]
      by (intro exI [of _ "()"] exI [of _ m'] exI [of _ p'] exI [of _ xs']) simp
  qed (use cost in \<open>auto intro: that\<close>)
  then show thesis by (intro that [of c' xs']) (simp_all add: coord_allocate_new_computed_blocks_def)
qed

lemma coord_extend_ok:
  assumes ok: "kv_ok c xs"
    and cost: "(\<Sum>j<length (c_managers c). nat (cdiv (int ntoks) (int (m_block_size (c_managers c ! j)))
      - int (length (req_blocks (c_managers c ! j) rid)))) \<le> length xs"
  obtains new c' xs' where "coord_allocate_new_blocks rid (int ntoks) main enc c = Inr (new, c')" "kv_ok c' xs'"
    "coord_tables rid c c'" "length new = length (c_managers c)"
    "\<And>j. j < length (c_managers c) \<Longrightarrow> req_blocks (c_managers c' ! j) rid = req_blocks (c_managers c ! j) rid @ new ! j \<and>
       length (new ! j) = nat (cdiv (int ntoks) (int (m_block_size (c_managers c ! j)))
         - int (length (req_blocks (c_managers c ! j) rid)))"
proof -
  let ?f = "\<lambda>i m p. allocate_new_blocks rid (if is_cross (m_spec m) then enc else int ntoks) main m p"
  let ?need = "\<lambda>m. nat (cdiv (int ntoks) (int (m_block_size m)) - int (length (req_blocks m rid)))"
  let ?Post = "\<lambda>m x m'. req_blocks m' rid = req_blocks m rid @ x \<and> length x = ?need m"
  obtain new c' xs' where *: "on_managers ?f c = Inr (new, c')" "kv_ok c' xs'" "coord_tables rid c c'"
    "length new = length (c_managers c)"
    "\<And>j. j < length (c_managers c) \<Longrightarrow> ?Post (c_managers c ! j) (new ! j) (c_managers c' ! j)"
  proof (rule on_managers_ok [where f = ?f and c = c and xs = xs and rid = rid and cost = "\<lambda>_. ?need"
        and Pre = "\<lambda>_ _. True" and Q = "\<lambda>_. True" and Post = "\<lambda>_. ?Post", OF ok])
    fix i m p xs other
    assume l: "ledger m p xs other" and a: "attn_spec (m_spec m)" and n: "?need m \<le> length xs"
    obtain m' p' where r: "allocate_new_blocks_base rid (int ntoks) m p = Inr (take (?need m) xs, m', p')"
      "ledger m' p' (drop (?need m) xs) other" "frame m p m' p' other"
      "\<And>k. req_blocks m' k = (if k = rid then req_blocks m k @ take (?need m) xs else req_blocks m k)"
      "num_cached_block m' = num_cached_block m"
      using extend_table [OF l refl n] by blast
    have "same_tables rid m m'" by (rule frame_same_tables [OF r(3)]) (simp_all add: r(4,5))
    moreover have "?f i m p = Inr (take (?need m) xs, m', p')"
      using r(1) attn_spec_ops(2,5) [OF a] by simp
    ultimately show "\<exists>x m' p' xs'. ?f i m p = Inr (x, m', p') \<and> ledger m' p' xs' other \<and> frame m p m' p' other \<and>
        True \<and> length xs \<le> length xs' + ?need m \<and> same_tables rid m m' \<and> ?Post m x m'"
      using r(2,3,4) n
      by (intro exI [of _ "take (?need m) xs"] exI [of _ m'] exI [of _ p'] exI [of _ "drop (?need m) xs"]) simp
  qed (use cost in \<open>auto intro: that\<close>)
  then show thesis by (intro that [of new c' xs']) (simp_all add: coord_allocate_new_blocks_def)
qed

lemma coord_cache_ok:
  assumes ok: "kv_ok c xs" and e: "enable_caching (c_pool c)"
    and rows: "\<And>j. j < length (c_managers c) \<Longrightarrow>
      n div m_block_size (c_managers c ! j) \<le> length (req_blocks (c_managers c ! j) (request_id r)) \<and>
      hashes_for r (hash_block_size (c_pool c)) (m_block_size (c_managers c ! j)) (n div m_block_size (c_managers c ! j))"
  obtains c' xs' where "coord_cache_blocks sha r n c = Inr c'" "kv_ok c' xs'" "coord_tables (request_id r) c c'"
    "\<And>j. j < length (c_managers c) \<Longrightarrow> req_blocks (c_managers c' ! j) (request_id r) = req_blocks (c_managers c ! j) (request_id r)"
proof -
  define n' where "n' = (if c_kind c = Hybrid then n div lcm_block_size c * lcm_block_size c else n)"
  define al where "al = (if c_kind c = Hybrid then Some (lcm_block_size c) else None)"
  let ?f = "\<lambda>i m p. rbind (cache_blocks sha r n' al m p) (\<lambda>(m1, p1). Inr ((), m1, p1))"
  let ?Q = "same_config (c_pool c)"
  let ?rid = "request_id r"
  have le: "n' div b \<le> n div b" for b by (simp add: n'_def div_le_mono)
  obtain ys c' xs' where *: "on_managers ?f c = Inr (ys, c')" "kv_ok c' xs'" "coord_tables ?rid c c'"
    "\<And>j. j < length (c_managers c) \<Longrightarrow> req_blocks (c_managers c' ! j) ?rid = req_blocks (c_managers c ! j) ?rid"
  proof (rule on_managers_ok [where f = ?f and c = c and xs = xs and rid = ?rid and cost = "\<lambda>_ _. 0"
        and Pre = "\<lambda>_ m. n' div m_block_size m \<le> length (req_blocks m ?rid) \<and>
          hashes_for r (hash_block_size (c_pool c)) (m_block_size m) (n' div m_block_size m)"
        and Q = ?Q and Post = "\<lambda>_ m _ m'. req_blocks m' ?rid = req_blocks m ?rid", OF ok])
    fix j assume "j < length (c_managers c)"
    from rows [OF this] show "n' div m_block_size (c_managers c ! j) \<le> length (req_blocks (c_managers c ! j) ?rid) \<and>
        hashes_for r (hash_block_size (c_pool c)) (m_block_size (c_managers c ! j)) (n' div m_block_size (c_managers c ! j))"
      using le [of "m_block_size (c_managers c ! j)"] by (auto simp: hashes_for_def)
  next
    fix i m p xs other
    assume l: "ledger m p xs other" and q: "?Q p" and a: "attn_spec (m_spec m)"
      and pre: "n' div m_block_size m \<le> length (req_blocks m ?rid) \<and>
          hashes_for r (hash_block_size (c_pool c)) (m_block_size m) (n' div m_block_size m)"
    have "enable_caching p" "hash_block_size p = hash_block_size (c_pool c)"
      using q e by (simp_all add: same_config_def)
    then obtain m' p' where r: "cache_blocks_base sha r n' al m p = Inr (m', p')" "ledger m' p' xs other"
      "frame m p m' p' other" "\<forall>k. req_blocks m' k = req_blocks m k"
      "\<forall>k. k \<noteq> ?rid \<longrightarrow> map_of (num_cached_block m') k = map_of (num_cached_block m) k"
      using ledger_cache [OF l] pre by metis
    have "same_tables ?rid m m'" by (rule frame_same_tables [OF r(3)]) (use r(4,5) in auto)
    moreover have "?f i m p = Inr ((), m', p')" using r(1) attn_spec_ops(3) [OF a] by simp
    moreover have "?Q p'" using same_config_trans [OF q] r(3) by (simp add: frame_def)
    ultimately show "\<exists>x m' p' xs'. ?f i m p = Inr (x, m', p') \<and> ledger m' p' xs' other \<and> frame m p m' p' other \<and>
        ?Q p' \<and> length xs \<le> length xs' + 0 \<and> same_tables ?rid m m' \<and> req_blocks m' ?rid = req_blocks m ?rid"
      using r(2-4) by (intro exI [of _ "()"] exI [of _ m'] exI [of _ p'] exI [of _ xs]) simp
  qed (auto intro: that)
  moreover have "coord_cache_blocks sha r n c = rbind (on_managers ?f c) (\<lambda>(us, c1). Inr c1)"
    by (cases "c_kind c = Hybrid") (simp_all add: coord_cache_blocks_def n'_def al_def)
  ultimately show thesis by (intro that [of c' xs']) simp_all
qed

lemma hashes_for_mono: "hashes_for r h b n \<Longrightarrow> n' \<le> n \<Longrightarrow> hashes_for r h b n'"
  by (auto simp: hashes_for_def)

lemma cdiv_cover: "0 < b \<Longrightarrow> a \<le> cdiv a b * b"
  using cdiv_le_iff [of b a "cdiv a b"] by simp

lemma div_le_of_cover: "0 < b \<Longrightarrow> n \<le> m \<Longrightarrow> int m \<le> int l * int b \<Longrightarrow> n div b \<le> (l::nat)"
  by (metis div_le_mono div_mult_self_is_m le_trans of_nat_le_iff of_nat_mult)

lemma hit_suffix_nil [simp]: "get_num_evictable_blocks p (hit_suffix m [] t) = 0"
  by (simp add: hit_suffix_def get_num_evictable_blocks_def)

lemma kv_ok_block_size: "kv_ok c xs \<Longrightarrow> j < length (c_managers c) \<Longrightarrow> 0 < m_block_size (c_managers c ! j)"
  using ledgers_nth ledger_table(5) unfolding kv_ok_def by blast

lemma kv_ok_free: "kv_ok c xs \<Longrightarrow> get_num_free_blocks (c_pool c) = int (length xs)"
  using ledgers_pool get_num_free_blocks_inv unfolding kv_ok_def by blast

text \<open>Admissibility survives the removal of skipped blocks.\<close>

lemma admissible_removed:
  assumes a: "admissible c rid comput tot" and t: "coord_tables rid c c'" and h: "pool_hash_eq (c_pool c) (c_pool c')"
    and e: "\<And>j. j < length (c_managers c) \<Longrightarrow> num_cached_block (c_managers c' ! j) = num_cached_block (c_managers c ! j) \<and>
       length (req_blocks (c_managers c' ! j) rid) = length (req_blocks (c_managers c ! j) rid)"
  shows "admissible c' rid comput tot"
proof -
  have len: "length (c_managers c') = length (c_managers c)" using t coord_same_fields(4) by (auto simp: coord_tables_def)
  have same: "same_tables rid (c_managers c ! j) (c_managers c' ! j)" if "j < length (c_managers c)" for j
    using t that by (simp add: coord_tables_def)
  have nil: "req_blocks (c_managers c' ! j) rid = [] \<longleftrightarrow> req_blocks (c_managers c ! j) rid = []"
    if "j < length (c_managers c)" for j using e [OF that] by (metis length_0_conv)
  have "admits (c_managers c' ! j) rid (comput ! j) tot" if "j < length comput" for j
    using a that e [of j] same [of j] nil [of j] by (simp add: admissible_def admits_def same_tables_def)
  moreover have "hit_ok (c_pool c') bs = hit_ok (c_pool c) bs" for bs by (rule hit_ok_eq [OF h])
  moreover have "(\<forall>m\<in>set (c_managers c'). map_of (num_cached_block m) rid = None \<and> req_blocks m rid = [])
      \<longleftrightarrow> (\<forall>m\<in>set (c_managers c). map_of (num_cached_block m) rid = None \<and> req_blocks m rid = [])"
    using e nil len by (simp add: all_set_conv_all_nth)
  ultimately show ?thesis using a len by (simp add: admissible_def)
qed

text \<open>The attach pass, or nothing when there is no hit: afterwards the table has the hit blocks and
  what it had.\<close>

lemma maybe_attach:
  assumes ok: "kv_ok c xs" and a: "admissible c rid comput tot"
    and cost: "(\<Sum>j<length (c_managers c). demand (c_managers c ! j) (c_pool c) rid need (comput ! j) (int tot)) \<le> int (length xs)"
  obtains c' xs' where "(if list_ex (\<lambda>b. b \<noteq> []) comput
      then coord_allocate_new_computed_blocks rid comput (int tot) 0 c else Inr c) = Inr c'" "kv_ok c' xs'"
    "coord_tables rid c c'"
    "\<And>j. j < length (c_managers c) \<Longrightarrow> length (req_blocks (c_managers c' ! j) rid)
       = length (comput ! j) + length (req_blocks (c_managers c ! j) rid)"
    "(\<Sum>j<length (c_managers c). nat (cdiv (int need) (int (m_block_size (c_managers c ! j)))
       - int (length (req_blocks (c_managers c' ! j) rid)))) \<le> length xs'"
proof -
  let ?n = "length (c_managers c)"
  let ?E = "\<lambda>j. nat (get_num_evictable_blocks (c_pool c) (hit_suffix (c_managers c ! j) (comput ! j) (int tot)))"
  let ?D = "\<lambda>j. nat (cdiv (int need) (int (m_block_size (c_managers c ! j)))
       - int (length (comput ! j) + length (req_blocks (c_managers c ! j) rid)))"
  have split: "demand (c_managers c ! j) (c_pool c) rid need (comput ! j) (int tot) = int (?D j + ?E j)" for j
    using evictable_nonneg by (simp add: demand_def max_def)
  have sum: "(\<Sum>j<?n. ?D j) + (\<Sum>j<?n. ?E j) \<le> length xs"
    using cost unfolding split of_nat_sum [symmetric] of_nat_le_iff sum.distrib .
  have len: "length comput = ?n" using a by (simp add: admissible_def)
  show thesis
  proof (cases "list_ex (\<lambda>b. b \<noteq> []) comput")
    case True
    have "(\<Sum>j<?n. ?E j) \<le> length xs" using sum by linarith
    then obtain c' xs' where c': "coord_allocate_new_computed_blocks rid comput (int tot) 0 c = Inr c'" "kv_ok c' xs'"
      "coord_tables rid c c'" "length xs \<le> length xs' + (\<Sum>j<?n. ?E j)"
      "\<And>j. j < ?n \<Longrightarrow> length (req_blocks (c_managers c' ! j) rid) = length (comput ! j)"
      by (rule coord_attach_ok [OF ok a True]) (blast intro: that)
    have nil: "req_blocks (c_managers c ! j) rid = []" if "j < ?n" for j
      using a True that by (simp add: admissible_def)
    have "(\<Sum>j<?n. nat (cdiv (int need) (int (m_block_size (c_managers c ! j)))
       - int (length (req_blocks (c_managers c' ! j) rid)))) = (\<Sum>j<?n. ?D j)"
      using c'(5) nil by (intro sum.cong) simp_all
    then show thesis using True c' nil sum by (intro that [of c' xs']) simp_all
  next
    case False
    then have nil: "comput ! j = []" if "j < ?n" for j using that len by (auto simp: list_ex_iff)
    have "(\<Sum>j<?n. nat (cdiv (int need) (int (m_block_size (c_managers c ! j)))
       - int (length (req_blocks (c_managers c ! j) rid)))) = (\<Sum>j<?n. ?D j)"
      using nil by (intro sum.cong) simp_all
    then show thesis using False ok nil sum by (intro that [of c xs]) simp_all
  qed
qed

definition slots_needed :: "kv_cache_manager \<Rightarrow> nat \<Rightarrow> nat \<Rightarrow> nat \<Rightarrow> nat" where
  "slots_needed k tot num_new look = min (min tot (k_max_model_len k) + num_new + look) (k_max_model_len k)"

text \<open>An allocation from the removal of skipped blocks on: the second half of \<open>allocate_slots\<close>.\<close>

lemma allocate_tail:
  assumes ok: "kv_ok c xs" and a: "admissible c rid comput tot" and rid: "rid = request_id r"
    and cost: "(\<Sum>j<length (c_managers c). demand (c_managers c ! j) (c_pool c) rid need (comput ! j) (int tot)) \<le> int (length xs)"
    and cach: "caching \<Longrightarrow> enable_caching (c_pool c)"
    and n: "n \<le> need" "n \<le> num_tokens r"
    and hs: "\<And>m. caching \<Longrightarrow> m \<in> set (c_managers c) \<Longrightarrow>
      hashes_for r (hash_block_size (c_pool c)) (m_block_size m) (num_tokens r div m_block_size m)"
  obtains new c' xs' where
    "rbind (if list_ex (\<lambda>b. b \<noteq> []) comput then coord_allocate_new_computed_blocks rid comput (int tot) 0 c else Inr c)
       (\<lambda>c4. rbind (coord_allocate_new_blocks rid (int need) main enc c4) (\<lambda>(new, c5).
          if \<not> caching then Inr (f new, g c5) else rbind (coord_cache_blocks sha r n c5) (\<lambda>c6. Inr (f new, g c6))))
     = Inr (f new, g c')" "kv_ok c' xs'" "coord_tables rid c c'"
    "\<And>j. j < length (c_managers c) \<Longrightarrow> need \<le> length (req_blocks (c_managers c' ! j) rid) * m_block_size (c_managers c ! j)"
proof -
  let ?n = "length (c_managers c)"
  obtain c4 xs4 where c4: "(if list_ex (\<lambda>b. b \<noteq> []) comput
      then coord_allocate_new_computed_blocks rid comput (int tot) 0 c else Inr c) = Inr c4" "kv_ok c4 xs4"
    "coord_tables rid c c4"
    "\<And>j. j < ?n \<Longrightarrow> length (req_blocks (c_managers c4 ! j) rid)
       = length (comput ! j) + length (req_blocks (c_managers c ! j) rid)"
    "(\<Sum>j<?n. nat (cdiv (int need) (int (m_block_size (c_managers c ! j)))
       - int (length (req_blocks (c_managers c4 ! j) rid)))) \<le> length xs4"
    by (rule maybe_attach [OF ok a cost]) (blast intro: that)
  have s4: "length (c_managers c4) = ?n" "\<And>j. j < ?n \<Longrightarrow> m_block_size (c_managers c4 ! j) = m_block_size (c_managers c ! j)"
    using c4(3) coord_same_fields(4) by (auto simp: coord_tables_def same_tables_def)
  have "(\<Sum>j<length (c_managers c4). nat (cdiv (int need) (int (m_block_size (c_managers c4 ! j)))
      - int (length (req_blocks (c_managers c4 ! j) rid)))) \<le> length xs4"
    using c4(5) s4 by simp
  then obtain new c5 xs5 where c5: "coord_allocate_new_blocks rid (int need) main enc c4 = Inr (new, c5)" "kv_ok c5 xs5"
    "coord_tables rid c4 c5"
    "\<And>j. j < length (c_managers c4) \<Longrightarrow> req_blocks (c_managers c5 ! j) rid = req_blocks (c_managers c4 ! j) rid @ new ! j \<and>
       length (new ! j) = nat (cdiv (int need) (int (m_block_size (c_managers c4 ! j)))
         - int (length (req_blocks (c_managers c4 ! j) rid)))"
    by (rule coord_extend_ok [OF c4(2)]) (blast intro: that)
  have s5: "length (c_managers c5) = ?n" "\<And>j. j < ?n \<Longrightarrow> m_block_size (c_managers c5 ! j) = m_block_size (c_managers c ! j)"
    using c5(3) s4 coord_same_fields(4) by (auto simp: coord_tables_def same_tables_def)
  have t5: "coord_tables rid c c5" by (rule coord_tables_trans [OF c4(3) c5(3)])
  have pos: "0 < m_block_size (c_managers c ! j)" if "j < ?n" for j by (rule kv_ok_block_size [OF ok that])
  have cover: "int need \<le> int (length (req_blocks (c_managers c5 ! j) rid)) * int (m_block_size (c_managers c ! j))"
    if j: "j < ?n" for j
  proof -
    let ?b = "int (m_block_size (c_managers c ! j))"
    have "cdiv (int need) ?b \<le> int (length (req_blocks (c_managers c5 ! j) rid))"
      using c5(4) [of j] j s4 by simp
    then show ?thesis using pos [OF j] cdiv_le_iff by simp
  qed
  have cover': "need \<le> length (req_blocks (c_managers c5 ! j) rid) * m_block_size (c_managers c ! j)" if "j < ?n" for j
    using cover [OF that] unfolding of_nat_mult [symmetric] of_nat_le_iff .
  show thesis
  proof (cases caching)
    case False
    then show thesis
      using c4(1) c5(1,2) t5 cover' by (intro that [of new c5 xs5]) simp_all
  next
    case True
    have cfg: "same_config (c_pool c) (c_pool c5)" using t5 coord_same_fields(5) by (auto simp: coord_tables_def)
    have e: "enable_caching (c_pool c5)" using cach [OF True] cfg by (simp add: same_config_def)
    obtain c6 xs6 where c6: "coord_cache_blocks sha r n c5 = Inr c6" "kv_ok c6 xs6" "coord_tables rid c5 c6"
      "\<And>j. j < length (c_managers c5) \<Longrightarrow> req_blocks (c_managers c6 ! j) rid = req_blocks (c_managers c5 ! j) rid"
    proof (rule coord_cache_ok [OF c5(2) e, where n = n and r = r and sha = sha, folded rid])
      fix j assume "j < length (c_managers c5)"
      then have j: "j < ?n" using s5 by simp
      have "n div m_block_size (c_managers c ! j) \<le> length (req_blocks (c_managers c5 ! j) rid)"
        using div_le_of_cover [OF pos [OF j] n(1) cover [OF j]] .
      moreover have "hashes_for r (hash_block_size (c_pool c)) (m_block_size (c_managers c ! j)) (n div m_block_size (c_managers c ! j))"
        using hashes_for_mono [OF hs [OF True]] j div_le_mono [OF n(2)] by simp
      ultimately show "n div m_block_size (c_managers c5 ! j) \<le> length (req_blocks (c_managers c5 ! j) rid) \<and>
          hashes_for r (hash_block_size (c_pool c5)) (m_block_size (c_managers c5 ! j)) (n div m_block_size (c_managers c5 ! j))"
        using s5(2) [OF j] cfg by (simp add: same_config_def)
    qed (blast intro: that)
    show thesis
      using True c4(1) c5(1) c6 s5 coord_tables_trans [OF t5 c6(3)] cover'
      by (intro that [of new c6 xs6]) simp_all
  qed
qed

lemma allocate_slots_cases:
  fixes k :: kv_cache_manager
  assumes ok: "kv_ok (coordinator k) xs" and a: "admissible (coordinator k) (request_id r) comput tot"
    and comput: "comput = (case ncb of None \<Rightarrow> empty_blocks k | Some bs \<Rightarrow> bs)"
    and tot: "tot = num_computed_tokens r + nnc" and new: "0 < n_new" and fits: "num_tokens r \<le> k_max_model_len k"
    and cach: "k_enable_caching k \<Longrightarrow> enable_caching (c_pool (coordinator k))"
    and hs: "\<And>m. k_enable_caching k \<Longrightarrow> m \<in> set (c_managers (coordinator k)) \<Longrightarrow>
      hashes_for r (hash_block_size (c_pool (coordinator k))) (m_block_size m) (num_tokens r div m_block_size m)"
  shows "\<exists>res k' c2 xs2 xs'. allocate_slots sha r n_new nnc ncb look 0 delay enc must_fit k = Inr (res, k') \<and>
    kv_ok (coordinator k') xs' \<and> coord_tables (request_id r) (coordinator k) (coordinator k') \<and>
    k' = k\<lparr>coordinator := coordinator k'\<rparr> \<and>
    kv_ok c2 xs2 \<and> coord_tables (request_id r) (coordinator k) c2 \<and> length xs \<le> length xs2 \<and>
    (\<forall>j<length (c_managers (coordinator k)). length (req_blocks (c_managers c2 ! j) (request_id r))
       = length (req_blocks (c_managers (coordinator k) ! j) (request_id r))) \<and>
    (case res of
       None \<Rightarrow> (\<forall>j<length (c_managers (coordinator k)). length (req_blocks (c_managers (coordinator k') ! j) (request_id r))
           = length (req_blocks (c_managers (coordinator k) ! j) (request_id r))) \<and>
         (\<not> must_fit \<longrightarrow> int (length xs2) < (\<Sum>j<length (c_managers c2). demand (c_managers c2 ! j) (c_pool c2)
            (request_id r) (slots_needed k tot n_new look) (comput ! j) (int tot)))
     | Some new \<Rightarrow> (\<forall>j<length (c_managers (coordinator k)). slots_needed k tot n_new look
         \<le> length (req_blocks (c_managers (coordinator k') ! j) (request_id r)) * m_block_size (c_managers (coordinator k) ! j)))"
proof -
  let ?c = "coordinator k" and ?rid = "request_id r" and ?need = "slots_needed k tot n_new look"
  let ?totc = "min tot (k_max_model_len k)"
  let ?full = "min (num_tokens r) (k_max_model_len k)"
  let ?check = "if must_fit
      then rbind (coord_num_blocks_to_allocate ?rid (int ?full) comput (int enc) (int ?totc) (int ?full) True ?c)
             (\<lambda>(n, c). Inr (n > get_num_free_blocks (c_pool c), c))
      else Inr (False, ?c)"
  obtain b where check: "?check = Inr (b, ?c)" "b \<longrightarrow> must_fit"
    using coord_full_check [OF ok a, of "int ?full" "int enc" "int ?totc" "int ?full" True]
    by (cases must_fit) auto
  obtain c2 xs2 where c2: "coord_remove_skipped_blocks ?rid (int ?totc) ?c = Inr c2" "kv_ok c2 xs2"
    "coord_tables ?rid ?c c2" "pool_hash_eq (c_pool ?c) (c_pool c2)" "length xs \<le> length xs2"
    "\<And>j. j < length (c_managers ?c) \<Longrightarrow> num_cached_block (c_managers c2 ! j) = num_cached_block (c_managers ?c ! j) \<and>
       length (req_blocks (c_managers c2 ! j) ?rid) = length (req_blocks (c_managers ?c ! j) ?rid)"
    by (rule coord_remove_ok [OF ok, where rid = ?rid and n = "int ?totc"]) (blast intro: that)
  have a2: "admissible c2 ?rid comput tot" by (rule admissible_removed [OF a c2(3,4,6)])
  let ?dem = "\<Sum>j<length (c_managers c2). demand (c_managers c2 ! j) (c_pool c2) ?rid ?need (comput ! j) (int tot)"
  define main where "main = int (?totc + n_new)"
  have demand: "coord_num_blocks_to_allocate ?rid (int ?need) comput (int enc) (int tot) main False c2 = Inr (?dem, c2)"
    by (rule coord_demand [OF c2(2) a2])
  define tail where "tail = (if ?dem > get_num_free_blocks (c_pool c2) then Inr (None, k\<lparr>coordinator := c2\<rparr>)
     else rbind (if list_ex (\<lambda>b. b \<noteq> []) comput then coord_allocate_new_computed_blocks ?rid comput (int tot) 0 c2 else Inr c2)
       (\<lambda>c4. rbind (coord_allocate_new_blocks ?rid (int ?need) main (int enc) c4) (\<lambda>(new, c5).
          if \<not> (k_enable_caching k \<and> \<not> delay) then Inr (Some (create_kv_cache_blocks k new), k\<lparr>coordinator := c5\<rparr>)
          else rbind (coord_cache_blocks sha r (min (?totc + n_new) (num_tokens r)) c5)
                 (\<lambda>c6. Inr (Some (create_kv_cache_blocks k new), k\<lparr>coordinator := c6\<rparr>)))))"
  have eq: "allocate_slots sha r n_new nnc ncb look 0 delay enc must_fit k
      = (if b then Inr (None, k) else tail)"
    using new c2(1) demand
    unfolding allocate_slots_def Let_def comput [symmetric] tot [symmetric] add_0_right check(1) rbind_simps
    by (simp add: tail_def slots_needed_def main_def del: of_nat_min of_nat_add)
  have lens: "\<forall>j<length (c_managers ?c). length (req_blocks (c_managers c2 ! j) ?rid) = length (req_blocks (c_managers ?c ! j) ?rid)"
    using c2(6) by simp
  have sc: "length (c_managers c2) = length (c_managers ?c)" "same_config (c_pool ?c) (c_pool c2)"
    "\<And>j. j < length (c_managers ?c) \<Longrightarrow> m_block_size (c_managers c2 ! j) = m_block_size (c_managers ?c ! j)"
    using c2(3) coord_same_fields(4,5) by (auto simp: coord_tables_def same_tables_def)
  consider (full) b | (short) "\<not> b" "?dem > get_num_free_blocks (c_pool c2)" | (fit) "\<not> b" "?dem \<le> int (length xs2)"
    using kv_ok_free [OF c2(2)] by force
  then show ?thesis
  proof cases
    case full
    then show ?thesis
      using eq ok check(2) c2(2,3,5) lens
      by (intro exI [of _ None] exI [of _ k] exI [of _ c2] exI [of _ xs2] exI [of _ xs]) simp
  next
    case short
    then show ?thesis
      using eq c2(2,3,5) lens kv_ok_free [OF c2(2)]
      by (intro exI [of _ None] exI [of _ "k\<lparr>coordinator := c2\<rparr>"] exI [of _ c2] exI [of _ xs2] exI [of _ xs2])
        (simp add: tail_def)
  next
    case fit
    have n: "min (?totc + n_new) (num_tokens r) \<le> ?need" "min (?totc + n_new) (num_tokens r) \<le> num_tokens r"
      using fits by (auto simp: slots_needed_def)
    have e: "enable_caching (c_pool c2)" if "k_enable_caching k \<and> \<not> delay"
      using cach that sc(2) by (simp add: same_config_def)
    have h: "hashes_for r (hash_block_size (c_pool c2)) (m_block_size m) (num_tokens r div m_block_size m)"
      if m: "k_enable_caching k \<and> \<not> delay" "m \<in> set (c_managers c2)" for m
    proof -
      obtain j where "j < length (c_managers ?c)" "m = c_managers c2 ! j" using m(2) sc(1) by (auto simp: in_set_conv_nth)
      then show ?thesis using hs [of "c_managers ?c ! j"] m(1) sc by (simp add: same_config_def)
    qed
    obtain new c' xs' where t:
      "rbind (if list_ex (\<lambda>b. b \<noteq> []) comput then coord_allocate_new_computed_blocks ?rid comput (int tot) 0 c2 else Inr c2)
       (\<lambda>c4. rbind (coord_allocate_new_blocks ?rid (int ?need) main (int enc) c4) (\<lambda>(new, c5).
          if \<not> (k_enable_caching k \<and> \<not> delay) then Inr (Some (create_kv_cache_blocks k new), k\<lparr>coordinator := c5\<rparr>)
          else rbind (coord_cache_blocks sha r (min (?totc + n_new) (num_tokens r)) c5)
                 (\<lambda>c6. Inr (Some (create_kv_cache_blocks k new), k\<lparr>coordinator := c6\<rparr>))))
       = Inr (Some (create_kv_cache_blocks k new), k\<lparr>coordinator := c'\<rparr>)"
      "kv_ok c' xs'" "coord_tables ?rid c2 c'"
      "\<And>j. j < length (c_managers c2) \<Longrightarrow> ?need \<le> length (req_blocks (c_managers c' ! j) ?rid) * m_block_size (c_managers c2 ! j)"
      by (rule allocate_tail [OF c2(2) a2 refl fit(2) e n h, where f = "\<lambda>new. Some (create_kv_cache_blocks k new)"
            and g = "\<lambda>c. k\<lparr>coordinator := c\<rparr>" and main = main and enc = "int enc" and sha = sha]) (blast intro: that)+
    have "coord_tables ?rid ?c c'" by (rule coord_tables_trans [OF c2(3) t(3)])
    moreover have "tail = Inr (Some (create_kv_cache_blocks k new), k\<lparr>coordinator := c'\<rparr>)"
      unfolding tail_def t(1) using fit(2) kv_ok_free [OF c2(2)] by simp
    ultimately show ?thesis
      using fit(1) eq t(2,4) c2(2,3,5) lens sc
      by (intro exI [of _ "Some (create_kv_cache_blocks k new)"] exI [of _ "k\<lparr>coordinator := c'\<rparr>"] exI [of _ c2]
          exI [of _ xs2] exI [of _ xs']) simp
  qed
qed

subsection \<open>Every operation of the manager\<close>

lemma coord_free_ok:
  assumes ok: "kv_ok c xs"
  obtains c' xs' where "coord_free rid c = Inr c'" "kv_ok c' xs'" "coord_tables rid c c'" "length xs \<le> length xs'"
    "\<And>j. j < length (c_managers c) \<Longrightarrow> req_blocks (c_managers c' ! j) rid = []"
proof -
  let ?f = "\<lambda>i m p. rbind (free_request rid m p) (\<lambda>(m1, p1). Inr ((), m1, p1))"
  obtain ys c' xs' where *: "on_managers ?f c = Inr (ys, c')" "kv_ok c' xs'" "coord_tables rid c c'"
    "length xs \<le> length xs' + (\<Sum>j<length (c_managers c). 0)"
    "\<And>j. j < length (c_managers c) \<Longrightarrow> req_blocks (c_managers c' ! j) rid = []"
  proof (rule on_managers_ok [where f = ?f and c = c and xs = xs and rid = rid and cost = "\<lambda>_ _. 0" and Pre = "\<lambda>_ _. True"
        and Q = "\<lambda>_. True" and Post = "\<lambda>_ m _ m'. req_blocks m' rid = []", OF ok])
    fix i m p xs other
    assume l: "ledger m p xs other" and a: "attn_spec (m_spec m)"
    obtain m' p' where r: "free_request rid m p = Inr (m', p')"
      "ledger m' p' (xs @ filter (\<lambda>b. b \<noteq> null_block p \<and> count (mgr_refs m + other) b = 1) (rev (req_blocks m rid))) other"
      "frame m p m' p' other" "\<forall>k. req_blocks m' k = (if k = rid then [] else req_blocks m k)"
      "\<forall>k. map_of (num_cached_block m') k = (if k = rid then None else map_of (num_cached_block m) k)"
      using ledger_free [OF l attn_spec_ops(6) [OF a], of rid] by blast
    have "same_tables rid m m'" by (rule frame_same_tables [OF r(3)]) (simp_all add: r(4,5))
    moreover have "?f i m p = Inr ((), m', p')" using r(1) by simp
    moreover have "req_blocks m' rid = []" using r(4) by simp
    ultimately show "\<exists>x m' p' xs'. ?f i m p = Inr (x, m', p') \<and> ledger m' p' xs' other \<and> frame m p m' p' other \<and>
        True \<and> length xs \<le> length xs' + 0 \<and> same_tables rid m m' \<and> req_blocks m' rid = []"
      using r(2,3) by (metis length_append le_add1 add_0_right)
  qed (auto intro: that)
  then show thesis by (intro that [of c' xs']) (simp_all add: coord_free_def)
qed

text \<open>Forgetting hashes keeps every ledger.\<close>

lemma ledgers_forget:
  assumes "ledgers ms p xs other" "same_config p p'" "pool_inv p' xs (all_refs ms + other)"
    "\<And>c. c < num_gpu_blocks p \<Longrightarrow> bhash p' c = bhash p c \<or> bhash p' c = None"
  shows "ledgers ms p' xs other"
  using assms(1,3)
proof (induction ms arbitrary: other)
  case Nil
  then show ?case using assms(2,4) by (fastforce simp: hashes_off_def same_config_def)
next
  case (Cons m ms)
  have l: "ledger m p xs (all_refs ms + other)" using Cons.prems(1) by simp
  have cf: "num_gpu_blocks p' = num_gpu_blocks p" "null_block p' = null_block p" "enable_caching p' = enable_caching p"
    using assms(2) by (simp_all add: same_config_def)
  have "mgr_ok m p' (mgr_refs m + (all_refs ms + other))"
    unfolding mgr_ok_def
  proof (intro conjI allI impI)
    show "table_ok p' (req_to_blocks m)" using ledger_table(1) [OF l] table_ok_config [OF assms(2)] by simp
    fix k i
    assume "cached_count m k \<le> i \<and> i < length (req_blocks m k) \<and> req_blocks m k ! i \<noteq> null_block p'"
    then have i: "cached_count m k \<le> i" "i < length (req_blocks m k)" "req_blocks m k ! i \<noteq> null_block p"
      using cf by auto
    have "req_blocks m k ! i < num_gpu_blocks p" using ledger_table(2) [OF l, of k] i(2) nth_mem by fastforce
    then show "bhash p' (req_blocks m k ! i) = None" "count (mgr_refs m + (all_refs ms + other)) (req_blocks m k ! i) = 1"
      using ledger_uncached [OF l i] assms(4) by fastforce+
  qed (use l in \<open>auto simp: ledger_def mgr_ok_def\<close>)
  moreover have "hashes_off p'"
    using ledger_hashes [OF l] assms(4) cf by (fastforce simp: hashes_off_def)
  ultimately have "ledger m p' xs (all_refs ms + other)"
    using l Cons.prems(2) cf by (simp add: ledger_def hashes_off_def ac_simps)
  moreover have "ledgers ms p' xs (mgr_refs m + other)"
    using Cons.prems by (intro Cons.IH) (simp_all add: ac_simps)
  ultimately show ?case by simp
qed

lemma coord_evict_ok:
  assumes ok: "kv_ok c xs" and ids: "set ids \<subseteq> {..<num_gpu_blocks (c_pool c)}"
  obtains p' where "evict_blocks ids (c_pool c) = Inr p'" "kv_ok (c\<lparr>c_pool := p'\<rparr>) xs" "same_config (c_pool c) p'"
proof -
  have l: "ledgers (c_managers c) (c_pool c) xs {#}" using ok by (simp add: kv_ok_def)
  then have inv: "pool_inv (c_pool c) xs (all_refs (c_managers c) + {#})" using ledgers_pool by blast
  obtain p' where p': "evict_blocks ids (c_pool c) = Inr p'" "pool_inv p' xs (all_refs (c_managers c) + {#})"
    "same_config (c_pool c) p'" "\<forall>b. bhash p' b = (if b \<in> set ids then None else bhash (c_pool c) b)"
    using evict_blocks_inv [OF inv] ids by blast
  have "ledgers (c_managers c) p' xs {#}" by (rule ledgers_forget [OF l p'(3,2)]) (simp add: p'(4))
  then show thesis using ok p'(1,3) by (intro that) (simp_all add: kv_ok_def)
qed

lemma coord_reset_ok:
  assumes ok: "kv_ok c xs"
  shows "kv_ok (c\<lparr>c_pool := snd (reset_prefix_cache (c_pool c))\<rparr>) xs"
    and "same_config (c_pool c) (snd (reset_prefix_cache (c_pool c)))"
    and "fst (reset_prefix_cache (c_pool c)) \<longleftrightarrow> Suc (length xs) = num_gpu_blocks (c_pool c)"
proof -
  let ?p = "c_pool c" and ?p' = "snd (reset_prefix_cache (c_pool c))"
  have l: "ledgers (c_managers c) ?p xs {#}" using ok by (simp add: kv_ok_def)
  then have inv: "pool_inv ?p xs (all_refs (c_managers c) + {#})" using ledgers_pool by blast
  have inv': "pool_inv ?p' xs (all_refs (c_managers c) + {#})" using reset_prefix_cache_inv(2) [OF inv] by simp
  have bh: "bhash ?p' b = bhash ?p b \<or> bhash ?p' b = None" if "b < num_gpu_blocks ?p" for b
    using that pool_inv_length [OF inv] by (simp add: reset_prefix_cache_def Let_def)
  show cfg: "same_config ?p ?p'" by (simp add: reset_prefix_cache_def Let_def same_config_def)
  have "ledgers (c_managers c) ?p' xs {#}" by (rule ledgers_forget [OF l cfg inv' bh])
  then show "kv_ok (c\<lparr>c_pool := ?p'\<rparr>) xs" using ok by (simp add: kv_ok_def)
  show "fst (reset_prefix_cache ?p) \<longleftrightarrow> Suc (length xs) = num_gpu_blocks ?p"
    by (rule reset_prefix_cache_inv(1) [OF inv])
qed

text \<open>Managers that differ only in bookkeeping outside the tables.\<close>

lemma ledgers_map:
  assumes "\<And>m. req_to_blocks (f m) = req_to_blocks m" "\<And>m. num_cached_block (f m) = num_cached_block m"
    "\<And>m. m_block_size (f m) = m_block_size m" "\<And>m. m_enable_caching (f m) = m_enable_caching m"
  shows "ledgers (map f ms) p xs other = ledgers ms p xs other"
proof -
  have "ledger (f m) q ys o' = ledger m q ys o'" for m q ys o' by (rule ledger_cong) (simp_all add: assms)
  moreover have "mgr_refs (f m) = mgr_refs m" for m by (simp add: mgr_refs_def assms)
  moreover have "all_refs (map f ms) = all_refs ms" for ms
    by (induction ms) (simp_all add: mgr_refs_def assms)
  ultimately show ?thesis by (induction ms arbitrary: other) simp_all
qed

lemma new_step_attn: "attn_spec (m_spec m) \<Longrightarrow> new_step_starts m = m"
  by (cases "m_spec m") (simp_all add: new_step_starts_def)

text \<open>The managers of a new coordinator.\<close>

lemma make_managers_ok:
  assumes "pool_inv p xs {#}" "hashes_off p" "caching = enable_caching p" "0 < dcp" "0 < pcp"
  shows "\<forall>g\<in>set gs. attn_spec (fst g) \<and> window_pos (fst g) \<and> 0 < spec_block_size (fst g) \<Longrightarrow>
    \<exists>ms. make_managers gs i mb ml caching dcp pcp p = Inr (ms, p) \<and> ledgers ms p xs {#} \<and> length ms = length gs \<and>
      all_refs ms = {#} \<and> (\<forall>m\<in>set ms. attn_spec (m_spec m) \<and> window_pos (m_spec m) \<and> req_to_blocks m = [])"
proof (induction gs arbitrary: i)
  case Nil
  then show ?case using assms by simp
next
  case (Cons g gs)
  obtain ms where ms: "make_managers gs (i + 1) mb ml caching dcp pcp p = Inr (ms, p)" "ledgers ms p xs {#}"
    "length ms = length gs" "all_refs ms = {#}"
    "\<forall>m\<in>set ms. attn_spec (m_spec m) \<and> window_pos (m_spec m) \<and> req_to_blocks m = []"
    using Cons.IH [of "i + 1"] Cons.prems by auto
  obtain m where m: "get_manager_for_kv_cache_spec (fst g) mb ml caching i dcp pcp p = Inr (m, p)" "m_spec m = fst g"
    "0 < m_block_size m" "m_enable_caching m = caching" "req_to_blocks m = []" "num_cached_block m = []"
    using Cons.prems assms(4,5)
    by (cases "fst g") (auto simp: get_manager_for_kv_cache_spec_def Let_def)
  have refs: "mgr_refs m = {#}" by (simp add: mgr_refs_def m(5))
  have "ledger m p xs {#}"
    using m assms by (auto simp: ledger_def mgr_ok_def refs table_ok_def req_blocks_al cached_count_def hashes_off_def real_blocks_def)
  then have "ledgers (m # ms) p xs {#}" using ms(2,4) refs by simp
  then show ?case using ms m refs Cons.prems by (intro exI [of _ "m # ms"]) simp
qed

text \<open>One call of the scheduler on the manager.  The conditions are what the scheduler guarantees:
  hit blocks are passed only for a request that has nothing yet, no external tokens, at least
  one new token, and enough block hashes for what is cached.\<close>

inductive kv_step :: "kv_cache_manager \<Rightarrow> kv_cache_manager \<Rightarrow> bool" where
  step_alloc: "admissible (coordinator k) (request_id r) (case ncb of None \<Rightarrow> empty_blocks k | Some bs \<Rightarrow> bs)
      (num_computed_tokens r + nnc) \<Longrightarrow> 0 < n_new \<Longrightarrow> num_tokens r \<le> k_max_model_len k \<Longrightarrow>
    (\<And>m. k_enable_caching k \<Longrightarrow> m \<in> set (c_managers (coordinator k)) \<Longrightarrow>
      hashes_for r (hash_block_size (c_pool (coordinator k))) (m_block_size m) (num_tokens r div m_block_size m)) \<Longrightarrow>
    allocate_slots sha r n_new nnc ncb look 0 delay enc must_fit k = Inr (res, k') \<Longrightarrow> kv_step k k'"
| step_cache: "(\<And>m. m \<in> set (c_managers (coordinator k)) \<Longrightarrow>
      n div m_block_size m \<le> length (req_blocks m (request_id r)) \<and>
      hashes_for r (hash_block_size (c_pool (coordinator k))) (m_block_size m) (n div m_block_size m)) \<Longrightarrow>
    kv_cache_blocks sha r n k = Inr k' \<Longrightarrow> kv_step k k'"
| step_free: "kv_free r k = Inr k' \<Longrightarrow> kv_step k k'"
| step_skip: "kv_remove_skipped_blocks rid tot k = Inr k' \<Longrightarrow> kv_step k k'"
| step_evict: "set ids \<subseteq> {..<num_gpu_blocks (c_pool (coordinator k))} \<Longrightarrow> kv_evict_blocks ids k = Inr k' \<Longrightarrow> kv_step k k'"
| step_reset: "kv_step k (snd (kv_reset_prefix_cache k))"
| step_take: "kv_step k (snd (kv_take_new_block_ids k))"
| step_new: "kv_step k (kv_new_step_starts k)"

definition kv_inv :: "nat \<Rightarrow> kv_cache_manager \<Rightarrow> bool" where
  "kv_inv n k \<longleftrightarrow> (\<exists>xs. kv_ok (coordinator k) xs) \<and> num_gpu_blocks (c_pool (coordinator k)) = n \<and>
     (k_enable_caching k \<longrightarrow> enable_caching (c_pool (coordinator k)))"

lemma kv_inv_coord:
  "kv_inv n k \<Longrightarrow> kv_ok c xs \<Longrightarrow> same_config (c_pool (coordinator k)) (c_pool c) \<Longrightarrow> kv_inv n (k\<lparr>coordinator := c\<rparr>)"
  by (auto simp: kv_inv_def same_config_def)

lemma coord_tables_config: "coord_tables rid c c' \<Longrightarrow> same_config (c_pool c) (c_pool c')"
  using coord_same_fields(5) by (auto simp: coord_tables_def)

lemma kv_step_inv:
  assumes "kv_step k k'" "kv_inv n k"
  shows "kv_inv n k'"
proof -
  obtain xs where ok: "kv_ok (coordinator k) xs" and e: "k_enable_caching k \<Longrightarrow> enable_caching (c_pool (coordinator k))"
    using assms(2) by (auto simp: kv_inv_def)
  let ?c = "coordinator k"
  from assms(1) show ?thesis
  proof cases
    case (step_alloc r ncb nnc n_new sha look delay enc must_fit res)
    obtain xs' where "kv_ok (coordinator k') xs'" "coord_tables (request_id r) ?c (coordinator k')" "k' = k\<lparr>coordinator := coordinator k'\<rparr>"
      using allocate_slots_cases [OF ok step_alloc(1) refl refl step_alloc(2,3) e step_alloc(4), of sha look delay enc must_fit]
        step_alloc(5) by auto
    then show ?thesis using kv_inv_coord [OF assms(2)] coord_tables_config by metis
  next
    case (step_cache n r sha)
    show ?thesis
    proof (cases "k_enable_caching k")
      case True
      obtain c' xs' where "coord_cache_blocks sha r n ?c = Inr c'" "kv_ok c' xs'" "coord_tables (request_id r) ?c c'"
        by (rule coord_cache_ok [OF ok e [OF True], where n = n and r = r and sha = sha]) (use step_cache(1) in auto)
      then show ?thesis
        using step_cache(2) True kv_inv_coord [OF assms(2)] coord_tables_config by (auto simp: kv_cache_blocks_def)
    qed (use step_cache(2) assms(2) in \<open>simp add: kv_cache_blocks_def\<close>)
  next
    case (step_free r)
    obtain c' xs' where "coord_free (request_id r) ?c = Inr c'" "kv_ok c' xs'" "coord_tables (request_id r) ?c c'"
      by (rule coord_free_ok [OF ok, where rid = "request_id r"]) auto
    then show ?thesis
      using step_free kv_inv_coord [OF assms(2)] coord_tables_config by (auto simp: kv_free_def)
  next
    case (step_skip rid tot)
    obtain c' xs' where "coord_remove_skipped_blocks rid tot ?c = Inr c'" "kv_ok c' xs'" "coord_tables rid ?c c'"
      by (rule coord_remove_ok [OF ok, where rid = rid and n = tot]) auto
    then show ?thesis
      using step_skip kv_inv_coord [OF assms(2)] coord_tables_config by (auto simp: kv_remove_skipped_blocks_def)
  next
    case (step_evict ids)
    obtain p' where "evict_blocks ids (c_pool ?c) = Inr p'" "kv_ok (?c\<lparr>c_pool := p'\<rparr>) xs" "same_config (c_pool ?c) p'"
      by (rule coord_evict_ok [OF ok step_evict(1)])
    then show ?thesis
      using step_evict(2) kv_inv_coord [OF assms(2)] by (auto simp: kv_evict_blocks_def)
  next
    case step_reset
    then have "k' = k\<lparr>coordinator := ?c\<lparr>c_pool := snd (reset_prefix_cache (c_pool ?c))\<rparr>\<rparr>"
      by (simp add: kv_reset_prefix_cache_def case_prod_unfold Let_def)
    then show ?thesis using kv_inv_coord [OF assms(2) coord_reset_ok(1) [OF ok]] coord_reset_ok(2) [OF ok] by simp
  next
    case step_take
    let ?f = "\<lambda>m. m\<lparr>new_block_ids := []\<rparr>"
    have k': "k' = k\<lparr>coordinator := ?c\<lparr>c_managers := map ?f (c_managers ?c)\<rparr>\<rparr>"
      using step_take by (simp add: kv_take_new_block_ids_def Let_def take_new_block_ids_def comp_def)
    have "kv_ok (?c\<lparr>c_managers := map ?f (c_managers ?c)\<rparr>) xs"
      using ok ledgers_map [of ?f "c_managers ?c" "c_pool ?c" xs "{#}"] by (simp add: kv_ok_def)
    then show ?thesis unfolding k' by (rule kv_inv_coord [OF assms(2)]) simp
  next
    case step_new
    have "map new_step_starts (c_managers ?c) = c_managers ?c"
      using ok new_step_attn by (intro map_idI) (auto simp: kv_ok_def)
    then have "k' = k" using step_new by (simp add: kv_new_step_starts_def coord_new_step_starts_def)
    then show ?thesis using assms(2) by simp
  qed
qed

lemma kv_init_inv:
  assumes "kv_cache_manager_init cfg maxlen hbs mb caching eagle ev dcp pcp ints = Inr k"
    and gs: "\<forall>g\<in>set (kv_cache_groups cfg). attn_spec (fst g) \<and> window_pos (fst g) \<and> 0 < spec_block_size (fst g)"
    and "0 < dcp" "0 < pcp"
  shows "kv_inv (num_blocks cfg) k" "length (c_managers (coordinator k)) = length (kv_cache_groups cfg)"
    "\<forall>m\<in>set (c_managers (coordinator k)). req_to_blocks m = []"
proof -
  let ?mb = "int (case mb of None \<Rightarrow> maxlen | Some n \<Rightarrow> n)"
  have "0 < num_blocks cfg"
    using assms(1) by (cases "num_blocks cfg") (auto simp: kv_cache_manager_init_def get_kv_cache_coordinator_def block_pool_init_def)
  then obtain p where p: "block_pool_init (num_blocks cfg) caching hbs ev ints = Inr p" "pool_inv p [1..<num_blocks cfg] {#}"
    "num_gpu_blocks p = num_blocks cfg" "enable_caching p = caching" "\<forall>b<num_blocks cfg. bhash p b = None"
    using block_pool_init_inv [of "num_blocks cfg" caching hbs ev ints] by blast
  have "hashes_off p" using p(3,5) by (simp add: hashes_off_def)
  then obtain ms where ms: "make_managers (kv_cache_groups cfg) 0 ?mb (int maxlen) caching dcp pcp p = Inr (ms, p)"
    "ledgers ms p [1..<num_blocks cfg] {#}" "length ms = length (kv_cache_groups cfg)"
    "\<forall>m\<in>set ms. attn_spec (m_spec m) \<and> window_pos (m_spec m) \<and> req_to_blocks m = []"
    using make_managers_ok [OF p(2) _ p(4) [symmetric] assms(3,4) gs, of 0 ?mb "int maxlen"] by blast
  obtain c where c: "coordinator k = c" "c_managers c = ms" "c_pool c = p" "k_enable_caching k = caching"
    using assms(1) ms(1) p(1)
    by (auto simp: kv_cache_manager_init_def get_kv_cache_coordinator_def Let_def verify_and_split_kv_cache_groups_def
        res_simps split: if_splits)
  then show "kv_inv (num_blocks cfg) k" "length (c_managers (coordinator k)) = length (kv_cache_groups cfg)"
    "\<forall>m\<in>set (c_managers (coordinator k)). req_to_blocks m = []"
    using ms p by (auto simp: kv_inv_def kv_ok_def)
qed

lemma kv_reachable_inv: "kv_step\<^sup>*\<^sup>* k k' \<Longrightarrow> kv_inv n k \<Longrightarrow> kv_inv n k'"
  by (induction rule: rtranclp_induct) (auto intro: kv_step_inv)

text \<open>What the invariant says of the pool.\<close>

lemma pool_conserved:
  assumes inv: "pool_inv p xs refs"
  shows "length xs + card {b. b < num_gpu_blocks p \<and> b \<noteq> null_block p \<and> b \<in># refs} = num_gpu_blocks p - 1"
proof -
  let ?H = "{b. b < num_gpu_blocks p \<and> b \<noteq> null_block p \<and> b \<in># refs}"
  have null: "null_block p < num_gpu_blocks p" using inv by (simp add: pool_defs)
  have "set xs \<union> ?H = {..<num_gpu_blocks p} - {null_block p}" "set xs \<inter> ?H = {}"
    using inv pool_inv_free_iff(1) [OF inv] pool_inv_xs [OF inv] by blast+
  moreover have "card (set xs) = length xs" by (rule distinct_card [OF pool_inv_distinct [OF inv]])
  ultimately have "length xs + card ?H = card ({..<num_gpu_blocks p} - {null_block p})"
    using card_Un_disjoint [of "set xs" ?H] by simp
  then show ?thesis using null by simp
qed

subsection \<open>Properties\<close>




text \<open>A manager with one full-attention group, and a first request.\<close>

definition small_config :: kv_cache_config where
  "small_config = \<lparr>num_blocks = 5, kv_cache_groups = [(FullAttentionSpec 2, False)]\<rparr>"

definition small_request :: request where
  "small_request = (plain_request ''r'' [1, 2, 3])\<lparr>block_hashes := [[9]]\<rparr>"

lemma small_request_simps [simp]:
  "request_id small_request = ''r''" "num_computed_tokens small_request = 0" "num_tokens small_request = 3"
  "block_hashes small_request = [[9]]"
  by (simp_all add: small_request_def plain_request_def num_tokens_def)

lemma small_manager:
  obtains k m where "kv_cache_manager_init small_config 8 2 None True False False 1 1 False = Inr k"
    "c_managers (coordinator k) = [m]" "m_block_size m = 2" "m_spec m = FullAttentionSpec 2" "req_to_blocks m = []"
    "num_cached_block m = []" "k_max_model_len k = 8" "enable_caching (c_pool (coordinator k))"
    "hash_block_size (c_pool (coordinator k)) = 2" "get_num_free_blocks (c_pool (coordinator k)) = 4"
proof -
  obtain p where p: "block_pool_init 5 True 2 False False = Inr p" "pool_inv p [1..<5] {#}" "enable_caching p"
    "hash_block_size p = 2"
    using block_pool_init_inv [of 5 True 2 False False] by auto
  have "get_num_free_blocks p = 4" using get_num_free_blocks_inv [OF p(2)] by simp
  then show thesis
    using p that
    by (simp add: kv_cache_manager_init_def get_kv_cache_coordinator_def small_config_def Let_def
        get_manager_for_kv_cache_spec_def)
qed

lemma small_ok:
  assumes "kv_cache_manager_init small_config 8 2 None True False False 1 1 False = Inr k"
    and "c_managers (coordinator k) = [m]" "m_block_size m = 2" "m_spec m = FullAttentionSpec 2" "req_to_blocks m = []"
    "num_cached_block m = []" "hash_block_size (c_pool (coordinator k)) = 2"
  shows "\<exists>xs. kv_ok (coordinator k) xs" "admissible (coordinator k) ''r'' [[]] 0"
    "list_all (\<lambda>m. hashes_for small_request (hash_block_size (c_pool (coordinator k))) (m_block_size m)
        (num_tokens small_request div m_block_size m)) (c_managers (coordinator k))"
proof -
  have "kv_inv (num_blocks small_config) k"
    by (rule kv_init_inv(1) [OF assms(1)]) (simp_all add: small_config_def)
  then show "\<exists>xs. kv_ok (coordinator k) xs" by (simp add: kv_inv_def)
  show "admissible (coordinator k) ''r'' [[]] 0"
    using assms(2-6) by (simp add: admissible_def admits_def hit_ok_def real_blocks_def)
  show "list_all (\<lambda>m. hashes_for small_request (hash_block_size (c_pool (coordinator k))) (m_block_size m)
        (num_tokens small_request div m_block_size m)) (c_managers (coordinator k))"
    using assms(2,3,7) by (simp add: hashes_for_def)
qed




end
