(* ===== verification/VL_Groups.thy ===== *)
theory VL_Groups
  imports VL_KVProofs
begin

text \<open>
  Several KV cache groups that share one pool: the order in which
  \<open>KVCacheCoordinator.allocate_new_computed_blocks\<close> serves the groups matters when part of the
  computed tokens lives outside the pool (a KV connector).
\<close>

text \<open>One manager attaching a hit and one external token, in a pool whose next free block is known.\<close>

lemma attach_external:
  assumes inv: "pool_inv p xs refs" and a: "a < num_gpu_blocks p" "a \<noteq> null_block p"
    and ys: "filter (\<lambda>x. x \<noteq> a) xs = b # ys"
    and m: "is_full_attention (m_spec m)" "m_block_size m = 1" "m_enable_caching m" "req_blocks m rid = []"
      "map_of (num_cached_block m) rid = None"
  obtains m' p' where "allocate_new_computed_blocks rid [a] 1 1 m p = Inr (m', p')" "req_blocks m' rid = [a, b]"
    "pool_inv p' ys (refs + {#a, b#})" "same_config p p'"
proof -
  obtain p1 where p1: "touch [a] p = Inr p1" "pool_inv p1 ([b] @ ys) (refs + {#a#})" "same_config p p1"
    using touch_inv [OF inv, of "[a]"] a ys by auto
  obtain p2 where p2: "get_new_blocks (length [b]) p1 = Inr ([b], p2)" "pool_inv p2 ys (refs + {#a#} + {#b#})" "same_config p1 p2"
    using get_new_blocks_inv [OF p1(2)] by auto
  have skip: "get_num_skipped_tokens (m_spec m) n = 0" "\<not> is_cross (m_spec m)" for n
    using m(1) by (cases "m_spec m"; simp)+
  have gn: "get_new_blocks_int 1 p1 = Inr ([b], p2)" using p2(1) by (simp add: get_new_blocks_int_def)
  have cd: "cdiv 2 1 = 2" by (simp add: cdiv_def)
  have "\<exists>m'. allocate_new_computed_blocks rid [a] 1 1 m p = Inr (m', p2) \<and> req_blocks m' rid = [a, b]"
    using m(2-5) skip p1(1) gn cd
    by (simp add: allocate_new_computed_blocks_def Let_def req_blocks_al del: touch.simps)
  then show thesis
    using that p2(2) same_config_trans [OF p1(3) p2(3)] by (auto simp: add_mset_commute)
qed

text \<open>
  C34.  External tokens break the exclusiveness of blocks when there are several groups.  The
  groups are served one after the other, each touching its hit blocks and at once allocating for
  the external tokens.  If the hit block of the second group is next in the eviction queue when
  the first group allocates, the first group gets it as a fresh block: the two groups end with
  the same block \<open>b\<close> in their tables, counted twice.
\<close>

theorem external_tokens_share_block:
  assumes "kv_ok c (a # b # d # ys)" "c_managers c = [m0, m1]"
    and "hit_ok (c_pool c) [a]" "hit_ok (c_pool c) [b]" "a \<noteq> null_block (c_pool c)" "b \<noteq> null_block (c_pool c)"
    and "list_all (\<lambda>m. is_full_attention (m_spec m) \<and> m_block_size m = 1 \<and> m_enable_caching m \<and> req_blocks m rid = [] \<and>
      map_of (num_cached_block m) rid = None) [m0, m1]"
    and "all_refs [m0, m1] = {#}"
  shows "\<exists>c'. coord_allocate_new_computed_blocks rid [[a], [b]] 1 1 c = Inr c' \<and>
    coord_get_blocks rid c' = [[a, b], [b, d]] \<and> rc (c_pool c') b = 2"
proof -
  let ?p = "c_pool c"
  have inv: "pool_inv ?p (a # b # d # ys) {#}"
    using ledgers_pool [of "c_managers c" ?p "a # b # d # ys" "{#}"] assms(1,2,8) by (simp add: kv_ok_def)
  have dist: "distinct (a # b # d # ys)" by (rule pool_inv_distinct [OF inv])
  have a: "a < num_gpu_blocks ?p" "b < num_gpu_blocks ?p" using assms(3,4) by (simp_all add: hit_ok_def)
  have f: "filter (\<lambda>x. x \<noteq> a) (a # b # d # ys) = b # d # ys" "filter (\<lambda>x. x \<noteq> b) (d # ys) = d # ys"
    using dist by (auto simp: filter_id_conv)
  obtain m0' p1 where m0: "allocate_new_computed_blocks rid [a] 1 1 m0 ?p = Inr (m0', p1)" "req_blocks m0' rid = [a, b]"
    "pool_inv p1 (d # ys) ({#} + {#a, b#})" "same_config ?p p1"
    by (rule attach_external [OF inv a(1) assms(5) f(1), where m = m0 and rid = rid]) (use assms(7) in auto)
  have b: "b < num_gpu_blocks p1" "b \<noteq> null_block p1" using m0(4) a assms(6) by (simp_all add: same_config_def)
  obtain m1' p2 where m1: "allocate_new_computed_blocks rid [b] 1 1 m1 p1 = Inr (m1', p2)" "req_blocks m1' rid = [b, d]"
    "pool_inv p2 ys ({#} + {#a, b#} + {#b, d#})" "same_config p1 p2"
    by (rule attach_external [OF m0(3) b f(2), where m = m1 and rid = rid]) (use assms(7) in auto)
  have "rc p2 b = 2"
    using m1(3,4) b dist by (auto simp: pool_defs same_config_def)
  then show ?thesis
    using m0(1,2) m1(1,2) assms(2)
    by (simp add: coord_allocate_new_computed_blocks_def on_managers_def at_group_def coord_get_blocks_def)
qed

text \<open>Two full-attention groups without requests; blocks 1 and 2 hold the first block of a finished
  request, one per group, and are the next to be evicted.\<close>

definition idle_manager :: "nat \<Rightarrow> kv_manager" where
  "idle_manager g = \<lparr>m_spec = FullAttentionSpec 1, m_block_size = 1, m_enable_caching = True,
     max_admission_blocks = None, new_block_ids = [], req_to_blocks = [], num_cached_block = [], m_group_id = g,
     cached_blocks_this_step = [], last_state_block_idx = [], allocated_block_reqs = []\<rparr>"

definition hashed_pool :: "bytes \<Rightarrow> bytes \<Rightarrow> free_queue \<Rightarrow> block_pool" where
  "hashed_pool h1 h2 q = \<lparr>num_gpu_blocks = 4, enable_caching = True, hash_block_size = 1,
     blocks = [\<lparr>ref_cnt = 0, block_hash = None, is_null = True\<rparr>, \<lparr>ref_cnt = 0, block_hash = Some h1, is_null = False\<rparr>,
       \<lparr>ref_cnt = 0, block_hash = Some h2, is_null = False\<rparr>, \<lparr>ref_cnt = 0, block_hash = None, is_null = False\<rparr>],
     free_block_queue = q, cached_block_hash_to_block = [h1 \<mapsto> OneBlock 1, h2 \<mapsto> OneBlock 2], null_block = 0,
     enable_kv_cache_events = False, use_int_block_hashes = False, kv_event_queue = []\<rparr>"

definition idle_coordinator :: "free_queue \<Rightarrow> kv_coordinator" where
  "idle_coordinator q = \<lparr>c_kind = Hybrid, c_groups = [(FullAttentionSpec 1, False), (FullAttentionSpec 1, False)],
     c_pool = hashed_pool [7] [8] q, c_managers = [idle_manager 0, idle_manager 1], eagle_group_ids = [], c_block_size = 0,
     c_dcp = 1, c_pcp = 1, c_hash_block_size = 1, attention_groups = [], lcm_block_size = 1, eagle_attn_group_indices = []\<rparr>"

lemma idle_manager_simps [simp]:
  "m_spec (idle_manager g) = FullAttentionSpec 1" "m_block_size (idle_manager g) = 1" "m_enable_caching (idle_manager g)"
  "req_to_blocks (idle_manager g) = []" "num_cached_block (idle_manager g) = []" "req_blocks (idle_manager g) rid = []"
  "mgr_refs (idle_manager g) = {#}" "cached_count (idle_manager g) rid = 0"
  by (simp_all add: idle_manager_def req_blocks_def mgr_refs_def cached_count_def)

lemma hashed_pool_inv:
  assumes "fq_rep q [1, 2, 3]" "h1 \<noteq> h2"
  shows "pool_inv (hashed_pool h1 h2 q) [1, 2, 3] {#}"
proof -
  have four: "b = 0 \<or> b = 1 \<or> b = 2 \<or> b = 3" if "b < 4" for b :: nat using that by linarith
  have n: "blocks (hashed_pool h1 h2 q) ! 1 = \<lparr>ref_cnt = 0, block_hash = Some h1, is_null = False\<rparr>"
    "blocks (hashed_pool h1 h2 q) ! 2 = \<lparr>ref_cnt = 0, block_hash = Some h2, is_null = False\<rparr>"
    "blocks (hashed_pool h1 h2 q) ! 3 = \<lparr>ref_cnt = 0, block_hash = None, is_null = False\<rparr>"
    "blocks (hashed_pool h1 h2 q) ! 0 = \<lparr>ref_cnt = 0, block_hash = None, is_null = True\<rparr>"
    by (simp_all add: hashed_pool_def numeral_2_eq_2 numeral_3_eq_3)
  have c: "num_gpu_blocks (hashed_pool h1 h2 q) = 4" "null_block (hashed_pool h1 h2 q) = 0" "length (blocks (hashed_pool h1 h2 q)) = 4"
    "free_block_queue (hashed_pool h1 h2 q) = q" by (simp_all add: hashed_pool_def)
  have "pool_static (hashed_pool h1 h2 q)" using n c by (auto simp: pool_static_def dest!: four)
  moreover have "pool_free (hashed_pool h1 h2 q) [1, 2, 3]" using assms n c by (auto simp: pool_free_def dest!: four)
  moreover have "pool_refs (hashed_pool h1 h2 q) {#}" using n c by (auto simp: pool_refs_def dest!: four)
  moreover have "pool_cache (hashed_pool h1 h2 q)"
    using n c assms(2) by (auto simp: pool_cache_def dest!: four) (auto simp: hashed_pool_def split: if_splits)
  ultimately show ?thesis by (simp add: pool_inv_def)
qed

theorem external_tokens_share_block_witness:
  "\<exists>c c'. kv_ok c [1, 2, 3] \<and> coord_allocate_new_computed_blocks ''r'' [[1], [2]] 1 1 c = Inr c' \<and>
    coord_get_blocks ''r'' c' = [[1, 2], [2, 3]] \<and> rc (c_pool c') 2 = 2"
proof -
  obtain q where q: "fq_rep q [1, 2, 3]" using fq_rep_exists [of "[1, 2, 3]"] by auto
  let ?c = "idle_coordinator q"
  have inv: "pool_inv (hashed_pool [7] [8] q) [1, 2, 3] {#}" by (rule hashed_pool_inv [OF q]) simp
  have led: "ledger (idle_manager g) (hashed_pool [7] [8] q) [1, 2, 3] {#}" for g
    using inv by (simp add: ledger_def mgr_ok_def table_ok_def real_blocks_def) (simp add: hashed_pool_def)
  have "kv_ok ?c [1, 2, 3]"
    using led inv by (simp add: kv_ok_def idle_coordinator_def hashes_off_def) (simp add: hashed_pool_def)
  moreover have "hit_ok (hashed_pool [7] [8] q) [1]" "hit_ok (hashed_pool [7] [8] q) [2]"
    by (simp_all add: hit_ok_def real_blocks_def hashed_pool_def numeral_2_eq_2)
  ultimately show ?thesis
    using external_tokens_share_block [where c = ?c and a = 1 and b = 2 and d = 3 and ys = "[]" and rid = "''r''"
        and ?m0.0 = "idle_manager 0" and ?m1.0 = "idle_manager 1"]
    by (auto simp: idle_coordinator_def hashed_pool_def)
qed

end
