(* ===== verification/VL_HitProofs.thy ===== *)
theory VL_HitProofs
  imports VL_Groups
begin

text \<open>
  The prefix-cache lookups against reference definitions: the longest cached prefix for full
  attention, the longest length with a cached window for sliding-window attention.
\<close>

subsection \<open>What the lookups compute\<close>

text \<open>The hit of one group, position by position.\<close>

definition hit_block :: "block_pool \<Rightarrow> nat \<Rightarrow> bytes \<Rightarrow> nat option" where
  "hit_block p g h = get_one_block (cached_block_hash_to_block p) (make_block_hash_with_group_id h g)"

lemma hit_block_fold [simp]:
  "get_one_block (cached_block_hash_to_block p) (make_block_hash_with_group_id h g) = hit_block p g h"
  by (simp add: hit_block_def)

declare not_None_eq [simp del]

lemma full_hit_loop_one:
  "full_hit_loop p [g] hs [bs] = [bs @ map (\<lambda>h. the (hit_block p g h)) (takeWhile (\<lambda>h. hit_block p g h \<noteq> None) hs)]"
  by (induction hs arbitrary: bs) (auto split: option.splits)

lemma align_loop_same [simp]: "align_loop bs bs c = c"
  by (simp add: align_loop.simps)

definition cached_prefix :: "block_pool \<Rightarrow> nat \<Rightarrow> nat \<Rightarrow> bytes list \<Rightarrow> nat list" where
  "cached_prefix p g n hs = map (\<lambda>h. the (hit_block p g h)) (takeWhile (\<lambda>h. hit_block p g h \<noteq> None) (take n hs))"

lemma length_cached_prefix: "length (cached_prefix p g n hs) \<le> n"
  using length_takeWhile_le [of "\<lambda>h. hit_block p g h \<noteq> None" "take n hs"] by (simp add: cached_prefix_def)

text \<open>The largest length whose last \<open>need\<close> positions are all good.\<close>

definition window_hit_length :: "(nat \<Rightarrow> bool) \<Rightarrow> nat \<Rightarrow> nat \<Rightarrow> nat" where
  "window_hit_length good need n = last (filter (\<lambda>l. list_all good [l - need..<l]) [0..<Suc n])"

lemma window_hit_lengthI:
  assumes "l \<le> n" "\<And>j. l - need \<le> j \<Longrightarrow> j < l \<Longrightarrow> good j"
    and "\<And>k. l < k \<Longrightarrow> k \<le> n \<Longrightarrow> \<exists>j. k - need \<le> j \<and> j < k \<and> \<not> good j"
  shows "window_hit_length good need n = l"
proof -
  have "[0..<Suc n] = [0..<l] @ l # [Suc l..<Suc n]"
    using assms(1) upt_add_eq_append [of 0 l "Suc n - l"] by (simp add: upt_conv_Cons)
  moreover have "filter (\<lambda>l. list_all good [l - need..<l]) [Suc l..<Suc n] = []"
  proof (rule filter_False, rule ballI)
    fix k assume "k \<in> set [Suc l..<Suc n]"
    then obtain j where "k - need \<le> j" "j < k" "\<not> good j" using assms(3) [of k] by auto
    then show "\<not> list_all good [k - need..<k]" by (auto simp: list_all_iff)
  qed
  moreover have "list_all good [l - need..<l]" using assms(2) by (auto simp: list_all_iff)
  ultimately show ?thesis by (simp add: window_hit_length_def)
qed

definition window_hit :: "block_pool \<Rightarrow> nat \<Rightarrow> (nat \<Rightarrow> bytes) \<Rightarrow> nat \<Rightarrow> nat \<Rightarrow> nat list" where
  "window_hit p g h need l = map (\<lambda>j. if l - need \<le> j then the (hit_block p g (h j)) else null_block p) [0..<l]"

lemma window_loop_longest:
  assumes "\<And>j. j < n \<Longrightarrow> hl_at hashes j = Inr (h j)" "nd = nat (max 1 need)"
    and "length xs = n" "i + c \<le> n" "c < nd"
    and "\<And>j. j < i \<Longrightarrow> xs ! j = null_block p"
    and "\<And>j. i \<le> j \<Longrightarrow> j < i + c \<Longrightarrow> hit_block p g (h j) \<noteq> None \<and> xs ! j = the (hit_block p g (h j))"
    and "\<And>k. i + c < k \<Longrightarrow> k \<le> n \<Longrightarrow> \<exists>j. k - nd \<le> j \<and> j < k \<and> hit_block p g (h j) = None"
  shows "\<exists>ys c' found. window_loop p [g] hashes bs eagle bs need i [xs] c = Inr ([ys], c', found) \<and>
    (if found then ys else take c' ys)
      = window_hit p g h nd (window_hit_length (\<lambda>j. hit_block p g (h j) \<noteq> None) nd n)"
  using assms
proof (induction i arbitrary: xs c)
  case 0
  have "window_hit_length (\<lambda>j. hit_block p g (h j) \<noteq> None) nd n = c"
    using 0 by (intro window_hit_lengthI) auto
  moreover have "take c xs = window_hit p g h nd c"
    using 0 by (intro nth_equalityI) (auto simp: window_hit_def)
  ultimately show ?case by simp
next
  case (Suc i)
  have hi: "hl_at hashes i = Inr (h i)" using Suc.prems(1,4) by simp
  show ?case
  proof (cases "hit_block p g (h i)")
    case None
    have "\<exists>ys c' found. window_loop p [g] hashes bs eagle bs need i [xs] 0 = Inr ([ys], c', found) \<and>
      (if found then ys else take c' ys)
        = window_hit p g h nd (window_hit_length (\<lambda>j. hit_block p g (h j) \<noteq> None) nd n)"
    proof (rule Suc.IH)
      fix k assume k: "i + 0 < k" "k \<le> n"
      show "\<exists>j. k - nd \<le> j \<and> j < k \<and> hit_block p g (h j) = None"
      proof (cases "Suc i + c < k")
        case False
        then show ?thesis using None k Suc.prems(5) by (intro exI [of _ i]) simp
      qed (use Suc.prems(8) k in simp)
    qed (use Suc.prems in auto)
    then show ?thesis using None hi by simp
  next
    case (Some b)
    let ?xs = "xs[i := b]"
    have good: "hit_block p g (h j) \<noteq> None \<and> ?xs ! j = the (hit_block p g (h j))" if "i \<le> j" "j < i + Suc c" for j
      using that Suc.prems(3,4) Suc.prems(7) [of j] Some by (cases "j = i") auto
    show ?thesis
    proof (cases "need \<le> int (c + 1)")
      case True
      then have nd: "nd = Suc c" using Suc.prems(2,5) by (simp add: max_def split: if_splits)
      have "window_hit_length (\<lambda>j. hit_block p g (h j) \<noteq> None) nd n = i + Suc c"
        using Suc.prems(4,8) good nd by (intro window_hit_lengthI) auto
      moreover have "take (i + Suc c) ?xs = window_hit p g h nd (i + Suc c)"
        using good Suc.prems(3,4,6) nd by (intro nth_equalityI) (auto simp: window_hit_def nth_list_update simp del: upt_Suc)
      ultimately show ?thesis using Some hi True by (simp add: Let_def exI [of _ True])
    next
      case False
      have "\<exists>ys c' found. window_loop p [g] hashes bs eagle bs need i [?xs] (c + 1) = Inr ([ys], c', found) \<and>
        (if found then ys else take c' ys)
          = window_hit p g h nd (window_hit_length (\<lambda>j. hit_block p g (h j) \<noteq> None) nd n)"
        by (rule Suc.IH) (use Suc.prems False good in auto)
      then show ?thesis using Some hi False by (simp add: Let_def)
    qed
  qed
qed

text \<open>
  C10.  The lookup of a single full-attention group is the specified prefix.  The hit is exactly
  the longest run of cached blocks from the start of the request, at most the blocks that fit
  the limit, less one block for EAGLE; each returned block is a real block of the pool stored
  under the hash of its position, and the next position (without EAGLE and below the limit) is
  not cached.
\<close>

theorem unitary_hit_is_longest_prefix:
  assumes "c_kind c = Unitary" "c_groups c ! 0 = (spec, spec_eagle)" "is_full_attention spec" "pool_inv (c_pool c) xs refs"
    and "c_block_size c = spec_block_size spec * (c_dcp c * c_pcp c)" "0 < c_block_size c"
    and "n = max_hit div c_block_size c" "hit = cached_prefix (c_pool c) 0 n hs"
  shows "coord_find_longest_cache_hit hs max_hit c =
      (let r = (if 0 \<in> set (eagle_group_ids c) then butlast hit else hit) in Inr ([r], length r * c_block_size c)) \<and>
    length hit * c_block_size c \<le> max_hit \<and>
    list_all2 (\<lambda>h b. b < num_gpu_blocks (c_pool c) \<and> b \<noteq> null_block (c_pool c) \<and>
      bhash (c_pool c) b = Some (make_block_hash_with_group_id h 0)) (take (length hit) hs) hit \<and>
    (length hit < min n (length hs) \<longrightarrow> get_cached_block (c_pool c) (hs ! length hit) [0] = None)"
proof (intro conjI impI)
  let ?p = "c_pool c" and ?tw = "takeWhile (\<lambda>h. hit_block (c_pool c) 0 h \<noteq> None) (take n hs)"
  have dp: "spec_block_size spec * (if c_dcp c * c_pcp c > 1 then c_dcp c * c_pcp c else 1) = c_block_size c"
    using assms(5,6) by (cases "c_dcp c * c_pcp c") auto
  have "full_attention_hit (PlainHashes hs) max_hit [0] ?p (spec_block_size spec) e (c_block_size c) (c_dcp c) (c_pcp c)
      = [if e then butlast hit else hit]" for e
    using dp assms(7,8)
    by (simp add: full_attention_hit_def Let_def full_hit_loop_one cached_prefix_def if_distrib [of "(*) (spec_block_size spec)"] cong: if_cong)
  then show "coord_find_longest_cache_hit hs max_hit c =
      (let r = (if 0 \<in> set (eagle_group_ids c) then butlast hit else hit) in Inr ([r], length r * c_block_size c))"
    using assms(1-3) by (cases spec) (simp_all add: coord_find_longest_cache_hit_def find_longest_cache_hit_def Let_def)
  have "length hit * c_block_size c \<le> n * c_block_size c"
    using assms(8) by (intro mult_le_mono1) (simp add: length_cached_prefix)
  also have "\<dots> \<le> max_hit" using assms(7) by simp
  finally show "length hit * c_block_size c \<le> max_hit" .
  have len: "length hit = length ?tw" using assms(8) by (simp add: cached_prefix_def)
  have pre: "?tw = take (length hit) (take n hs)" unfolding len by (rule takeWhile_eq_take)
  then have tw: "?tw = take (length hit) hs"
    using len length_cached_prefix [of ?p 0 n hs] assms(8) by (simp add: min_absorb1)
  have good: "b < num_gpu_blocks ?p \<and> b \<noteq> null_block ?p \<and> bhash ?p b = Some (make_block_hash_with_group_id h 0)"
    if "hit_block ?p 0 h = Some b" for h b
    using get_cached_block_inv [OF assms(4), of h "[0]" "[b]"] that by simp
  have "list_all2 (\<lambda>h b. b < num_gpu_blocks ?p \<and> b \<noteq> null_block ?p \<and> bhash ?p b = Some (make_block_hash_with_group_id h 0))
      ?tw (map (\<lambda>h. the (hit_block ?p 0 h)) ?tw)"
    unfolding list_all2_map2
  proof (rule list.rel_refl_strong)
    fix h assume "h \<in> set ?tw"
    then obtain b where "hit_block ?p 0 h = Some b" using set_takeWhileD not_None_eq by metis
    then show "the (hit_block ?p 0 h) < num_gpu_blocks ?p \<and> the (hit_block ?p 0 h) \<noteq> null_block ?p \<and>
      bhash ?p (the (hit_block ?p 0 h)) = Some (make_block_hash_with_group_id h 0)" using good by simp
  qed
  moreover have "map (\<lambda>h. the (hit_block ?p 0 h)) ?tw = hit" using assms(8) by (simp only: cached_prefix_def)
  ultimately show "list_all2 (\<lambda>h b. b < num_gpu_blocks ?p \<and> b \<noteq> null_block ?p \<and>
      bhash ?p b = Some (make_block_hash_with_group_id h 0)) (take (length hit) hs) hit"
    unfolding tw by simp
  assume "length hit < min n (length hs)"
  then show "get_cached_block ?p (hs ! length hit) [0] = None"
    using nth_length_takeWhile [of "\<lambda>h. hit_block ?p 0 h \<noteq> None" "take n hs"] len by simp
qed



definition unitary_coordinator :: "free_queue \<Rightarrow> kv_coordinator" where
  "unitary_coordinator q = \<lparr>c_kind = Unitary, c_groups = [(FullAttentionSpec 1, False)],
     c_pool = hashed_pool [7, 0, 0, 0, 0] [8, 0, 0, 0, 0] q, c_managers = [idle_manager 0], eagle_group_ids = [],
     c_block_size = 1, c_dcp = 1, c_pcp = 1, c_hash_block_size = 1, attention_groups = [], lcm_block_size = 1,
     eagle_attn_group_indices = []\<rparr>"

lemma hashed_pool_hits:
  "hit_block (hashed_pool [7, 0, 0, 0, 0] [8, 0, 0, 0, 0] q) 0 [7] = Some 1"
  "hit_block (hashed_pool [7, 0, 0, 0, 0] [8, 0, 0, 0, 0] q) 0 [8] = Some 2"
  "hit_block (hashed_pool [7, 0, 0, 0, 0] [8, 0, 0, 0, 0] q) 0 [9] = None"
  by (simp_all add: hit_block_def hashed_pool_def make_block_hash_with_group_id_def get_one_block_def del: hit_block_fold)

theorem unitary_hit_is_longest_prefix_witness:
  "\<exists>q. coord_find_longest_cache_hit [[7], [8], [9]] 5 (unitary_coordinator q) = Inr ([[1, 2]], 2) \<and>
    get_cached_block (c_pool (unitary_coordinator q)) [9] [0] = None"
proof -
  obtain q where q: "fq_rep q [1, 2, 3]" using fq_rep_exists [of "[1, 2, 3]"] by auto
  let ?p = "hashed_pool [7, 0, 0, 0, 0] [8, 0, 0, 0, 0] q" and ?c = "unitary_coordinator q"
  have hit: "cached_prefix ?p 0 5 [[7], [8], [9]] = [1, 2]"
    by (simp add: cached_prefix_def hashed_pool_hits)
  have "pool_inv ?p [1, 2, 3] {#}" by (rule hashed_pool_inv [OF q]) simp
  then show ?thesis
    using unitary_hit_is_longest_prefix [where c = ?c and spec = "FullAttentionSpec 1" and spec_eagle = False
        and hs = "[[7], [8], [9]]" and max_hit = 5 and n = 5 and hit = "[1, 2]" and xs = "[1, 2, 3]" and refs = "{#}"] hit
    by (intro exI [of _ q]) (simp add: unitary_coordinator_def)
qed


declare not_None_eq [simp]

end
