(* ===== verification/VL_Encoder.thy ===== *)
theory VL_Encoder
  imports VL_Request
begin

text \<open>
  The encoder cache (\<open>v1/core/encoder_cache_manager.py\<close>).  \<open>cached\<close> maps the hash of a
  multimodal input to the requests that reference it, \<open>freeable\<close> is the ordered dictionary of
  unreferenced entries with their sizes.  The invariant relates the two counters to them.  The
  second half is the manager of encoder-decoder models.
\<close>

subsection \<open>State\<close>

record encoder_cache =
  cache_size :: int
  num_free_slots :: int
  num_freeable_slots :: int
  cached :: "string \<Rightarrow> string set option"
  freeable :: "(string \<times> nat) list"
  freed :: "string list"

definition encoder_cache_init :: "int \<Rightarrow> encoder_cache" where
  "encoder_cache_init n =
     \<lparr>cache_size = n, num_free_slots = n, num_freeable_slots = n, cached = (\<lambda>_. None),
      freeable = [], freed = []\<rparr>"

definition encoder_reset :: "encoder_cache \<Rightarrow> encoder_cache" where
  "encoder_reset s =
     s\<lparr>cached := (\<lambda>_. None), freeable := [], freed := [], num_free_slots := cache_size s,
       num_freeable_slots := cache_size s\<rparr>"

definition feature_hash :: "request \<Rightarrow> nat \<Rightarrow> string res" where
  "feature_hash r i =
     (if i < length (mm_features r) then Inr (mm_identifier (mm_features r ! i)) else Inl IndexError)"

subsection \<open>Operations\<close>

definition check_and_update_cache :: "request \<Rightarrow> nat \<Rightarrow> encoder_cache \<Rightarrow> (bool \<times> encoder_cache) res" where
  "check_and_update_cache r input_id s =
     rbind (feature_hash r input_id) (\<lambda>mm_hash.
       (case cached s mm_hash of
          None \<Rightarrow> Inr (False, s)
        | Some ids \<Rightarrow>
            rbind (if ids = {} then
                     (case map_of (freeable s) mm_hash of
                        None \<Rightarrow> Inl KeyError
                      | Some n \<Rightarrow> Inr (s\<lparr>freeable := AList.delete mm_hash (freeable s),
                                       num_freeable_slots := num_freeable_slots s - int n\<rparr>))
                   else Inr s)
              (\<lambda>s1. Inr (True, s1\<lparr>cached := (cached s1)(mm_hash \<mapsto> insert (request_id r) ids)\<rparr>))))"

fun evict_loop :: "int \<Rightarrow> (string \<times> nat) list \<Rightarrow> encoder_cache \<Rightarrow> encoder_cache res" where
  "evict_loop num_embeds fs s =
     (if num_embeds > num_free_slots s then
        (case fs of
           [] \<Rightarrow> Inl KeyError
         | (mm_hash, n) # fs' \<Rightarrow>
             if cached s mm_hash = None then Inl KeyError
             else evict_loop num_embeds fs'
               (s\<lparr>freeable := fs', cached := (cached s)(mm_hash := None), freed := freed s @ [mm_hash],
                  num_free_slots := num_free_slots s + int n\<rparr>))
      else Inr s)"

declare evict_loop.simps [simp del]

definition can_allocate :: "request \<Rightarrow> nat \<Rightarrow> int \<Rightarrow> int \<Rightarrow> encoder_cache \<Rightarrow> (bool \<times> encoder_cache) res" where
  "can_allocate r input_id encoder_compute_budget num_embeds_to_schedule s =
     rbind (get_num_encoder_embeds r input_id) (\<lambda>n.
       if int n > encoder_compute_budget then Inr (False, s)
       else let num_embeds = int n + num_embeds_to_schedule in
         if num_embeds \<le> num_free_slots s then Inr (True, s)
         else if num_embeds > num_freeable_slots s then Inr (False, s)
         else rbind (evict_loop num_embeds (freeable s) s) (\<lambda>s'. Inr (True, s')))"

definition allocate_encoder :: "request \<Rightarrow> nat \<Rightarrow> encoder_cache \<Rightarrow> encoder_cache res" where
  "allocate_encoder r input_id s =
     rbind (feature_hash r input_id) (\<lambda>mm_hash.
     rbind (get_num_encoder_embeds r input_id) (\<lambda>n.
       let ids = (case cached s mm_hash of None \<Rightarrow> {} | Some ids \<Rightarrow> ids) in
       if num_free_slots s < int n \<or> num_freeable_slots s < int n then Inl AssertionError
       else Inr (s\<lparr>cached := (cached s)(mm_hash \<mapsto> insert (request_id r) ids),
                   num_free_slots := num_free_slots s - int n,
                   num_freeable_slots := num_freeable_slots s - int n\<rparr>)))"

definition get_cached_input_ids :: "request \<Rightarrow> encoder_cache \<Rightarrow> nat list" where
  "get_cached_input_ids r s =
     filter (\<lambda>i. cached s (mm_identifier (mm_features r ! i)) \<noteq> None) [0..<length (mm_features r)]"

definition free_encoder_input :: "request \<Rightarrow> nat \<Rightarrow> encoder_cache \<Rightarrow> encoder_cache res" where
  "free_encoder_input r input_id s =
     rbind (feature_hash r input_id) (\<lambda>mm_hash.
       (case cached s mm_hash of
          None \<Rightarrow> Inr s
        | Some ids \<Rightarrow>
            if ids = {} then Inr s
            else let ids' = ids - {request_id r};
                     s1 = s\<lparr>cached := (cached s)(mm_hash \<mapsto> ids')\<rparr>
                 in if ids' = {}
                    then rbind (get_num_encoder_embeds r input_id) (\<lambda>n.
                      Inr (s1\<lparr>freeable := AList.update mm_hash n (freeable s1),
                              num_freeable_slots := num_freeable_slots s1 + int n\<rparr>))
                    else Inr s1))"

fun free_inputs :: "request \<Rightarrow> nat list \<Rightarrow> encoder_cache \<Rightarrow> encoder_cache res" where
  "free_inputs r [] s = Inr s"
| "free_inputs r (i # is) s = rbind (free_encoder_input r i s) (free_inputs r is)"

definition free_encoder :: "request \<Rightarrow> encoder_cache \<Rightarrow> encoder_cache res" where
  "free_encoder r s = free_inputs r (get_cached_input_ids r s) s"

definition get_freed_mm_hashes :: "encoder_cache \<Rightarrow> string list \<times> encoder_cache" where
  "get_freed_mm_hashes s = (freed s, s\<lparr>freed := []\<rparr>)"

record encoder_scheduler_config =
  disable_chunked_mm_input :: bool
  max_num_batched_tokens :: nat
  max_num_encoder_input_tokens :: nat
  encoder_cache_size :: nat

definition compute_mm_encoder_budget ::
  "encoder_scheduler_config \<Rightarrow> (string \<times> nat) list \<Rightarrow> (nat \<times> nat) res" where
  "compute_mm_encoder_budget c mm_max_toks_per_item =
     (if mm_max_toks_per_item = [] then Inr (0, 0)
      else let max_tokens_per_mm_item = Max (snd ` set mm_max_toks_per_item) in
        if disable_chunked_mm_input c \<and> max_tokens_per_mm_item > max_num_batched_tokens c
        then Inl ValueError
        else Inr (max (max_num_encoder_input_tokens c) max_tokens_per_mm_item,
                  max (encoder_cache_size c) max_tokens_per_mm_item))"

subsection \<open>Encoder-decoder models\<close>

record encdec_cache =
  ed_cache_size :: int
  ed_num_free_slots :: int
  ed_allocated :: "string list"
  ed_to_free :: "string list"

definition encdec_init :: "int \<Rightarrow> encdec_cache" where
  "encdec_init n = \<lparr>ed_cache_size = n, ed_num_free_slots = n, ed_allocated = [], ed_to_free = []\<rparr>"

definition encdec_reset :: "encdec_cache \<Rightarrow> encdec_cache" where
  "encdec_reset s = s\<lparr>ed_num_free_slots := ed_cache_size s, ed_allocated := [], ed_to_free := []\<rparr>"

definition encdec_can_allocate :: "request \<Rightarrow> nat \<Rightarrow> int \<Rightarrow> int \<Rightarrow> encdec_cache \<Rightarrow> bool res" where
  "encdec_can_allocate r input_id encoder_compute_budget num_embeds_to_schedule s =
     rbind (get_num_encoder_embeds r input_id) (\<lambda>n.
       Inr (\<not> int n > encoder_compute_budget \<and> int n + num_embeds_to_schedule \<le> ed_num_free_slots s))"

definition encdec_allocate :: "request \<Rightarrow> nat \<Rightarrow> encdec_cache \<Rightarrow> encdec_cache res" where
  "encdec_allocate r input_id s =
     rbind (get_num_encoder_embeds r input_id) (\<lambda>n.
     rbind (feature_hash r input_id) (\<lambda>mm_hash.
       Inr (s\<lparr>ed_num_free_slots := ed_num_free_slots s - int n, ed_allocated := ed_allocated s @ [mm_hash]\<rparr>)))"

definition encdec_free_encoder_input :: "request \<Rightarrow> nat \<Rightarrow> encdec_cache \<Rightarrow> encdec_cache res" where
  "encdec_free_encoder_input r input_id s =
     rbind (get_num_encoder_embeds r input_id) (\<lambda>n.
       Inr (s\<lparr>ed_num_free_slots := ed_num_free_slots s + int n\<rparr>))"

fun encdec_free_inputs :: "request \<Rightarrow> nat list \<Rightarrow> encdec_cache \<Rightarrow> encdec_cache res" where
  "encdec_free_inputs r [] s = Inr s"
| "encdec_free_inputs r (i # is) s = rbind (encdec_free_encoder_input r i s) (encdec_free_inputs r is)"

definition encdec_free :: "request \<Rightarrow> encdec_cache \<Rightarrow> encdec_cache res" where
  "encdec_free r s = encdec_free_inputs r [0..<length (mm_features r)] s"

definition encdec_get_cached_input_ids :: "request \<Rightarrow> encdec_cache \<Rightarrow> nat list" where
  "encdec_get_cached_input_ids r s = [0..<length (mm_features r)]"

definition encdec_get_freed_mm_hashes :: "encdec_cache \<Rightarrow> string list \<times> encdec_cache" where
  "encdec_get_freed_mm_hashes s =
     (ed_to_free s, s\<lparr>ed_to_free := ed_allocated s, ed_allocated := []\<rparr>)"

text \<open>\<open>Scheduler._free_encoder_inputs\<close> for an encoder-decoder model, run after each step.\<close>

definition step_frees :: "request \<Rightarrow> nat \<Rightarrow> bool" where
  "step_frees r i \<longleftrightarrow> num_computed_tokens r > 0 \<or>
     mm_offset (mm_features r ! i) + mm_length (mm_features r ! i) \<le> num_computed_tokens r"

definition encdec_free_encoder_inputs :: "request \<Rightarrow> encdec_cache \<Rightarrow> encdec_cache res" where
  "encdec_free_encoder_inputs r s =
     encdec_free_inputs r (filter (step_frees r) (encdec_get_cached_input_ids r s)) s"

definition scheduler_free_encoder_inputs :: "request \<Rightarrow> encoder_cache \<Rightarrow> encoder_cache res" where
  "scheduler_free_encoder_inputs r s =
     free_inputs r (filter (\<lambda>i. mm_offset (mm_features r ! i) + mm_length (mm_features r ! i)
                        \<le> num_computed_tokens r) (get_cached_input_ids r s)) s"

subsection \<open>Invariant\<close>

text \<open>\<open>sz\<close> gives the number of embeddings of a hash; requests agree with it.\<close>

definition sizes_ok :: "(string \<Rightarrow> nat) \<Rightarrow> request \<Rightarrow> bool" where
  "sizes_ok sz r \<longleftrightarrow> (\<forall>f\<in>set (mm_features r). get_num_embeds f = sz (mm_identifier f))"

definition encoder_inv :: "(string \<Rightarrow> nat) \<Rightarrow> encoder_cache \<Rightarrow> bool" where
  "encoder_inv sz s \<longleftrightarrow>
     finite (dom (cached s)) \<and> distinct (map fst (freeable s)) \<and>
     set (map fst (freeable s)) = {h. cached s h = Some {}} \<and>
     (\<forall>(h, n)\<in>set (freeable s). n = sz h) \<and>
     num_free_slots s = cache_size s - int (\<Sum>h\<in>dom (cached s). sz h) \<and>
     num_freeable_slots s = num_free_slots s + int (sum_list (map snd (freeable s))) \<and>
     0 \<le> num_free_slots s"

lemma encoder_init_inv: "0 \<le> n \<Longrightarrow> encoder_inv sz (encoder_cache_init n)"
  by (simp add: encoder_inv_def encoder_cache_init_def)

lemma num_embeds_ok:
  assumes "sizes_ok sz r" "i < length (mm_features r)"
  shows "get_num_encoder_embeds r i = Inr (sz (mm_identifier (mm_features r ! i)))"
    "feature_hash r i = Inr (mm_identifier (mm_features r ! i))"
  using assms by (simp_all add: get_num_encoder_embeds_def feature_hash_def sizes_ok_def)

lemma freeable_sizes:
  assumes "encoder_inv sz s"
  shows "map snd (freeable s) = map (sz \<circ> fst) (freeable s)"
  using assms by (auto simp: encoder_inv_def)

lemma sum_list_delete:
  "distinct (map fst xs) \<Longrightarrow> map_of xs k = Some n \<Longrightarrow>
   int (sum_list (map snd (AList.delete k xs))) = int (sum_list (map snd xs)) - int n"
proof (induction xs)
  case (Cons x xs)
  obtain a b where x: "x = (a, b)" by (cases x)
  show ?case
  proof (cases "a = k")
    case True
    then have "AList.delete k xs = xs"
      using Cons.prems x by (force simp: AList.delete_eq intro!: filter_True)
    then show ?thesis using True Cons.prems x by (simp add: AList.delete_eq)
  next
    case False
    then show ?thesis using Cons x by (simp add: AList.delete_eq)
  qed
qed simp

lemma check_and_update_inv:
  assumes inv: "encoder_inv sz s" and i: "i < length (mm_features r)"
  defines "h \<equiv> mm_identifier (mm_features r ! i)"
  shows "\<exists>s'. check_and_update_cache r i s = Inr (cached s h \<noteq> None, s') \<and> encoder_inv sz s' \<and>
    cached s' = (case cached s h of None \<Rightarrow> cached s | Some ids \<Rightarrow> (cached s)(h \<mapsto> insert (request_id r) ids)) \<and>
    num_free_slots s' = num_free_slots s \<and> freed s' = freed s"
proof (cases "cached s h")
  case None
  then show ?thesis
    using inv i by (simp add: check_and_update_cache_def feature_hash_def h_def)
next
  case (Some ids)
  have d: "distinct (map fst (freeable s))" "set (map fst (freeable s)) = {h. cached s h = Some {}}"
    using inv by (simp_all add: encoder_inv_def)
  define c' where "c' = (cached s)(h \<mapsto> insert (request_id r) ids)"
  have dom: "dom c' = dom (cached s)" using Some by (auto simp: c'_def)
  have empt: "{k. c' k = Some {}} = {k. cached s k = Some {}} - {h}"
    by (auto simp: c'_def)
  show ?thesis
  proof (cases "ids = {}")
    case False
    define s' where "s' = s\<lparr>cached := c'\<rparr>"
    have "check_and_update_cache r i s = Inr (True, s')"
      using Some False i by (simp add: check_and_update_cache_def feature_hash_def h_def c'_def s'_def)
    moreover have "h \<notin> {k. cached s k = Some {}}" using Some False by simp
    then have "encoder_inv sz s'"
      using inv dom empt by (simp add: encoder_inv_def s'_def)
    ultimately show ?thesis using Some by (auto simp: s'_def c'_def)
  next
    case True
    then have "h \<in> set (map fst (freeable s))" using d(2) Some by simp
    then obtain n where n: "map_of (freeable s) h = Some n"
      by (metis dom_map_of_fst list.set_map option.exhaust)
    define s' where "s' = s\<lparr>freeable := AList.delete h (freeable s),
      num_freeable_slots := num_freeable_slots s - int n, cached := c'\<rparr>"
    have "check_and_update_cache r i s = Inr (True, s')"
      using Some True n i by (simp add: check_and_update_cache_def feature_hash_def h_def c'_def s'_def)
    moreover have "encoder_inv sz s'"
      unfolding encoder_inv_def
    proof (intro conjI)
      show "set (map fst (freeable s')) = {k. cached s' k = Some {}}"
        using empt d(2) by (simp add: s'_def delete_keys)
      show "\<forall>(h, n)\<in>set (freeable s'). n = sz h"
        using inv by (auto simp: encoder_inv_def s'_def AList.delete_eq)
      show "num_freeable_slots s' = num_free_slots s' + int (sum_list (map snd (freeable s')))"
        using inv sum_list_delete [OF d(1) n] by (simp add: encoder_inv_def s'_def)
    qed (use inv dom in \<open>simp_all add: encoder_inv_def s'_def distinct_delete\<close>)
    ultimately show ?thesis using Some by (auto simp: s'_def c'_def)
  qed
qed

lemma evict_loop_inv:
  "encoder_inv sz s \<Longrightarrow> freeable s = fs \<Longrightarrow> need \<le> num_freeable_slots s \<Longrightarrow>
   \<exists>s' k. evict_loop need fs s = Inr s' \<and> encoder_inv sz s' \<and> need \<le> num_free_slots s' \<and>
     num_freeable_slots s' = num_freeable_slots s \<and>
     freed s' = freed s @ map fst (take k fs) \<and> freeable s' = drop k fs \<and>
     cached s' = (\<lambda>h. if h \<in> set (map fst (take k fs)) then None else cached s h)"
proof (induction fs arbitrary: s)
  case Nil
  then show ?case
    by (intro exI [of _ s] exI [of _ 0]) (simp add: evict_loop.simps encoder_inv_def)
next
  case (Cons x fs)
  obtain h n where x: "x = (h, n)" by (cases x)
  show ?case
  proof (cases "need > num_free_slots s")
    case False
    then show ?thesis
      using Cons.prems by (intro exI [of _ s] exI [of _ 0]) (simp add: evict_loop.simps)
  next
    case True
    have e: "set (map fst (freeable s)) = {k. cached s k = Some {}}" "distinct (map fst (freeable s))" "n = sz h"
      using Cons.prems(1,2) x by (auto simp: encoder_inv_def)
    have c: "cached s h = Some {}" using e(1) Cons.prems(2) x by auto
    define s1 where "s1 = s\<lparr>freeable := fs, cached := (cached s)(h := None), freed := freed s @ [h],
                  num_free_slots := num_free_slots s + int n\<rparr>"
    have "dom (cached s1) = dom (cached s) - {h}" by (auto simp: s1_def)
    moreover have "h \<in> dom (cached s)" "finite (dom (cached s))" using c Cons.prems(1) by (auto simp: encoder_inv_def)
    ultimately have "(\<Sum>h\<in>dom (cached s). sz h) = sz h + (\<Sum>h\<in>dom (cached s1). sz h)"
      by (simp add: sum.remove)
    then have inv1: "encoder_inv sz s1"
      using Cons.prems(1,2) e x by (auto simp: encoder_inv_def s1_def) 
    have f1: "freeable s1 = fs" "need \<le> num_freeable_slots s1" "num_freeable_slots s1 = num_freeable_slots s"
      using Cons.prems(3) by (simp_all add: s1_def)
    obtain s' k where s': "evict_loop need fs s1 = Inr s'" "encoder_inv sz s'" "need \<le> num_free_slots s'"
      "num_freeable_slots s' = num_freeable_slots s1"
      "freed s' = freed s1 @ map fst (take k fs)" "freeable s' = drop k fs"
      "cached s' = (\<lambda>h. if h \<in> set (map fst (take k fs)) then None else cached s1 h)"
      using Cons.IH [OF inv1 f1(1,2)] by blast
    show ?thesis
      using s' True c f1(3)
      by (intro exI [of _ s'] exI [of _ "Suc k"])
         (auto simp: x evict_loop.simps [of need "(h, n) # fs"] s1_def fun_eq_iff)
  qed
qed


lemma allocate_inv:
  assumes inv: "encoder_inv sz s" and ok: "sizes_ok sz r" and i: "i < length (mm_features r)"
  defines "h \<equiv> mm_identifier (mm_features r ! i)"
  assumes new: "cached s h = None" and space: "int (sz h) \<le> num_free_slots s"
  shows "\<exists>s'. allocate_encoder r i s = Inr s' \<and> encoder_inv sz s' \<and>
    cached s' = (cached s)(h \<mapsto> {request_id r}) \<and> num_free_slots s' = num_free_slots s - int (sz h) \<and>
    freeable s' = freeable s \<and> freed s' = freed s"
proof -
  define s' where "s' = s\<lparr>cached := (cached s)(h \<mapsto> {request_id r}),
    num_free_slots := num_free_slots s - int (sz h), num_freeable_slots := num_freeable_slots s - int (sz h)\<rparr>"
  have ge: "num_free_slots s \<le> num_freeable_slots s" using inv by (simp add: encoder_inv_def)
  have "allocate_encoder r i s = Inr s'"
    using num_embeds_ok [OF ok i] new space ge
    by (simp add: allocate_encoder_def h_def s'_def Let_def)
  moreover have "encoder_inv sz s'"
  proof -
    have "dom (cached s') = insert h (dom (cached s))" "h \<notin> dom (cached s)" "finite (dom (cached s))"
      using new inv by (auto simp: s'_def encoder_inv_def)
    then have "(\<Sum>k\<in>dom (cached s'). sz k) = sz h + (\<Sum>k\<in>dom (cached s). sz k)" "finite (dom (cached s'))" by simp_all
    moreover have "{k. cached s' k = Some {}} = {k. cached s k = Some {}}"
      using new by (auto simp: s'_def)
    ultimately show ?thesis
      using inv space by (simp add: encoder_inv_def) (simp add: s'_def)
  qed
  ultimately show ?thesis by (simp add: s'_def)
qed

lemma free_input_inv:
  assumes inv: "encoder_inv sz s" and ok: "sizes_ok sz r" and i: "i < length (mm_features r)"
  defines "h \<equiv> mm_identifier (mm_features r ! i)"
  shows "\<exists>s'. free_encoder_input r i s = Inr s' \<and> encoder_inv sz s' \<and>
    cached s' = (cached s)(h := map_option (\<lambda>ids. ids - {request_id r}) (cached s h)) \<and>
    num_free_slots s' = num_free_slots s \<and> freed s' = freed s"
proof (cases "cached s h = None \<or> cached s h = Some {}")
  case True
  have "(cached s)(h := map_option (\<lambda>ids. ids - {request_id r}) (cached s h)) = cached s"
    using True by (auto simp: fun_eq_iff)
  moreover have "free_encoder_input r i s = Inr s"
    using True num_embeds_ok [OF ok i] by (auto simp: free_encoder_input_def h_def)
  ultimately show ?thesis using inv by simp
next
  case False
  then obtain ids where ids: "cached s h = Some ids" "ids \<noteq> {}" by auto
  define ids' where "ids' = ids - {request_id r}"
  define c' where "c' = (cached s)(h \<mapsto> ids')"
  have dom: "dom c' = dom (cached s)" using ids by (auto simp: c'_def)
  have nf: "h \<notin> set (map fst (freeable s))" using inv ids by (auto simp: encoder_inv_def)
  have cc: "(cached s)(h := map_option (\<lambda>ids. ids - {request_id r}) (cached s h)) = c'"
    using ids by (simp add: c'_def ids'_def)
  show ?thesis
  proof (cases "ids' = {}")
    case False
    define s' where "s' = s\<lparr>cached := c'\<rparr>"
    have "free_encoder_input r i s = Inr s'"
      using ids False num_embeds_ok [OF ok i]
      by (simp add: free_encoder_input_def h_def ids'_def c'_def s'_def Let_def)
    moreover have "{k. c' k = Some {}} = {k. cached s k = Some {}}"
      using False ids by (auto simp: c'_def)
    then have "encoder_inv sz s'" using inv dom by (simp add: encoder_inv_def s'_def)
    ultimately show ?thesis using cc by (simp add: s'_def)
  next
    case True
    define s' where "s' = s\<lparr>cached := c', freeable := AList.update h (sz h) (freeable s),
      num_freeable_slots := num_freeable_slots s + int (sz h)\<rparr>"
    have "free_encoder_input r i s = Inr s'"
      using ids True num_embeds_ok [OF ok i]
      by (simp add: free_encoder_input_def h_def ids'_def c'_def s'_def Let_def)
    moreover have up: "AList.update h (sz h) (freeable s) = freeable s @ [(h, sz h)]"
      using nf by (rule update_new)
    have "{k. c' k = Some {}} = insert h {k. cached s k = Some {}}"
      using True by (auto simp: c'_def)
    then have "encoder_inv sz s'"
      using inv dom nf by (auto simp: encoder_inv_def s'_def up)
    ultimately show ?thesis using cc by (simp add: s'_def)
  qed
qed


subsection \<open>Properties\<close>


definition image_request :: "string \<Rightarrow> string \<Rightarrow> nat \<Rightarrow> request" where
  "image_request rid h n =
     (plain_request rid [1, 2])\<lparr>num_computed_tokens := 1,
        mm_features := [\<lparr>mm_identifier = h, mm_offset = 0, mm_length = n, is_embed = None\<rparr>]\<rparr>"

lemma image_request_simps [simp]:
  "mm_features (image_request rid h n) = [\<lparr>mm_identifier = h, mm_offset = 0, mm_length = n, is_embed = None\<rparr>]"
  "request_id (image_request rid h n) = rid" "num_computed_tokens (image_request rid h n) = 1"
  by (simp_all add: image_request_def plain_request_def)

lemma image_sizes: "sizes_ok (\<lambda>_. n) (image_request rid h n)"
  by (simp add: sizes_ok_def get_num_embeds_def embeds_cumsum_def)


text \<open>
  An admitted input is stored without failing and releasing it gives its slots back.  After
  a positive check for an input that is not cached, allocating it passes both assertions and
  records the request as its only user; when that request releases it, the entry stays cached,
  is reclaimable again, and the reclaimable slots are what they were.
\<close>

theorem encoder_allocate_release:
  assumes "encoder_inv sz s" "sizes_ok sz r" "i < length (mm_features r)" "0 \<le> sched"
    and "cached s (mm_identifier (mm_features r ! i)) = None"
    and "can_allocate r i budget sched s = Inr (True, s1)"
  shows "\<exists>s2 s3. allocate_encoder r i s1 = Inr s2 \<and> encoder_inv sz s2 \<and>
    cached s2 (mm_identifier (mm_features r ! i)) = Some {request_id r} \<and>
    free_encoder_input r i s2 = Inr s3 \<and> encoder_inv sz s3 \<and>
    cached s3 (mm_identifier (mm_features r ! i)) = Some {} \<and>
    num_freeable_slots s3 = num_freeable_slots s"
proof -
  define h where "h = mm_identifier (mm_features r ! i)"
  have n: "get_num_encoder_embeds r i = Inr (sz h)" "feature_hash r i = Inr h"
    using num_embeds_ok [OF assms(2,3)] by (simp_all add: h_def)
  have "\<exists>k. encoder_inv sz s1 \<and> int (sz h) + sched \<le> num_free_slots s1 \<and> num_freeable_slots s1 = num_freeable_slots s
    \<and> (cached s1 h = None)"
  proof (cases "int (sz h) + sched \<le> num_free_slots s")
    case True
    then show ?thesis using assms n by (auto simp: can_allocate_def h_def split: if_splits)
  next
    case False
    then have "evict_loop (int (sz h) + sched) (freeable s) s = Inr s1"
      "int (sz h) + sched \<le> num_freeable_slots s"
      using assms(6) n by (auto simp: can_allocate_def Let_def rbind_def split: if_splits sum.splits)
    then show ?thesis
      using evict_loop_inv [OF assms(1) refl] assms(5) by (fastforce simp: h_def)
  qed
  then have s1: "encoder_inv sz s1" "int (sz h) \<le> num_free_slots s1" "cached s1 h = None"
    "num_freeable_slots s1 = num_freeable_slots s"
    using assms(4) by auto
  obtain s2 where s2: "allocate_encoder r i s1 = Inr s2" "encoder_inv sz s2" "cached s2 = (cached s1)(h \<mapsto> {request_id r})"
    "num_free_slots s2 = num_free_slots s1 - int (sz h)" "freeable s2 = freeable s1"
    using allocate_inv [OF s1(1) assms(2,3)] s1(2,3) unfolding h_def by blast
  obtain s3 where s3: "free_encoder_input r i s2 = Inr s3" "encoder_inv sz s3"
    "cached s3 = (cached s2)(h := map_option (\<lambda>ids. ids - {request_id r}) (cached s2 h))"
    "num_free_slots s3 = num_free_slots s2"
    using free_input_inv [OF s2(2) assms(2,3)] unfolding h_def by blast
  have "num_freeable_slots s3 = num_freeable_slots s2 + int (sz h)"
    using s3(1) s2(3) n by (auto simp: free_encoder_input_def Let_def)
  moreover have "num_freeable_slots s2 = num_freeable_slots s1 - int (sz h)"
    using s1(1) s2(2,4,5) by (simp add: encoder_inv_def)
  ultimately show ?thesis
    using s1(4) s2 s3 unfolding h_def [symmetric] by auto
qed

theorem encoder_allocate_release_witness:
  "\<exists>s2 s3. allocate_encoder (image_request ''r'' ''h'' 3) 0 (encoder_cache_init 4) = Inr s2 \<and>
    encoder_inv (\<lambda>_. 3) s2 \<and> cached s2 ''h'' = Some {''r''} \<and>
    free_encoder_input (image_request ''r'' ''h'' 3) 0 s2 = Inr s3 \<and> encoder_inv (\<lambda>_. 3) s3 \<and>
    cached s3 ''h'' = Some {} \<and> num_freeable_slots s3 = num_freeable_slots (encoder_cache_init 4)"
  using encoder_allocate_release [where sz = "\<lambda>_. 3" and s = "encoder_cache_init 4" and i = 0 and sched = 0
      and r = "image_request ''r'' ''h'' 3" and budget = 10 and ?s1.0 = "encoder_cache_init 4",
      OF encoder_init_inv image_sizes]
  by (simp add: encoder_cache_init_def can_allocate_def get_num_encoder_embeds_def get_num_embeds_def embeds_cumsum_def)


end
