(* ===== verification/Py_Heapq.thy ===== *)
theory Py_Heapq
  imports Prelude "HOL-Library.Multiset"
begin

text \<open>
  Python's \<open>heapq\<close>, which the priority queue of the scheduler uses: a binary heap in a list, with
  the sift operations of the library.  The functions take the comparison \<open>\<open>__lt__\<close>\<close> as an
  argument; their laws are proved for a comparison given by a key in a linear order.
\<close>

subsection \<open>Operations\<close>

definition par :: "nat \<Rightarrow> nat" where
  "par i = (i - 1) div 2"

function siftdown_loop :: "('a \<Rightarrow> 'a \<Rightarrow> bool) \<Rightarrow> 'a \<Rightarrow> nat \<Rightarrow> nat \<Rightarrow> 'a list \<Rightarrow> 'a list" where
  "siftdown_loop lt newitem startpos pos heap =
     (if pos > startpos \<and> lt newitem (heap ! par pos)
      then siftdown_loop lt newitem startpos (par pos) (heap[pos := heap ! par pos])
      else heap[pos := newitem])"
  by pat_completeness auto
termination
  by (relation "measure (\<lambda>(lt, x, s, pos, h). pos)") (auto simp: par_def)

declare siftdown_loop.simps [simp del]

definition siftdown :: "('a \<Rightarrow> 'a \<Rightarrow> bool) \<Rightarrow> nat \<Rightarrow> nat \<Rightarrow> 'a list \<Rightarrow> 'a list" where
  "siftdown lt startpos pos heap = siftdown_loop lt (heap ! pos) startpos pos heap"

definition smaller_child :: "('a \<Rightarrow> 'a \<Rightarrow> bool) \<Rightarrow> nat \<Rightarrow> 'a list \<Rightarrow> nat" where
  "smaller_child lt pos heap =
     (let childpos = 2 * pos + 1; rightpos = childpos + 1
      in if rightpos < length heap \<and> \<not> lt (heap ! childpos) (heap ! rightpos) then rightpos else childpos)"

function siftup_loop :: "('a \<Rightarrow> 'a \<Rightarrow> bool) \<Rightarrow> nat \<Rightarrow> 'a list \<Rightarrow> nat \<times> 'a list" where
  "siftup_loop lt pos heap =
     (if 2 * pos + 1 < length heap
      then let childpos = smaller_child lt pos heap
           in siftup_loop lt childpos (heap[pos := heap ! childpos])
      else (pos, heap))"
  by pat_completeness auto
termination
  by (relation "measure (\<lambda>(lt, pos, h). length h - pos)") (auto simp: smaller_child_def Let_def)

declare siftup_loop.simps [simp del]

definition siftup :: "('a \<Rightarrow> 'a \<Rightarrow> bool) \<Rightarrow> nat \<Rightarrow> 'a list \<Rightarrow> 'a list" where
  "siftup lt startpos heap =
     (let (pos, h) = siftup_loop lt startpos heap
      in siftdown lt startpos pos (h[pos := heap ! startpos]))"

definition heappush :: "('a \<Rightarrow> 'a \<Rightarrow> bool) \<Rightarrow> 'a \<Rightarrow> 'a list \<Rightarrow> 'a list" where
  "heappush lt x heap = siftdown lt 0 (length heap) (heap @ [x])"

definition heappop :: "('a \<Rightarrow> 'a \<Rightarrow> bool) \<Rightarrow> 'a list \<Rightarrow> ('a \<times> 'a list) res" where
  "heappop lt heap =
     (if heap = [] then Inl IndexError
      else let lastelt = last heap; rest = butlast heap
           in if rest = [] then Inr (lastelt, []) else Inr (hd rest, siftup lt 0 (rest[0 := lastelt])))"

definition heapify :: "('a \<Rightarrow> 'a \<Rightarrow> bool) \<Rightarrow> 'a list \<Rightarrow> 'a list" where
  "heapify lt heap = fold (siftup lt) (rev [0..<length heap div 2]) heap"

text \<open>Popping until the heap is empty.\<close>

fun heap_iter :: "nat \<Rightarrow> ('a \<Rightarrow> 'a \<Rightarrow> bool) \<Rightarrow> 'a list \<Rightarrow> 'a list" where
  "heap_iter 0 lt heap = []"
| "heap_iter (Suc n) lt heap = (case heappop lt heap of Inl e \<Rightarrow> [] | Inr (x, h) \<Rightarrow> x # heap_iter n lt h)"

subsection \<open>The heap property\<close>

lemma par_less [simp]: "0 < i \<Longrightarrow> par i < i"
  by (simp add: par_def)

lemma par_fix [simp]: "par i = i \<longleftrightarrow> i = 0" "i = par i \<longleftrightarrow> i = 0" "par (par i) = i \<longleftrightarrow> i = 0"
  by (auto simp: par_def)

lemma par_child: "par (2 * i + 1) = i" "par (2 * i + 2) = i"
  by (simp_all add: par_def)

lemma par_cases: "0 < j \<Longrightarrow> par j = i \<Longrightarrow> j = 2 * i + 1 \<or> j = 2 * i + 2"
  by (auto simp: par_def)

text \<open>Every element from the children of \<open>s\<close> on is at least its parent; \<open>below\<close> is the
  subtree of \<open>s\<close>.\<close>

definition heap_from :: "('a \<Rightarrow> 'k::linorder) \<Rightarrow> nat \<Rightarrow> 'a list \<Rightarrow> bool" where
  "heap_from key s h \<longleftrightarrow> (\<forall>j < length h. 0 < j \<and> s \<le> par j \<longrightarrow> key (h ! par j) \<le> key (h ! j))"

inductive below :: "nat \<Rightarrow> nat \<Rightarrow> bool" where
  below_refl: "below s s"
| below_child: "below s (par j) \<Longrightarrow> 0 < j \<Longrightarrow> below s j"

lemma below_ge: "below s j \<Longrightarrow> s \<le> j"
  by (induction rule: below.induct) (auto simp: par_def)

lemma below_par: "below s j \<Longrightarrow> s < j \<Longrightarrow> below s (par j)"
  by (auto elim: below.cases)

text \<open>A heap whose position \<open>pos\<close> is a hole: the pairs that do not touch the hole, and the
  hole's children against the hole's parent.\<close>

definition hole_ok :: "('a \<Rightarrow> 'k::linorder) \<Rightarrow> nat \<Rightarrow> nat \<Rightarrow> 'a list \<Rightarrow> bool" where
  "hole_ok key s pos h \<longleftrightarrow> pos < length h \<and> below s pos \<and>
     (\<forall>j < length h. 0 < j \<and> s \<le> par j \<and> j \<noteq> pos \<and> par j \<noteq> pos \<longrightarrow> key (h ! par j) \<le> key (h ! j)) \<and>
     (\<forall>j < length h. 0 < j \<and> par j = pos \<and> s < pos \<longrightarrow> key (h ! par pos) \<le> key (h ! j))"

lemma hole_okD:
  assumes "hole_ok key s pos h"
  shows "pos < length h" "below s pos" "s \<le> pos"
    "\<And>j. j < length h \<Longrightarrow> 0 < j \<Longrightarrow> s \<le> par j \<Longrightarrow> j \<noteq> pos \<Longrightarrow> par j \<noteq> pos \<Longrightarrow> key (h ! par j) \<le> key (h ! j)"
    "\<And>j. j < length h \<Longrightarrow> 0 < j \<Longrightarrow> par j = pos \<Longrightarrow> s < pos \<Longrightarrow> key (h ! par pos) \<le> key (h ! j)"
  using assms below_ge by (auto simp: hole_ok_def)

lemma siftdown_loop_heap:
  assumes "hole_ok key s pos h" "\<forall>j < length h. 0 < j \<and> par j = pos \<longrightarrow> key x \<le> key (h ! j)"
    and "\<And>a b. lt a b \<longleftrightarrow> key a < key b"
  shows "heap_from key s (siftdown_loop lt x s pos h)"
  using assms(1,2)
proof (induction pos arbitrary: h rule: less_induct)
  case (less pos)
  note H = hole_okD [OF less.prems(1)]
  show ?case
  proof (cases "pos > s \<and> lt x (h ! par pos)")
    case True
    let ?q = "par pos" and ?h = "h[pos := h ! par pos]"
    have pos: "0 < pos" "s < pos" "?q < pos" using True by auto
    have qq: "par ?q < pos" using pos(1) by (simp add: par_def)
    have q: "below s ?q" "s \<le> ?q" using below_par [OF H(2) pos(2)] below_ge by auto
    have x: "key x < key (h ! ?q)" using True assms(3) by simp
    have qle: "key (h ! par ?q) \<le> key (h ! ?q)" if "s < ?q"
      using that H(1) pos below_ge [OF below_par [OF q(1) that]] by (intro H(4)) auto
    have sib: "key (h ! ?q) \<le> key (h ! j)" if "j < length h" "0 < j" "par j = ?q" "j \<noteq> pos" for j
      using H(4) [OF that(1,2)] that pos(3) q(2) by simp
    have root: "par ?q = pos \<Longrightarrow> False" using qq by simp
    have "hole_ok key s ?q ?h"
      unfolding hole_ok_def
    proof (intro conjI allI impI)
      fix j assume j: "j < length ?h" "0 < j \<and> s \<le> par j \<and> j \<noteq> ?q \<and> par j \<noteq> ?q"
      then show "key (?h ! par j) \<le> key (?h ! j)"
        using H(4,5) [of j] H(1) pos by (cases "par j = pos") (auto simp: nth_list_update)
    next
      fix j assume "j < length ?h" "0 < j \<and> par j = ?q \<and> s < ?q"
      then show "key (?h ! par ?q) \<le> key (?h ! j)"
        using qle sib [of j] H(1) pos root by (cases "j = pos") (auto simp: nth_list_update)
    qed (use H(1) pos q in auto)
    moreover have "\<forall>j < length ?h. 0 < j \<and> par j = ?q \<longrightarrow> key x \<le> key (?h ! j)"
    proof (intro allI impI)
      fix j assume "j < length ?h" "0 < j \<and> par j = ?q"
      then show "key x \<le> key (?h ! j)"
        using less_imp_le [OF x] order.trans [OF less_imp_le [OF x] sib, of j] H(1) by (cases "j = pos") auto
    qed
    ultimately have "heap_from key s (siftdown_loop lt x s ?q ?h)" by (rule less.IH [OF pos(3)])
    then show ?thesis using True by (subst siftdown_loop.simps) simp
  next
    case False
    have up: "key (h ! par pos) \<le> key x" if "s \<le> par pos" "0 < pos"
    proof -
      have "s < pos" using that par_less [of pos] by linarith
      then show ?thesis using False assms(3) by (simp add: not_less)
    qed
    have "heap_from key s (h[pos := x])"
      unfolding heap_from_def
    proof (intro allI impI)
      fix j assume j: "j < length (h[pos := x])" "0 < j \<and> s \<le> par j"
      then show "key (h[pos := x] ! par j) \<le> key (h[pos := x] ! j)"
        using H(1) H(4) [of j] up less.prems(2) par_less [of j]
        by (cases "j = pos"; cases "par j = pos") (auto simp: nth_list_update not_less)
    qed
    then show ?thesis using False by (subst siftdown_loop.simps) auto
  qed
qed

lemma length_siftdown_loop [simp]: "length (siftdown_loop lt x s pos h) = length h"
  by (induction lt x s pos h rule: siftdown_loop.induct) (subst siftdown_loop.simps, simp)

lemma mset_siftdown_loop:
  "pos < length h \<Longrightarrow> mset (siftdown_loop lt x s pos h) = mset (h[pos := x])"
proof (induction lt x s pos h rule: siftdown_loop.induct)
  case (1 lt x s pos h)
  show ?case
  proof (cases "pos > s \<and> lt x (h ! par pos)")
    case True
    have p: "par pos < pos" using True by simp
    have "mset (siftdown_loop lt x s pos h) = mset (h[pos := h ! par pos, par pos := x])"
      using 1 True p by (subst siftdown_loop.simps) simp
    also have "\<dots> = mset (h[pos := x])"
      using 1(2) p by (simp add: mset_update nth_list_update in_set_conv_nth multiset_eq_iff)
    finally show ?thesis .
  next
    case False
    then have "siftdown_loop lt x s pos h = h[pos := x]" by (subst siftdown_loop.simps) auto
    then show ?thesis by simp
  qed
qed

lemma smaller_child:
  fixes key :: "'a \<Rightarrow> 'k::linorder"
  assumes "2 * pos + 1 < length h" "\<And>a b. lt a b \<longleftrightarrow> key a < key b"
  shows "smaller_child lt pos h < length h" "par (smaller_child lt pos h) = pos" "pos < smaller_child lt pos h"
    "j < length h \<Longrightarrow> 0 < j \<Longrightarrow> par j = pos \<Longrightarrow> key (h ! smaller_child lt pos h) \<le> key (h ! j)"
  using assms par_child [of pos] par_cases [of j pos] by (auto simp: smaller_child_def Let_def not_less)

lemma siftup_loop_hole:
  fixes key :: "'a \<Rightarrow> 'k::linorder"
  assumes "hole_ok key s pos h" "siftup_loop lt pos h = (p, h')" and lt: "\<And>a b. lt a b \<longleftrightarrow> key a < key b"
  shows "hole_ok key s p h' \<and> length h' = length h \<and> length h \<le> 2 * p + 1 \<and>
    (\<forall>x. mset (h'[p := x]) = mset (h[pos := x]))"
  using assms(1,2)
proof (induction "length h - pos" arbitrary: pos h rule: less_induct)
  case less
  note H = hole_okD [OF less.prems(1)]
  show ?case
  proof (cases "2 * pos + 1 < length h")
    case True
    let ?c = "smaller_child lt pos h" and ?h = "h[pos := h ! smaller_child lt pos h]"
    note C = smaller_child [where lt = lt and key = key, OF True lt]
    have step: "siftup_loop lt ?c ?h = (p, h')"
      using less.prems(2) True by (subst (asm) siftup_loop.simps) (simp add: Let_def)
    have "below s ?c" using H(2) C(2,3) by (auto intro: below_child [of s ?c])
    moreover have "key (?h ! par j) \<le> key (?h ! j)"
      if "j < length h" "0 < j" "s \<le> par j" "j \<noteq> ?c" "par j \<noteq> ?c" for j
    proof (cases "j = pos")
      case True
      then have "s < pos" using that(2,3) par_less [of j] H(3) by linarith
      then show ?thesis using True that C H(1) H(5) [of ?c] par_less [of pos] by (simp add: nth_list_update)
    next
      case False
      then show ?thesis
        using that C(4) [of j] H(1) H(4) [of j] by (cases "par j = pos") (simp_all add: nth_list_update)
    qed
    moreover have "key (?h ! par ?c) \<le> key (?h ! j)" if "j < length h" "0 < j" "par j = ?c" for j
    proof -
      have "pos < j" using that(2,3) C(3) par_less [of j] by linarith
      then show ?thesis using that C H(1,3) H(4) [of j] by (simp add: nth_list_update)
    qed
    ultimately have hole: "hole_ok key s ?c ?h" using C(1) by (auto simp: hole_ok_def)
    have "mset (?h[?c := x]) = mset (h[pos := x])" for x
      using C(1,3) H(1) by (simp add: mset_update nth_list_update in_set_conv_nth multiset_eq_iff)
    then show ?thesis using less.hyps [OF _ hole step] C(1,3) by simp
  next
    case False
    then have "(p, h') = (pos, h)" using less.prems(2) by (subst (asm) siftup_loop.simps) auto
    then show ?thesis using less.prems(1) False by simp
  qed
qed

lemma siftup_heap:
  fixes key :: "'a \<Rightarrow> 'k::linorder"
  assumes "hole_ok key s s h" and lt: "\<And>a b. lt a b \<longleftrightarrow> key a < key b"
  shows "heap_from key s (siftup lt s h)" "mset (siftup lt s h) = mset h"
proof -
  obtain p h' where l: "siftup_loop lt s h = (p, h')" by fastforce
  let ?x = "h ! s"
  note S = siftup_loop_hole [OF assms(1) l lt]
  have p: "p < length h'" using S by (auto simp: hole_ok_def)
  have hole: "hole_ok key s p (h'[p := ?x])" using S by (auto simp: hole_ok_def nth_list_update)
  have u: "siftup lt s h = siftdown_loop lt ?x s p (h'[p := ?x])"
    using p l by (simp add: siftup_def siftdown_def)
  have none: "\<not> (j < length h' \<and> 0 < j \<and> par j = p)" for j using S par_cases [of j p] by auto
  show "heap_from key s (siftup lt s h)"
    unfolding u by (rule siftdown_loop_heap [OF hole _ lt]) (use none in auto)
  show "mset (siftup lt s h) = mset h"
    unfolding u using p S by (simp add: mset_siftdown_loop)
qed

lemma heap_root:
  assumes "heap_from key 0 h" "i < length h"
  shows "key (h ! 0) \<le> key (h ! i)"
  using assms(2)
proof (induction i rule: less_induct)
  case (less i)
  show ?case
  proof (cases "i = 0")
    case False
    then have "key (h ! 0) \<le> key (h ! par i)" using less by (simp add: less_trans [OF par_less])
    also have "\<dots> \<le> key (h ! i)" using assms(1) less.prems False by (simp add: heap_from_def)
    finally show ?thesis .
  qed simp
qed

lemma heappush_heap:
  fixes key :: "'a \<Rightarrow> 'k::linorder"
  assumes "heap_from key 0 h" and lt: "\<And>a b. lt a b \<longleftrightarrow> key a < key b"
  shows "heap_from key 0 (heappush lt x h)" "mset (heappush lt x h) = add_mset x (mset h)"
proof -
  have b: "below 0 i" for i by (induction i rule: less_induct) (metis below.intros par_less not_gr_zero)
  have none: "\<not> (j \<le> length h \<and> 0 < j \<and> par j = length h)" for j using par_less [of j] by linarith
  have "hole_ok key 0 (length h) (h @ [x])"
    using assms(1) b none
    by (auto simp: hole_ok_def heap_from_def nth_append less_Suc_eq dest: less_trans [OF par_less])
  then have "heap_from key 0 (siftdown_loop lt x 0 (length h) (h @ [x]))"
    by (rule siftdown_loop_heap [OF _ _ lt]) (use none in \<open>auto simp: less_Suc_eq_le\<close>)
  then show "heap_from key 0 (heappush lt x h)" by (simp add: heappush_def siftdown_def)
  show "mset (heappush lt x h) = add_mset x (mset h)" by (simp add: heappush_def siftdown_def mset_siftdown_loop)
qed

lemma heappop_heap:
  fixes key :: "'a \<Rightarrow> 'k::linorder"
  assumes "heap_from key 0 h" "h \<noteq> []" and lt: "\<And>a b. lt a b \<longleftrightarrow> key a < key b"
  obtains h' where "heappop lt h = Inr (hd h, h')" "heap_from key 0 h'" "add_mset (hd h) (mset h') = mset h"
proof (cases "butlast h = []")
  case True
  then obtain x where x: "h = [x]" using assms(2) by (cases h) (auto split: if_splits)
  show thesis by (rule that [of "[]"]) (simp_all add: x heappop_def heap_from_def)
next
  case False
  let ?r = "butlast h" and ?h = "(butlast h)[0 := last h]"
  have h: "h = ?r @ [last h]" using assms(2) by simp
  have hd: "hd ?r = hd h" using False h by (metis hd_append2)
  have len: "Suc 0 < length h" using False by (cases h rule: rev_cases) auto
  have "hole_ok key 0 0 ?h"
    using assms(1) False len
    by (auto simp: hole_ok_def heap_from_def nth_butlast nth_list_update below_refl dest: less_trans [OF par_less])
  note U = siftup_heap [OF this lt]
  have "mset ?h = add_mset (last h) (mset ?r) - {#hd ?r#}"
    using False by (cases ?r) (simp_all add: mset_update)
  then have "add_mset (hd h) (mset ?h) = mset (?r @ [last h])" using False hd by (cases ?r) auto
  then show thesis using that [of "siftup lt 0 ?h"] U False assms(2) hd by (simp add: heappop_def Let_def)
qed

lemma heapify_heap:
  fixes key :: "'a \<Rightarrow> 'k::linorder"
  assumes lt: "\<And>a b. lt a b \<longleftrightarrow> key a < key b"
  shows "heap_from key 0 (heapify lt h)" "mset (heapify lt h) = mset h"
proof -
  have "heap_from key 0 (fold (siftup lt) (rev [0..<n]) g) \<and> mset (fold (siftup lt) (rev [0..<n]) g) = mset g"
    if "heap_from key n g" "2 * n \<le> length g" for n g
    using that
  proof (induction n arbitrary: g)
    case (Suc n)
    have "hole_ok key n n g"
      using Suc.prems by (auto simp: hole_ok_def heap_from_def below_refl Suc_le_eq order.order_iff_strict)
    note U = siftup_heap [OF this lt]
    have "length (siftup lt n g) = length g" using U(2) by (metis size_mset)
    then show ?case using Suc.IH [OF U(1)] U(2) Suc.prems(2) by simp
  qed simp
  moreover have "heap_from key (length h div 2) h" by (auto simp: heap_from_def par_def)
  ultimately show "heap_from key 0 (heapify lt h)" "mset (heapify lt h) = mset h" by (auto simp: heapify_def)
qed

text \<open>The elements are kept whatever the comparison.\<close>

lemma siftup_loop_mset:
  assumes "siftup_loop lt pos h = (p, h')" "pos < length h"
  shows "p < length h' \<and> length h' = length h \<and> (\<forall>x. mset (h'[p := x]) = mset (h[pos := x]))"
  using assms
proof (induction "length h - pos" arbitrary: pos h rule: less_induct)
  case less
  show ?case
  proof (cases "2 * pos + 1 < length h")
    case True
    let ?c = "smaller_child lt pos h" and ?h = "h[pos := h ! smaller_child lt pos h]"
    have c: "?c < length h" "pos < ?c" using True by (auto simp: smaller_child_def Let_def)
    have step: "siftup_loop lt ?c ?h = (p, h')"
      using less.prems(1) True by (subst (asm) siftup_loop.simps) (simp add: Let_def)
    have "mset (?h[?c := x]) = mset (h[pos := x])" for x
      using c less.prems(2) by (simp add: mset_update nth_list_update in_set_conv_nth multiset_eq_iff)
    moreover have "p < length h' \<and> length h' = length ?h \<and> (\<forall>x. mset (h'[p := x]) = mset (?h[?c := x]))"
      using c by (intro less.hyps [OF _ step]) simp_all
    ultimately show ?thesis by simp
  next
    case False
    then have "(p, h') = (pos, h)" using less.prems(1) by (subst (asm) siftup_loop.simps) auto
    then show ?thesis using less.prems(2) by simp
  qed
qed

lemma mset_siftup: "s < length h \<Longrightarrow> mset (siftup lt s h) = mset h"
proof -
  assume s: "s < length h"
  obtain p h' where l: "siftup_loop lt s h = (p, h')" by fastforce
  then show ?thesis using siftup_loop_mset [OF l s] by (simp add: siftup_def siftdown_def mset_siftdown_loop)
qed

lemma mset_heappush [simp]: "mset (heappush lt x h) = add_mset x (mset h)"
  by (simp add: heappush_def siftdown_def mset_siftdown_loop)

lemma heappop_mset:
  assumes "heappop lt h = Inr (x, h')"
  shows "h \<noteq> [] \<and> x = hd h \<and> mset h = add_mset x (mset h')"
proof (cases "butlast h = []")
  case True
  then have "length h \<le> 1" by (cases h rule: rev_cases) auto
  then show ?thesis using assms by (cases h) (auto simp: heappop_def)
next
  case False
  then obtain y z ys where h: "h = y # ys @ [z]" by (cases h rule: rev_cases; cases "butlast h") auto
  then show ?thesis using assms mset_siftup [of 0 "z # ys" lt] by (auto simp: heappop_def Let_def)
qed

lemma mset_heapify [simp]: "mset (heapify lt h) = mset h"
proof -
  have "mset (fold (siftup lt) is g) = mset g" if "\<forall>i \<in> set is. i < length g" for "is" g
    using that
  proof (induction "is" arbitrary: g)
    case (Cons i "is")
    then have m: "mset (siftup lt i g) = mset g" by (simp add: mset_siftup)
    then have "length (siftup lt i g) = length g" by (metis size_mset)
    then show ?case using Cons.IH [of "siftup lt i g"] Cons.prems m by simp
  qed simp
  moreover have "\<forall>i \<in> set (rev [0..<length h div 2]). i < length h" by auto
  ultimately show ?thesis unfolding heapify_def by blast
qed

lemma heappop_exists: "h \<noteq> [] \<Longrightarrow> \<exists>x h'. heappop lt h = Inr (x, h')"
  by (simp add: heappop_def Let_def)

text \<open>Draining a heap sorts it.\<close>

lemma heap_iter_sorted:
  fixes key :: "'a \<Rightarrow> 'k::linorder"
  assumes lt: "\<And>a b. lt a b \<longleftrightarrow> key a < key b"
  shows "heap_from key 0 h \<Longrightarrow> length h = n \<Longrightarrow>
    mset (heap_iter n lt h) = mset h \<and> sorted (map key (heap_iter n lt h))"
proof (induction n arbitrary: h)
  case (Suc n)
  then have ne: "h \<noteq> []" by auto
  obtain h' where h': "heappop lt h = Inr (hd h, h')" "heap_from key 0 h'" "add_mset (hd h) (mset h') = mset h"
    by (rule heappop_heap [OF Suc.prems(1) ne lt])
  have "length h' = n" using h'(3) Suc.prems(2) by (metis size_add_mset size_mset Suc_inject)
  note IH = Suc.IH [OF h'(2) this]
  have "key (hd h) \<le> key y" if "y \<in> set h" for y
    using heap_root [OF Suc.prems(1)] that ne by (auto simp: hd_conv_nth in_set_conv_nth)
  moreover have "set (heap_iter n lt h') \<subseteq> set h"
    using IH h'(3) by (metis mset_eq_setD set_mset_mset set_mset_add_mset_insert subset_insertI)
  ultimately show ?case using IH h' by auto
qed simp

end
