(* ===== verification/VL_ReqQueue.thy ===== *)
theory VL_ReqQueue
  imports VL_Request Py_Heapq "HOL-Library.Product_Lexorder"
begin

text \<open>
  The scheduler's request queues (\<open>v1/core/sched/request_queue.py\<close>).  Requests are mutable objects
  shared by the queues, the running list and the request dictionary, so a queue holds object
  addresses and its operations take the store that maps an address to the request; \<open>==\<close>, \<open>in\<close>
  and \<open>remove\<close> compare identities, because \<open>Request\<close> defines no \<open>\<open>__eq__\<close>\<close>.  The FCFS queue is
  a deque, the priority queue a \<open>heapq\<close> under \<open>Request.\<open>__lt__\<close>\<close>.
\<close>

type_synonym store = "nat \<Rightarrow> request"

datatype scheduling_policy = FCFS | PRIORITY

datatype request_queue = FCFSRequestQueue "nat list" | PriorityRequestQueue "nat list"

definition create_request_queue :: "scheduling_policy \<Rightarrow> request_queue" where
  "create_request_queue policy =
     (case policy of PRIORITY \<Rightarrow> PriorityRequestQueue [] | FCFS \<Rightarrow> FCFSRequestQueue [])"

definition ref_lt :: "store \<Rightarrow> nat \<Rightarrow> nat \<Rightarrow> bool" where
  "ref_lt rs a b = request_lt (rs a) (rs b)"

subsection \<open>First come, first served\<close>

definition fcfs_add :: "nat \<Rightarrow> nat list \<Rightarrow> nat list" where
  "fcfs_add r q = q @ [r]"

definition fcfs_pop :: "nat list \<Rightarrow> (nat \<times> nat list) res" where
  "fcfs_pop q = (case q of [] \<Rightarrow> Inl IndexError | r # q' \<Rightarrow> Inr (r, q'))"

definition fcfs_peek :: "nat list \<Rightarrow> nat res" where
  "fcfs_peek q = (case q of [] \<Rightarrow> Inl IndexError | r # q' \<Rightarrow> Inr r)"

definition fcfs_prepend :: "nat \<Rightarrow> nat list \<Rightarrow> nat list" where
  "fcfs_prepend r q = r # q"

text \<open>\<open>extendleft\<close> prepends one by one, so the given requests end up reversed.\<close>

definition fcfs_prepend_requests :: "nat list \<Rightarrow> nat list \<Rightarrow> nat list" where
  "fcfs_prepend_requests rs q = fold Cons rs q"

definition fcfs_remove :: "nat \<Rightarrow> nat list \<Rightarrow> nat list res" where
  "fcfs_remove r q = (if r \<in> set q then Inr (remove1 r q) else Inl ValueError)"

definition fcfs_remove_requests :: "nat list \<Rightarrow> nat list \<Rightarrow> nat list" where
  "fcfs_remove_requests rs q = filter (\<lambda>r. r \<notin> set rs) q"

subsection \<open>Priority\<close>

definition prio_add :: "store \<Rightarrow> nat \<Rightarrow> nat list \<Rightarrow> nat list" where
  "prio_add rs r heap = heappush (ref_lt rs) r heap"

definition prio_pop :: "store \<Rightarrow> nat list \<Rightarrow> (nat \<times> nat list) res" where
  "prio_pop rs heap = (if heap = [] then Inl IndexError else heappop (ref_lt rs) heap)"

definition prio_peek :: "nat list \<Rightarrow> nat res" where
  "prio_peek heap = (case heap of [] \<Rightarrow> Inl IndexError | r # h \<Rightarrow> Inr r)"

definition prio_prepend_requests :: "store \<Rightarrow> nat list \<Rightarrow> nat list \<Rightarrow> nat list" where
  "prio_prepend_requests rs rl heap = fold (prio_add rs) rl heap"

definition prio_remove :: "store \<Rightarrow> nat \<Rightarrow> nat list \<Rightarrow> nat list res" where
  "prio_remove rs r heap =
     (if r \<in> set heap then Inr (heapify (ref_lt rs) (remove1 r heap)) else Inl ValueError)"

definition prio_remove_requests :: "store \<Rightarrow> nat list \<Rightarrow> nat list \<Rightarrow> nat list" where
  "prio_remove_requests rs rl heap = heapify (ref_lt rs) (filter (\<lambda>r. r \<notin> set rl) heap)"

definition prio_iter :: "store \<Rightarrow> nat list \<Rightarrow> nat list" where
  "prio_iter rs heap = heap_iter (length heap) (ref_lt rs) heap"

subsection \<open>Dispatch\<close>

primrec queue_refs :: "request_queue \<Rightarrow> nat list" where
  "queue_refs (FCFSRequestQueue q) = q"
| "queue_refs (PriorityRequestQueue h) = h"

definition queue_len :: "request_queue \<Rightarrow> nat" where
  "queue_len q = length (queue_refs q)"

definition queue_bool :: "request_queue \<Rightarrow> bool" where
  "queue_bool q = (queue_len q > 0)"

primrec queue_iter :: "store \<Rightarrow> request_queue \<Rightarrow> nat list" where
  "queue_iter rs (FCFSRequestQueue q) = q"
| "queue_iter rs (PriorityRequestQueue h) = prio_iter rs h"

primrec queue_add :: "store \<Rightarrow> nat \<Rightarrow> request_queue \<Rightarrow> request_queue" where
  "queue_add rs r (FCFSRequestQueue q) = FCFSRequestQueue (fcfs_add r q)"
| "queue_add rs r (PriorityRequestQueue h) = PriorityRequestQueue (prio_add rs r h)"

primrec queue_pop :: "store \<Rightarrow> request_queue \<Rightarrow> (nat \<times> request_queue) res" where
  "queue_pop rs (FCFSRequestQueue q) = map_sum id (map_prod id FCFSRequestQueue) (fcfs_pop q)"
| "queue_pop rs (PriorityRequestQueue h) = map_sum id (map_prod id PriorityRequestQueue) (prio_pop rs h)"

primrec queue_peek :: "request_queue \<Rightarrow> nat res" where
  "queue_peek (FCFSRequestQueue q) = fcfs_peek q"
| "queue_peek (PriorityRequestQueue h) = prio_peek h"

primrec queue_prepend :: "store \<Rightarrow> nat \<Rightarrow> request_queue \<Rightarrow> request_queue" where
  "queue_prepend rs r (FCFSRequestQueue q) = FCFSRequestQueue (fcfs_prepend r q)"
| "queue_prepend rs r (PriorityRequestQueue h) = PriorityRequestQueue (prio_add rs r h)"

primrec queue_prepend_requests :: "store \<Rightarrow> request_queue \<Rightarrow> request_queue \<Rightarrow> request_queue" where
  "queue_prepend_requests rs p (FCFSRequestQueue q) = FCFSRequestQueue (fcfs_prepend_requests (queue_iter rs p) q)"
| "queue_prepend_requests rs p (PriorityRequestQueue h) =
     PriorityRequestQueue (prio_prepend_requests rs (queue_iter rs p) h)"

primrec queue_remove :: "store \<Rightarrow> nat \<Rightarrow> request_queue \<Rightarrow> request_queue res" where
  "queue_remove rs r (FCFSRequestQueue q) = map_sum id FCFSRequestQueue (fcfs_remove r q)"
| "queue_remove rs r (PriorityRequestQueue h) = map_sum id PriorityRequestQueue (prio_remove rs r h)"

primrec queue_remove_requests :: "store \<Rightarrow> nat list \<Rightarrow> request_queue \<Rightarrow> request_queue" where
  "queue_remove_requests rs rl (FCFSRequestQueue q) = FCFSRequestQueue (fcfs_remove_requests rl q)"
| "queue_remove_requests rs rl (PriorityRequestQueue h) = PriorityRequestQueue (prio_remove_requests rs rl h)"

subsection \<open>The requests in a queue\<close>

text \<open>What the operations do to the multiset of queued objects, whatever their order.\<close>

definition queue_mset :: "request_queue \<Rightarrow> nat multiset" where
  "queue_mset q = mset (queue_refs q)"

lemma queue_mset_create [simp]: "queue_mset (create_request_queue p) = {#}"
  by (simp add: queue_mset_def create_request_queue_def split: scheduling_policy.splits)

lemma queue_mset_add [simp]: "queue_mset (queue_add rs a q) = add_mset a (queue_mset q)"
  by (cases q) (simp_all add: queue_mset_def fcfs_add_def prio_add_def)

lemma queue_mset_prepend [simp]: "queue_mset (queue_prepend rs a q) = add_mset a (queue_mset q)"
  by (cases q) (simp_all add: queue_mset_def fcfs_prepend_def prio_add_def)

lemma queue_pop_mset: "queue_pop rs q = Inr (a, q') \<Longrightarrow> queue_peek q = Inr a \<and> queue_mset q = add_mset a (queue_mset q')"
  by (cases q) (auto simp: queue_mset_def fcfs_pop_def fcfs_peek_def prio_pop_def prio_peek_def map_sum_def
    split: list.splits sum.splits if_splits dest!: heappop_mset)

lemma queue_peek_mset: "queue_peek q = Inr a \<Longrightarrow> a \<in># queue_mset q"
  by (cases q) (auto simp: queue_mset_def fcfs_peek_def prio_peek_def split: list.splits)

lemma mset_fold_add: "mset (fold (prio_add rs) rl h) = mset rl + mset h"
  by (induction rl arbitrary: h) (simp_all add: prio_add_def)

lemma mset_heap_iter: "mset (heap_iter (length h) lt h) = mset h"
proof (induction "length h" arbitrary: h)
  case (Suc n)
  obtain x h' where p: "heappop lt h = Inr (x, h')" using heappop_exists [of h lt] Suc.hyps(2) by force
  have m: "mset h = add_mset x (mset h')" using heappop_mset [OF p] by simp
  then have "length h = Suc (length h')" by (metis size_add_mset size_mset)
  then show ?case using Suc.hyps(1) [of h'] Suc.hyps(2) p m by simp
qed simp

lemma mset_queue_iter [simp]: "mset (queue_iter rs q) = queue_mset q"
  by (cases q) (simp_all add: queue_mset_def prio_iter_def mset_heap_iter)

lemma queue_mset_prepend_requests [simp]:
  "queue_mset (queue_prepend_requests rs p q) = queue_mset p + queue_mset q"
proof -
  have "mset (fold Cons xs ys) = mset xs + mset ys" for xs ys :: "nat list"
    by (induction xs arbitrary: ys) simp_all
  then show ?thesis
    by (cases q) (simp_all add: queue_mset_def [of "FCFSRequestQueue _"] queue_mset_def [of "PriorityRequestQueue _"]
      fcfs_prepend_requests_def prio_prepend_requests_def mset_fold_add)
qed

lemma queue_mset_remove_requests [simp]:
  "queue_mset (queue_remove_requests rs rl q) = filter_mset (\<lambda>a. a \<notin> set rl) (queue_mset q)"
  by (cases q) (simp_all add: queue_mset_def fcfs_remove_requests_def prio_remove_requests_def)

lemma queue_len_mset: "queue_len q = size (queue_mset q)"
  by (simp add: queue_len_def queue_mset_def)

lemma queue_pop_len: "queue_pop rs q = Inr (a, q') \<Longrightarrow> queue_len q = Suc (queue_len q')"
  by (simp add: queue_len_mset queue_pop_mset)

subsection \<open>The order of requests\<close>

type_synonym request_key = "int \<times> int \<times> string \<times> nat"

definition request_key :: "request \<Rightarrow> request_key" where
  "request_key r = (priority r, arrival_time r, request_id r, obj_id r)"

lemma request_lt_key: "request_lt a b \<longleftrightarrow> request_key a < request_key b"
  by (auto simp: request_lt_def request_key_def less_prod_def)

definition ref_key :: "store \<Rightarrow> nat \<Rightarrow> request_key" where
  "ref_key rs a = request_key (rs a)"

lemma ref_lt_key: "ref_lt rs a b \<longleftrightarrow> ref_key rs a < ref_key rs b"
  by (simp add: ref_lt_def ref_key_def request_lt_key)

text \<open>A store is addressed by object identity, so the key tells objects apart.\<close>

definition store_ok :: "store \<Rightarrow> bool" where
  "store_ok rs \<longleftrightarrow> (\<forall>a. obj_id (rs a) = a)"

lemma ref_key_inj: "store_ok rs \<Longrightarrow> inj_on (ref_key rs) A"
  unfolding store_ok_def ref_key_def request_key_def inj_on_def by (metis prod.inject)

definition heap_inv :: "store \<Rightarrow> nat list \<Rightarrow> bool" where
  "heap_inv rs h \<longleftrightarrow> heap_from (ref_key rs) 0 h"

lemma heap_inv_Nil [simp]: "heap_inv rs []"
  by (simp add: heap_inv_def heap_from_def)

lemma sorted_key_unique:
  assumes "store_ok rs" "mset xs = mset ys" "sorted (map (ref_key rs) xs)" "sorted (map (ref_key rs) ys)"
  shows "xs = ys"
proof -
  have "sort (map (ref_key rs) xs) = map (ref_key rs) ys"
    using assms(2,4) by (intro properties_for_sort) simp_all
  then have "map (ref_key rs) xs = map (ref_key rs) ys" using assms(3) by (simp add: sorted_sort_id)
  then show ?thesis using ref_key_inj [OF assms(1), of UNIV] by (simp add: inj_map_eq_map)
qed

lemma prio_iter:
  assumes "heap_inv rs h"
  shows "mset (prio_iter rs h) = mset h" "sorted (map (ref_key rs) (prio_iter rs h))"
  using heap_iter_sorted [where key = "ref_key rs" and lt = "ref_lt rs", OF ref_lt_key] assms
  by (auto simp: prio_iter_def heap_inv_def)

lemma prio_iterI:
  assumes "store_ok rs" "heap_inv rs h" "mset xs = mset h" "sorted (map (ref_key rs) xs)"
  shows "prio_iter rs h = xs"
  by (rule sorted_key_unique [OF assms(1)]) (use prio_iter [OF assms(2)] assms in auto)

lemma prio_add_inv:
  assumes "store_ok rs" "heap_inv rs h"
  shows "heap_inv rs (prio_add rs r h)" "mset (prio_add rs r h) = add_mset r (mset h)"
    "prio_iter rs (prio_add rs r h) = insort_key (ref_key rs) r (prio_iter rs h)"
proof -
  note P = heappush_heap [where key = "ref_key rs" and lt = "ref_lt rs", OF _ ref_lt_key]
  show i: "heap_inv rs (prio_add rs r h)" and m: "mset (prio_add rs r h) = add_mset r (mset h)"
    using P assms(2) by (simp_all add: heap_inv_def prio_add_def)
  show "prio_iter rs (prio_add rs r h) = insort_key (ref_key rs) r (prio_iter rs h)"
    by (rule prio_iterI [OF assms(1) i]) (simp_all add: m prio_iter [OF assms(2)] sorted_insort_key)
qed

lemma prio_pop_inv:
  assumes "store_ok rs" "heap_inv rs h" "h \<noteq> []"
  obtains h' where "prio_pop rs h = Inr (hd h, h')" "heap_inv rs h'" "add_mset (hd h) (mset h') = mset h"
    "prio_iter rs h = hd h # prio_iter rs h'"
proof -
  obtain h' where h': "heappop (ref_lt rs) h = Inr (hd h, h')" "heap_from (ref_key rs) 0 h'"
    "add_mset (hd h) (mset h') = mset h"
    using heappop_heap [where key = "ref_key rs" and lt = "ref_lt rs", OF _ assms(3) ref_lt_key] assms(2)
    unfolding heap_inv_def by blast
  have i: "heap_inv rs h'" using h'(2) by (simp add: heap_inv_def)
  have "length h = Suc (length h')" using h'(3) by (metis size_add_mset size_mset)
  then have "prio_iter rs h = hd h # prio_iter rs h'" using h'(1) by (simp add: prio_iter_def)
  then show thesis using that h' i assms(3) by (simp add: prio_pop_def)
qed

lemma prio_peek_iter:
  assumes "store_ok rs" "heap_inv rs h"
  shows "prio_peek h = (case prio_iter rs h of [] \<Rightarrow> Inl IndexError | r # q' \<Rightarrow> Inr r)"
proof (cases "h = []")
  case False
  obtain h' where "prio_iter rs h = hd h # prio_iter rs h'" by (rule prio_pop_inv [OF assms False])
  then show ?thesis using False by (cases h) (simp_all add: prio_peek_def)
qed (simp add: prio_iter_def prio_peek_def)

lemma heapify_inv: "heap_inv rs (heapify (ref_lt rs) h)" "mset (heapify (ref_lt rs) h) = mset h"
  using heapify_heap [where key = "ref_key rs" and lt = "ref_lt rs", OF ref_lt_key] by (auto simp: heap_inv_def)

lemma prio_remove_requests_inv:
  assumes "store_ok rs" "heap_inv rs h"
  shows "heap_inv rs (prio_remove_requests rs rl h)"
    "prio_iter rs (prio_remove_requests rs rl h) = filter (\<lambda>r. r \<notin> set rl) (prio_iter rs h)"
    "mset (prio_remove_requests rs rl h) = filter_mset (\<lambda>r. r \<notin> set rl) (mset h)"
proof -
  show i: "heap_inv rs (prio_remove_requests rs rl h)" by (simp add: prio_remove_requests_def heapify_inv)
  show m: "mset (prio_remove_requests rs rl h) = filter_mset (\<lambda>r. r \<notin> set rl) (mset h)"
    by (simp add: prio_remove_requests_def heapify_inv)
  show "prio_iter rs (prio_remove_requests rs rl h) = filter (\<lambda>r. r \<notin> set rl) (prio_iter rs h)"
    by (rule prio_iterI [OF assms(1) i]) (simp_all add: m prio_iter [OF assms(2)] sorted_filter)
qed

lemma prio_remove_inv:
  assumes "store_ok rs" "heap_inv rs h" "r \<in> set h"
  obtains h' where "prio_remove rs r h = Inr h'" "heap_inv rs h'" "prio_iter rs h' = remove1 r (prio_iter rs h)"
    "mset h' = mset h - {#r#}"
proof -
  let ?h = "heapify (ref_lt rs) (remove1 r h)"
  have "sorted (map (ref_key rs) (remove1 r (prio_iter rs h)))"
    using prio_iter(2) [OF assms(2)] by (rule sorted_map_remove1)
  then have "prio_iter rs ?h = remove1 r (prio_iter rs h)"
    by (intro prio_iterI [OF assms(1)]) (simp_all add: heapify_inv prio_iter [OF assms(2)])
  then show thesis using that [of ?h] assms(3) by (simp add: prio_remove_def heapify_inv)
qed

subsection \<open>The contract of a queue\<close>

text \<open>What the scheduler relies on: \<open>items\<close> lists the requests in service order.\<close>

locale queue_contract =
  fixes ok :: "'q \<Rightarrow> bool" and items :: "'q \<Rightarrow> nat list"
    and add :: "nat \<Rightarrow> 'q \<Rightarrow> 'q" and pop :: "'q \<Rightarrow> (nat \<times> 'q) res" and peek :: "'q \<Rightarrow> nat res"
    and remove_many :: "nat list \<Rightarrow> 'q \<Rightarrow> 'q"
  assumes pop_items: "ok q \<Longrightarrow> items q = r # rest \<Longrightarrow> \<exists>q'. pop q = Inr (r, q') \<and> ok q' \<and> items q' = rest"
    and pop_empty: "ok q \<Longrightarrow> items q = [] \<Longrightarrow> pop q = Inl IndexError"
    and peek_items: "ok q \<Longrightarrow> peek q = (case items q of [] \<Rightarrow> Inl IndexError | r # rest \<Rightarrow> Inr r)"
    and add_ok: "ok q \<Longrightarrow> ok (add r q)"
    and add_items: "ok q \<Longrightarrow> mset (items (add r q)) = add_mset r (mset (items q))"
    and remove_ok: "ok q \<Longrightarrow> ok (remove_many rl q)"
    and remove_items: "ok q \<Longrightarrow> items (remove_many rl q) = filter (\<lambda>r. r \<notin> set rl) (items q)"
begin

lemma pop_peek: "ok q \<Longrightarrow> map_sum id fst (pop q) = peek q"
  using pop_items [of q] pop_empty [of q] peek_items [of q] by (fastforce split: list.splits)

fun drain :: "nat \<Rightarrow> 'q \<Rightarrow> nat list res" where
  "drain 0 q = Inr []"
| "drain (Suc n) q = rbind (pop q) (\<lambda>(r, q'). map_sum id ((#) r) (drain n q'))"

lemma drain_items: "ok q \<Longrightarrow> length (items q) = n \<Longrightarrow> drain n q = Inr (items q)"
proof (induction n arbitrary: q)
  case (Suc n)
  then obtain r rest where i: "items q = r # rest" by (cases "items q") auto
  then obtain q' where "pop q = Inr (r, q')" "ok q'" "items q' = rest" using pop_items Suc.prems(1) by blast
  then show ?case using Suc.IH [of q'] Suc.prems(2) i by simp
qed simp

lemma pop_after_add: "ok q \<Longrightarrow> \<exists>r' q'. pop (add r q) = Inr (r', q') \<and> ok q' \<and>
    add_mset r' (mset (items q')) = add_mset r (mset (items q))"
proof -
  assume q: "ok q"
  have "items (add r q) \<noteq> []" using add_items [OF q, of r] by auto
  then obtain r' rest where i: "items (add r q) = r' # rest" by (cases "items (add r q)") auto
  show ?thesis using pop_items [OF add_ok [OF q] i] add_items [OF q, of r] i by auto
qed

end

interpretation fcfs: queue_contract "\<lambda>_. True" "\<lambda>q. q" fcfs_add fcfs_pop fcfs_peek fcfs_remove_requests
  by unfold_locales (auto simp: fcfs_pop_def fcfs_peek_def fcfs_add_def fcfs_remove_requests_def)

definition prio_ok :: "store \<Rightarrow> nat list \<Rightarrow> bool" where
  "prio_ok rs h \<longleftrightarrow> store_ok rs \<and> heap_inv rs h"

interpretation prio: queue_contract "prio_ok rs" "prio_iter rs" "prio_add rs" "prio_pop rs" prio_peek "prio_remove_requests rs"
  for rs
proof unfold_locales
  fix q r rest
  assume q: "prio_ok rs q" "prio_iter rs q = r # rest"
  then have ne: "q \<noteq> []" by (auto simp: prio_iter_def)
  obtain h' where "prio_pop rs q = Inr (hd q, h')" "heap_inv rs h'" "prio_iter rs q = hd q # prio_iter rs h'"
    using prio_pop_inv [OF _ _ ne, of rs] q(1) unfolding prio_ok_def by blast
  then show "\<exists>q'. prio_pop rs q = Inr (r, q') \<and> prio_ok rs q' \<and> prio_iter rs q' = rest"
    using q by (auto simp: prio_ok_def)
next
  fix q
  assume q: "prio_ok rs q" "prio_iter rs q = []"
  then have "mset q = {#}" using prio_iter(1) [of rs q] by (simp add: prio_ok_def)
  then show "prio_pop rs q = Inl IndexError" by (simp add: prio_pop_def)
qed (auto simp: prio_ok_def prio_peek_iter prio_add_inv prio_iter prio_remove_requests_inv)

subsection \<open>Both queues against their specification\<close>

text \<open>The operations of the interface, on a queue and on the list of requests in service order.\<close>

datatype queue_op = Add nat | Prepend nat | Pop | Peek | Remove nat | RemoveMany "nat list"

definition ignore :: "'q \<Rightarrow> nat option res \<times> 'q" where
  "ignore q = (Inr None, q)"

fun queue_step :: "store \<Rightarrow> queue_op \<Rightarrow> request_queue \<Rightarrow> nat option res \<times> request_queue" where
  "queue_step rs (Add r) q = ignore (queue_add rs r q)"
| "queue_step rs (Prepend r) q = ignore (queue_prepend rs r q)"
| "queue_step rs Pop q = (case queue_pop rs q of Inl e \<Rightarrow> (Inl e, q) | Inr (r, q') \<Rightarrow> (Inr (Some r), q'))"
| "queue_step rs Peek q = (map_sum id Some (queue_peek q), q)"
| "queue_step rs (Remove r) q = (case queue_remove rs r q of Inl e \<Rightarrow> (Inl e, q) | Inr q' \<Rightarrow> (Inr None, q'))"
| "queue_step rs (RemoveMany rl) q = ignore (queue_remove_requests rs rl q)"

fun list_step :: "store \<Rightarrow> scheduling_policy \<Rightarrow> queue_op \<Rightarrow> nat list \<Rightarrow> nat option res \<times> nat list" where
  "list_step rs FCFS (Add r) xs = ignore (xs @ [r])"
| "list_step rs FCFS (Prepend r) xs = ignore (r # xs)"
| "list_step rs PRIORITY (Add r) xs = ignore (insort_key (ref_key rs) r xs)"
| "list_step rs PRIORITY (Prepend r) xs = ignore (insort_key (ref_key rs) r xs)"
| "list_step rs policy Pop xs = (case xs of [] \<Rightarrow> (Inl IndexError, []) | r # ys \<Rightarrow> (Inr (Some r), ys))"
| "list_step rs policy Peek xs = (case xs of [] \<Rightarrow> Inl IndexError | r # ys \<Rightarrow> Inr (Some r), xs)"
| "list_step rs policy (Remove r) xs = (if r \<in> set xs then (Inr None, remove1 r xs) else (Inl ValueError, xs))"
| "list_step rs policy (RemoveMany rl) xs = ignore (filter (\<lambda>r. r \<notin> set rl) xs)"

fun run :: "('op \<Rightarrow> 'q \<Rightarrow> 'out \<times> 'q) \<Rightarrow> 'op list \<Rightarrow> 'q \<Rightarrow> 'out list \<times> 'q" where
  "run step [] q = ([], q)"
| "run step (x # xs) q = (let (out, q') = step x q; (outs, q'') = run step xs q' in (out # outs, q''))"

lemma run_simulation:
  assumes "\<And>x q ys. R q ys \<Longrightarrow> fst (f x q) = fst (g x ys) \<and> R (snd (f x q)) (snd (g x ys))" "R q ys"
  shows "fst (run f xs q) = fst (run g xs ys) \<and> R (snd (run f xs q)) (snd (run g xs ys))"
  using assms(2)
proof (induction xs arbitrary: q ys)
  case (Cons x xs)
  show ?case using Cons.IH [of "snd (f x q)" "snd (g x ys)"] assms(1) [OF Cons.prems, of x]
    by (simp add: case_prod_unfold Let_def)
qed simp

definition queue_rep :: "store \<Rightarrow> scheduling_policy \<Rightarrow> request_queue \<Rightarrow> nat list \<Rightarrow> bool" where
  "queue_rep rs policy q xs \<longleftrightarrow> (case q of
     FCFSRequestQueue ys \<Rightarrow> policy = FCFS \<and> xs = ys
   | PriorityRequestQueue h \<Rightarrow> policy = PRIORITY \<and> prio_ok rs h \<and> xs = prio_iter rs h)"

lemma queue_step_simulates:
  assumes "queue_rep rs policy q xs"
  shows "fst (queue_step rs x q) = fst (list_step rs policy x xs) \<and>
    queue_rep rs policy (snd (queue_step rs x q)) (snd (list_step rs policy x xs))"
proof (cases q)
  case (FCFSRequestQueue ys)
  then show ?thesis using assms
    by (cases x) (auto simp: queue_rep_def ignore_def fcfs_add_def fcfs_prepend_def fcfs_pop_def fcfs_peek_def
      fcfs_remove_def fcfs_remove_requests_def split: list.splits)
next
  case (PriorityRequestQueue h)
  then have h: "store_ok rs" "heap_inv rs h" "policy = PRIORITY" "xs = prio_iter rs h"
    using assms by (simp_all add: queue_rep_def prio_ok_def)
  have set: "set (prio_iter rs h) = set h" using prio_iter(1) [OF h(2)] by (metis set_mset_mset)
  have pop: "(h = [] \<longrightarrow> prio_pop rs h = Inl IndexError \<and> prio_iter rs h = []) \<and> (h \<noteq> [] \<longrightarrow> (\<exists>h'. prio_pop rs h = Inr (hd h, h') \<and>
      heap_inv rs h' \<and> prio_iter rs h = hd h # prio_iter rs h'))"
    using prio_pop_inv [OF h(1,2)] by (metis list.size(3) prio_iter_def prio_pop_def heap_iter.simps(1))
  have rem: "(r \<notin> set h \<longrightarrow> prio_remove rs r h = Inl ValueError) \<and> (r \<in> set h \<longrightarrow> (\<exists>h'. prio_remove rs r h = Inr h' \<and>
      heap_inv rs h' \<and> prio_iter rs h' = remove1 r (prio_iter rs h)))" for r
    using prio_remove_inv [OF h(1,2), of r] by (metis prio_remove_def)
  show ?thesis
  proof (cases x)
    case (Remove r)
    then show ?thesis using rem [of r] set PriorityRequestQueue h
      by (cases "r \<in> set h") (auto simp: queue_rep_def prio_ok_def)
  next
    case Pop
    then show ?thesis using pop PriorityRequestQueue h by (cases "h = []") (auto simp: queue_rep_def prio_ok_def)
  next
    case Peek
    then show ?thesis using PriorityRequestQueue h
      by (auto simp: queue_rep_def prio_ok_def prio_peek_iter split: list.splits)
  qed (use PriorityRequestQueue h in \<open>auto simp: queue_rep_def prio_ok_def ignore_def prio_add_inv prio_remove_requests_inv\<close>)
qed


definition two_requests :: store where
  "two_requests a = (plain_request (if a = 0 then ''a'' else ''b'') [1])\<lparr>obj_id := a, priority := (if a = 0 then 1 else 0)\<rparr>"

lemma two_requests_ok: "store_ok two_requests"
  by (simp add: store_ok_def two_requests_def)


end
