(* ===== verification/VL_SchedState.thy ===== *)
theory VL_SchedState
  imports VL_Coordinator VL_Encoder VL_ReqQueue
begin

text \<open>
  State of the scheduler (\<open>v1/core/sched/scheduler.py\<close>) and the helper methods of its two main
  operations.  The static configuration is a record; what the scheduler asks of other parts at a
  step (the block hasher, the digest, a KV connector, the encoder-cache connector, grammars of
  structured outputs) is an environment record passed to every operation, so that its answers
  may differ from call to call.  Token counts that may be negative are integers.  Logging, events
  and metrics are left out, as is the routed-experts bookkeeping.
\<close>

subsection \<open>Configuration and environment\<close>

record sched_config =
  policy :: scheduling_policy
  max_num_running_reqs :: nat
  max_num_scheduled_tokens :: int
  max_model_len :: nat
  long_prefill_token_threshold :: int
  enable_chunked_prefill :: bool
  disable_chunked_mm_input :: bool
  is_encoder_decoder :: bool
  max_num_encoder_input_tokens :: int
  num_spec_tokens :: nat
  num_lookahead_tokens :: nat
  use_eagle :: bool
  reserve_full_isl :: bool
  max_loras :: "nat option"
  need_mamba_block_aligned_split :: bool
  cfg_block_size :: nat
  sched_block_size :: nat
  needs_kv_cache_zeroing :: bool
  use_pp :: bool
  async_scheduling :: bool
  use_v2_model_runner :: bool
  recompute_kv_load_failures :: bool

record kv_connector =
  get_num_new_matched_tokens :: "request \<Rightarrow> nat \<Rightarrow> nat option \<times> bool"
  supports_hma :: bool
  request_finished :: "request \<Rightarrow> nat list \<Rightarrow> bool"
  request_finished_all_groups :: "request \<Rightarrow> nat list list \<Rightarrow> bool"

record sched_env =
  env_hasher :: "request \<Rightarrow> bytes list res"
  env_sha256 :: "bytes \<Rightarrow> bytes"
  env_connector :: "kv_connector option"
  env_ec_has_cache_item :: "(string \<Rightarrow> bool) option"
  grammar_ready :: "request \<Rightarrow> bool"
  should_advance :: "request \<Rightarrow> bool"
  accept_tokens :: "string \<Rightarrow> nat list \<Rightarrow> bool"
  validate_tokens :: "string \<Rightarrow> int list \<Rightarrow> int list"

datatype pause_state = UNPAUSED | PAUSED_NEW | PAUSED_ALL

datatype encoder_manager = EncoderCacheManager encoder_cache | EncoderDecoderCacheManager encdec_cache

record scheduler =
  cfg :: sched_config
  objs :: store
  requests :: "(string \<times> nat) list"
  waiting :: request_queue
  skipped_waiting :: request_queue
  running :: "nat list"
  finished_req_ids :: "string set"
  finished_req_ids_dict :: "(nat \<Rightarrow> string set) option"
  num_waiting_for_streaming_input :: int
  finished_recving_kv_req_ids :: "string set"
  failed_recving_kv_req_ids :: "string set"
  prev_step_scheduled_req_ids :: "string set"
  kv :: kv_cache_manager
  encoder_mgr :: encoder_manager
  sched_pause_state :: pause_state

text \<open>A scheduler without requests, on a given KV cache manager and encoder cache size.\<close>

definition scheduler_init :: "sched_config \<Rightarrow> store \<Rightarrow> kv_cache_manager \<Rightarrow> int \<Rightarrow> bool \<Rightarrow> scheduler" where
  "scheduler_init c rs k enc_size include_finished_set =
     \<lparr>cfg = c, objs = rs, requests = [], waiting = create_request_queue (policy c),
      skipped_waiting = create_request_queue (policy c), running = [], finished_req_ids = {},
      finished_req_ids_dict = (if include_finished_set then Some (\<lambda>_. {}) else None),
      num_waiting_for_streaming_input = 0, finished_recving_kv_req_ids = {}, failed_recving_kv_req_ids = {},
      prev_step_scheduled_req_ids = {}, kv = k,
      encoder_mgr = (if is_encoder_decoder c then EncoderDecoderCacheManager (encdec_init enc_size)
                     else EncoderCacheManager (encoder_cache_init enc_size)),
      sched_pause_state = UNPAUSED\<rparr>"

definition upd_req :: "nat \<Rightarrow> (request \<Rightarrow> request) \<Rightarrow> scheduler \<Rightarrow> scheduler" where
  "upd_req a f s = s\<lparr>objs := (objs s)(a := f (objs s a))\<rparr>"

subsection \<open>The encoder cache of either kind\<close>

fun enc_check_and_update_cache :: "request \<Rightarrow> nat \<Rightarrow> encoder_manager \<Rightarrow> (bool \<times> encoder_manager) res" where
  "enc_check_and_update_cache r i (EncoderCacheManager c) =
     map_sum id (map_prod id EncoderCacheManager) (check_and_update_cache r i c)"
| "enc_check_and_update_cache r i (EncoderDecoderCacheManager c) = Inr (False, EncoderDecoderCacheManager c)"

fun enc_can_allocate :: "request \<Rightarrow> nat \<Rightarrow> int \<Rightarrow> int \<Rightarrow> encoder_manager \<Rightarrow> (bool \<times> encoder_manager) res" where
  "enc_can_allocate r i b n (EncoderCacheManager c) = map_sum id (map_prod id EncoderCacheManager) (can_allocate r i b n c)"
| "enc_can_allocate r i b n (EncoderDecoderCacheManager c) =
     map_sum id (\<lambda>ok. (ok, EncoderDecoderCacheManager c)) (encdec_can_allocate r i b n c)"

fun enc_allocate :: "request \<Rightarrow> nat \<Rightarrow> encoder_manager \<Rightarrow> encoder_manager res" where
  "enc_allocate r i (EncoderCacheManager c) = map_sum id EncoderCacheManager (allocate_encoder r i c)"
| "enc_allocate r i (EncoderDecoderCacheManager c) = map_sum id EncoderDecoderCacheManager (encdec_allocate r i c)"

fun enc_free :: "request \<Rightarrow> encoder_manager \<Rightarrow> encoder_manager res" where
  "enc_free r (EncoderCacheManager c) = map_sum id EncoderCacheManager (free_encoder r c)"
| "enc_free r (EncoderDecoderCacheManager c) = map_sum id EncoderDecoderCacheManager (encdec_free r c)"

fun enc_get_freed_mm_hashes :: "encoder_manager \<Rightarrow> string list \<times> encoder_manager" where
  "enc_get_freed_mm_hashes (EncoderCacheManager c) = map_prod id EncoderCacheManager (get_freed_mm_hashes c)"
| "enc_get_freed_mm_hashes (EncoderDecoderCacheManager c) =
     map_prod id EncoderDecoderCacheManager (encdec_get_freed_mm_hashes c)"

fun enc_reset :: "encoder_manager \<Rightarrow> encoder_manager" where
  "enc_reset (EncoderCacheManager c) = EncoderCacheManager (encoder_reset c)"
| "enc_reset (EncoderDecoderCacheManager c) = EncoderDecoderCacheManager (encdec_reset c)"

text \<open>\<open>_free_encoder_inputs\<close>, which runs after each executed step.\<close>

fun free_encoder_inputs :: "request \<Rightarrow> encoder_manager \<Rightarrow> encoder_manager res" where
  "free_encoder_inputs r (EncoderCacheManager c) = map_sum id EncoderCacheManager (scheduler_free_encoder_inputs r c)"
| "free_encoder_inputs r (EncoderDecoderCacheManager c) =
     map_sum id EncoderDecoderCacheManager (encdec_free_encoder_inputs r c)"

fun enc_allocate_all :: "request \<Rightarrow> nat list \<Rightarrow> encoder_manager \<Rightarrow> encoder_manager res" where
  "enc_allocate_all r [] m = Inr m"
| "enc_allocate_all r (i # is) m = rbind (enc_allocate r i m) (enc_allocate_all r is)"

subsection \<open>Scheduling encoder inputs\<close>

definition has_encoder_inputs :: "request \<Rightarrow> bool" where
  "has_encoder_inputs r \<longleftrightarrow> mm_features r \<noteq> []"

definition embeds_at :: "nat list \<Rightarrow> int \<Rightarrow> nat res" where
  "embeds_at cs i = (if i \<le> 0 then Inr 0
     else if i - 1 < int (length cs) then Inr (cs ! nat (i - 1)) else Inl IndexError)"

definition get_embeds_indices_in_range :: "mm_feature \<Rightarrow> int \<Rightarrow> int \<Rightarrow> (int \<times> int) res" where
  "get_embeds_indices_in_range f start_idx end_idx =
     (case embeds_cumsum f of
        None \<Rightarrow> Inr (start_idx, end_idx)
      | Some cs \<Rightarrow> rbind (embeds_at cs start_idx) (\<lambda>a. rbind (embeds_at cs end_idx) (\<lambda>b. Inr (int a, int b))))"

text \<open>What the loop over the inputs carries: the inputs to schedule, the number of new tokens, the
  compute budget, the inputs loaded by the encoder-cache connector, the identifiers and the
  number of embeddings scheduled so far.\<close>

record enc_plan =
  plan_inputs :: "nat list"
  plan_tokens :: int
  plan_budget :: int
  plan_external :: "nat list"
  plan_hashes :: "string set"
  plan_embeds :: int

fun encoder_loop ::
  "sched_config \<Rightarrow> sched_env \<Rightarrow> request \<Rightarrow> int \<Rightarrow> int \<Rightarrow> nat list \<Rightarrow> enc_plan \<Rightarrow> encoder_manager \<Rightarrow>
     (enc_plan \<times> encoder_manager) res" where
  "encoder_loop c env r ncomp shift [] t m = Inr (t, m)"
| "encoder_loop c env r ncomp shift (i # is) t m =
     (let f = mm_features r ! i;
          start_pos = int (mm_offset f);
          len = int (mm_length f);
          embeds = int (get_num_embeds f);
          ident = mm_identifier f;
          skip = (\<lambda>m'. encoder_loop c env r ncomp shift is t m')
      in if start_pos \<ge> ncomp + plan_tokens t + shift then Inr (t, m)
         else if is_encoder_decoder c \<and> ncomp > 0
         then (if start_pos = 0 then skip m else Inl AssertionError)
         else if start_pos + len \<le> ncomp then skip m
         else if \<not> is_encoder_decoder c \<and> ident \<in> plan_hashes t then skip m
         else rbind (if is_encoder_decoder c then Inr (False, m) else enc_check_and_update_cache r i m) (\<lambda>(hit, m1).
           if hit then skip m1
           else if disable_chunked_mm_input c \<and> ncomp < start_pos \<and> ncomp + plan_tokens t < start_pos + len
           then Inr (t\<lparr>plan_tokens := max 0 (start_pos - (ncomp + shift))\<rparr>, m1)
           else rbind (enc_can_allocate r i (plan_budget t) (plan_embeds t) m1) (\<lambda>(ok, m2).
             if \<not> ok
             then Inr (t\<lparr>plan_tokens := (if ncomp + shift < start_pos then start_pos - (ncomp + shift) else 0)\<rparr>, m2)
             else rbind (get_embeds_indices_in_range f (max 0 (ncomp - start_pos))
                           (min len (ncomp + plan_tokens t - start_pos))) (\<lambda>(embeds_start, embeds_end).
               if embeds_end - embeds_start = 0 then skip m2
               else let t1 = t\<lparr>plan_hashes := insert ident (plan_hashes t), plan_embeds := plan_embeds t + embeds\<rparr>
                    in if (case env_ec_has_cache_item env of None \<Rightarrow> False | Some has_item \<Rightarrow> has_item ident)
                       then encoder_loop c env r ncomp shift is (t1\<lparr>plan_external := plan_external t @ [i]\<rparr>) m2
                       else encoder_loop c env r ncomp shift is
                              (t1\<lparr>plan_budget := plan_budget t - embeds, plan_inputs := plan_inputs t @ [i]\<rparr>) m2))))"

definition try_schedule_encoder_inputs ::
  "sched_config \<Rightarrow> sched_env \<Rightarrow> request \<Rightarrow> int \<Rightarrow> int \<Rightarrow> int \<Rightarrow> encoder_manager \<Rightarrow> (enc_plan \<times> encoder_manager) res" where
  "try_schedule_encoder_inputs c env r ncomp n budget m =
     (let t = \<lparr>plan_inputs = [], plan_tokens = n, plan_budget = budget, plan_external = [], plan_hashes = {},
               plan_embeds = 0\<rparr>
      in if n = 0 \<or> \<not> has_encoder_inputs r then Inr (t, m)
         else encoder_loop c env r ncomp (if use_eagle c then 1 else 0) [0..<length (mm_features r)] t m)"

subsection \<open>Mamba: chunks that end on a block boundary\<close>

definition mamba_block_aligned_split :: "sched_config \<Rightarrow> request \<Rightarrow> int \<Rightarrow> nat \<Rightarrow> nat \<Rightarrow> int res" where
  "mamba_block_aligned_split c r n n_local n_external =
     (if n_external \<noteq> 0 then Inl AssertionError
      else let ncomp = int (num_computed_tokens r + n_local + n_external);
               bs = int (cfg_block_size c);
               ntok = int (num_tokens r);
               last0 = ntok - ntok mod bs;
               last_pos = (if use_eagle c then max (last0 - bs) 0 else last0);
               after_sched = ncomp + n
           in Inr (if ncomp < max (int (num_prompt_tokens r)) (ntok - 1) then
                     (if after_sched < last_pos then n div bs * bs
                      else if ncomp < last_pos \<and> last_pos < after_sched then last_pos - ncomp
                      else n)
                   else n))"

end
