(* ===== verification/VL_Schedule.thy ===== *)
theory VL_Schedule
  imports VL_SchedState
begin

text \<open>
  \<open>Scheduler.schedule\<close>: first the running requests in order, preempting others when the pool is
  short of blocks, then the waiting ones.  The local variables of the method are a record; the
  bodies of its two loops are definitions of their own.  \<open>PAUSED_ALL\<close> gives an empty budget.
\<close>

subsection \<open>Local variables\<close>

record sched_step =
  token_budget :: int
  encoder_budget :: int
  scheduled_running_reqs :: "nat list"
  scheduled_new_reqs :: "nat list"
  scheduled_resumed_reqs :: "nat list"
  preempted_reqs :: "nat list"
  req_to_new_blocks :: "(string \<times> nat list list) list"
  num_scheduled_tokens :: "(string \<times> int) list"
  scheduled_spec_decode_tokens :: "(string \<times> int list) list"
  scheduled_encoder_inputs :: "(string \<times> nat list) list"
  scheduled_loras :: "nat set"
  step_skipped_waiting :: request_queue

definition sched_step_init :: "scheduler \<Rightarrow> sched_step" where
  "sched_step_init s =
     \<lparr>token_budget = (if sched_pause_state s = PAUSED_ALL then 0 else max_num_scheduled_tokens (cfg s)),
      encoder_budget = max_num_encoder_input_tokens (cfg s), scheduled_running_reqs = [], scheduled_new_reqs = [],
      scheduled_resumed_reqs = [], preempted_reqs = [], req_to_new_blocks = [], num_scheduled_tokens = [],
      scheduled_spec_decode_tokens = [], scheduled_encoder_inputs = [], scheduled_loras = {},
      step_skipped_waiting = create_request_queue (policy (cfg s))\<rparr>"

subsection \<open>Preemption\<close>

definition preempt_request :: "nat \<Rightarrow> scheduler \<Rightarrow> scheduler res" where
  "preempt_request a s =
     (let r = objs s a in
      rbind (guard_err (status r = RUNNING) AssertionError) (\<lambda>_.
      rbind (kv_free r (kv s)) (\<lambda>k.
      rbind (enc_free r (encoder_mgr s)) (\<lambda>m.
        let s1 = upd_req a (\<lambda>r. r\<lparr>status := PREEMPTED, num_computed_tokens := 0, spec_token_ids := [],
                   num_preemptions := num_preemptions r + 1\<rparr>) (s\<lparr>kv := k, encoder_mgr := m\<rparr>)
        in Inr (s1\<lparr>waiting := queue_prepend (objs s1) a (waiting s1)\<rparr>)))))"

text \<open>Python's \<open>max\<close> with a key returns the first maximal element.\<close>

fun max_by :: "('a \<Rightarrow> 'k::linorder) \<Rightarrow> 'a \<Rightarrow> 'a list \<Rightarrow> 'a" where
  "max_by key best [] = best"
| "max_by key best (x # xs) = max_by key (if key best < key x then x else best) xs"

definition victim_key :: "request \<Rightarrow> int \<times> int" where
  "victim_key r = (priority r, arrival_time r)"

fun sum_encoder_embeds :: "request \<Rightarrow> nat list \<Rightarrow> int res" where
  "sum_encoder_embeds r [] = Inr 0"
| "sum_encoder_embeds r (i # is) =
     rbind (get_num_encoder_embeds r i) (\<lambda>n. rbind (sum_encoder_embeds r is) (\<lambda>m. Inr (int n + m)))"

text \<open>Undoing the scheduling of a preempted request.\<close>

definition unschedule :: "request \<Rightarrow> nat \<Rightarrow> sched_step \<Rightarrow> sched_step res" where
  "unschedule r v t =
     (let rid = request_id r in
      case (map_of (num_scheduled_tokens t) rid, map_of (req_to_new_blocks t) rid) of
        (Some n, Some _) \<Rightarrow>
          rbind (case map_of (scheduled_encoder_inputs t) rid of None \<Rightarrow> Inr 0 | Some is \<Rightarrow> sum_encoder_embeds r is) (\<lambda>e.
          Inr (t\<lparr>scheduled_running_reqs := remove1 v (scheduled_running_reqs t),
                 token_budget := token_budget t + n,
                 num_scheduled_tokens := AList.delete rid (num_scheduled_tokens t),
                 req_to_new_blocks := AList.delete rid (req_to_new_blocks t),
                 scheduled_spec_decode_tokens := AList.delete rid (scheduled_spec_decode_tokens t),
                 scheduled_encoder_inputs := AList.delete rid (scheduled_encoder_inputs t),
                 encoder_budget := encoder_budget t + e\<rparr>))
      | _ \<Rightarrow> Inl KeyError)"

definition pick_victim :: "scheduler \<Rightarrow> sched_step \<Rightarrow> int \<Rightarrow> (nat \<times> scheduler \<times> sched_step \<times> int) res" where
  "pick_victim s t req_index =
     (case policy (cfg s) of
        PRIORITY \<Rightarrow>
          (case running s of
             [] \<Rightarrow> Inl ValueError
           | x # xs \<Rightarrow>
               let v = max_by (\<lambda>a. victim_key (objs s a)) x xs;
                   s1 = s\<lparr>running := remove1 v (running s)\<rparr>
               in if v \<in> set (scheduled_running_reqs t)
                  then rbind (unschedule (objs s v) v t) (\<lambda>t1. Inr (v, s1, t1, req_index - 1))
                  else Inr (v, s1, t, req_index))
      | FCFS \<Rightarrow>
          if running s = [] then Inl IndexError
          else Inr (last (running s), s\<lparr>running := butlast (running s)\<rparr>, t, req_index))"

lemma max_by_in: "max_by key best xs \<in> set (best # xs)"
  by (induction key best xs rule: max_by.induct) auto

lemma pick_victim_running:
  assumes "pick_victim s t idx = Inr (v, s', t', idx')"
  shows "v \<in> set (running s)" "length (running s) = Suc (length (running s'))"
    "idx' = idx \<or> idx' = idx - 1" "cfg s' = cfg s" "objs s' = objs s"
proof -
  have "v \<in> set (running s) \<and> length (running s) = Suc (length (running s')) \<and>
    (idx' = idx \<or> idx' = idx - 1) \<and> cfg s' = cfg s \<and> objs s' = objs s"
  proof (cases "policy (cfg s)")
    case FCFS
    then show ?thesis using assms by (auto simp: pick_victim_def split: if_splits)
  next
    case PRIORITY
    show ?thesis
    proof (cases "running s")
      case Nil
      then show ?thesis using assms PRIORITY by (simp add: pick_victim_def)
    next
      case (Cons x xs)
      let ?v = "max_by (\<lambda>a. victim_key (objs s a)) x xs"
      have v: "?v \<in> set (running s)" using max_by_in Cons by simp
      have "v = ?v \<and> running s' = remove1 ?v (running s) \<and> (idx' = idx \<or> idx' = idx - 1) \<and> cfg s' = cfg s \<and> objs s' = objs s"
        using assms PRIORITY Cons by (auto simp: pick_victim_def Let_def res_simps split: if_splits)
      then show ?thesis using v length_pos_if_in_set [OF v] by (simp add: length_remove1)
    qed
  qed
  then show "v \<in> set (running s)" "length (running s) = Suc (length (running s'))"
    "idx' = idx \<or> idx' = idx - 1" "cfg s' = cfg s" "objs s' = objs s"
    by simp_all
qed

lemma preempt_request_running [simp]:
  "preempt_request a s = Inr s' \<Longrightarrow> running s' = running s \<and> cfg s' = cfg s"
  by (auto simp: preempt_request_def Let_def res_simps upd_req_def split: if_splits)

text \<open>The inner loop: allocate, and preempt a request whenever the pool is short.\<close>

function alloc_or_preempt ::
  "sched_env \<Rightarrow> nat \<Rightarrow> int \<Rightarrow> scheduler \<Rightarrow> sched_step \<Rightarrow> int \<Rightarrow>
     (nat list list option \<times> scheduler \<times> sched_step \<times> int) res" where
  "alloc_or_preempt env a n s t req_index =
     rbind (allocate_slots (env_sha256 env) (objs s a) (nat n) 0 None (num_lookahead_tokens (cfg s)) 0 False 0 False (kv s))
       (\<lambda>(new, k).
          let s1 = s\<lparr>kv := k\<rparr>
          in case new of
               Some bs \<Rightarrow> Inr (Some bs, s1, t, req_index)
             | None \<Rightarrow>
                 rbind (pick_victim s1 t req_index) (\<lambda>(v, s2, t2, req_index2).
                 rbind (preempt_request v s2) (\<lambda>s3.
                   let t3 = t2\<lparr>preempted_reqs := preempted_reqs t2 @ [v]\<rparr>
                   in if v = a then Inr (None, s3, t3, req_index2)
                      else alloc_or_preempt env a n s3 t3 req_index2)))"
  by pat_completeness auto
termination
proof (relation "measure (\<lambda>(env, a, n, s, t, i). length (running s))", goal_cases)
  case (2 env a n s t i x bs k s1 y v z s2 w t2 i2 s3 t3)
  then show ?case using pick_victim_running(2) [of s1 t i v s2 t2 i2] preempt_request_running [of v s2 s3]
    by auto
qed simp

declare alloc_or_preempt.simps [simp del]


lemma alloc_or_preempt_running:
  assumes "alloc_or_preempt env a n s t idx = Inr (new, s', t', idx')"
  shows "int (length (running s')) - idx' \<le> int (length (running s)) - idx" "cfg s' = cfg s"
proof -
  have "alloc_or_preempt env a n s t idx = Inr (new, s', t', idx') \<Longrightarrow>
    int (length (running s')) - idx' \<le> int (length (running s)) - idx \<and> cfg s' = cfg s"
  proof (induction env a n s t idx rule: alloc_or_preempt.induct)
    case (1 env a n s t idx)
    obtain x k where al: "allocate_slots (env_sha256 env) (objs s a) (nat n) 0 None (num_lookahead_tokens (cfg s)) 0 False 0 False (kv s) = Inr (x, k)"
      using 1(2) by (subst (asm) alloc_or_preempt.simps) (auto simp: res_simps)
    show ?case
    proof (cases x)
      case Some
      then show ?thesis using 1(2) al by (subst (asm) alloc_or_preempt.simps) (auto simp: Let_def)
    next
      case None
      let ?s1 = "s\<lparr>kv := k\<rparr>"
      obtain v s2 t2 i2 s3 where p: "pick_victim ?s1 t idx = Inr (v, s2, t2, i2)" "preempt_request v s2 = Inr s3"
        and r: "(if v = a then Inr (None, s3, t2\<lparr>preempted_reqs := preempted_reqs t2 @ [v]\<rparr>, i2)
          else alloc_or_preempt env a n s3 (t2\<lparr>preempted_reqs := preempted_reqs t2 @ [v]\<rparr>) i2) = Inr (new, s', t', idx')"
        using 1(2) al None by (subst (asm) alloc_or_preempt.simps) (auto simp: Let_def res_simps)
      note P = pick_victim_running [OF p(1)] preempt_request_running [OF p(2)]
      show ?thesis
      proof (cases "v = a")
        case True
        then show ?thesis using r P by auto
      next
        case False
        then have "int (length (running s')) - idx' \<le> int (length (running s3)) - i2 \<and> cfg s' = cfg s3"
          using 1(1) [OF al refl refl None p(1) refl refl refl p(2) refl False] r False by simp
        then show ?thesis using P by auto
      qed
    qed
  qed
  then show "int (length (running s')) - idx' \<le> int (length (running s)) - idx" "cfg s' = cfg s"
    using assms by auto
qed

subsection \<open>Running requests\<close>

definition list_index :: "'a list \<Rightarrow> int \<Rightarrow> 'a" where
  "list_index xs i = (if 0 \<le> i then xs ! nat i else xs ! nat (int (length xs) + i))"

definition output_limit_reached :: "request \<Rightarrow> bool" where
  "output_limit_reached r \<longleftrightarrow> num_output_placeholders r > 0 \<and>
     int (num_computed_tokens r) + 2 - int (num_output_placeholders r) \<ge> int (num_prompt_tokens r + max_tokens r)"

definition long_prefill_cap :: "sched_config \<Rightarrow> int \<Rightarrow> int" where
  "long_prefill_cap c n =
     (if 0 < long_prefill_token_threshold c \<and> long_prefill_token_threshold c < n
      then long_prefill_token_threshold c else n)"

definition running_num_new_tokens :: "sched_config \<Rightarrow> request \<Rightarrow> int \<Rightarrow> int" where
  "running_num_new_tokens c r budget =
     min (min (long_prefill_cap c
                 (int (num_tokens_with_spec r + num_output_placeholders r) - int (num_computed_tokens r))) budget)
         (int (max_model_len c) - 1 - int (num_computed_tokens r))"

definition plan_running ::
  "sched_env \<Rightarrow> nat \<Rightarrow> scheduler \<Rightarrow> sched_step \<Rightarrow> (int \<times> enc_plan \<times> scheduler) res" where
  "plan_running env a s t =
     (let r = objs s a in
      rbind (try_schedule_encoder_inputs (cfg s) env r (int (num_computed_tokens r))
               (running_num_new_tokens (cfg s) r (token_budget t)) (encoder_budget t) (encoder_mgr s)) (\<lambda>(p, m).
      rbind (if need_mamba_block_aligned_split (cfg s) then mamba_block_aligned_split (cfg s) r (plan_tokens p) 0 0
             else Inr (plan_tokens p)) (\<lambda>n.
        Inr (n, p, s\<lparr>encoder_mgr := m\<rparr>))))"

definition schedule_encoder_inputs :: "request \<Rightarrow> enc_plan \<Rightarrow> scheduler \<Rightarrow> sched_step \<Rightarrow> (scheduler \<times> sched_step) res" where
  "schedule_encoder_inputs r p s t =
     rbind (enc_allocate_all r (plan_inputs p) (encoder_mgr s)) (\<lambda>m1.
     rbind (enc_allocate_all r (plan_external p) m1) (\<lambda>m2.
       Inr (s\<lparr>encoder_mgr := m2\<rparr>,
            if plan_inputs p = [] then t
            else t\<lparr>scheduled_encoder_inputs := AList.update (request_id r) (plan_inputs p) (scheduled_encoder_inputs t),
                   encoder_budget := plan_budget p\<rparr>)))"

definition commit_running ::
  "nat \<Rightarrow> int \<Rightarrow> enc_plan \<Rightarrow> nat list list \<Rightarrow> scheduler \<Rightarrow> sched_step \<Rightarrow> (scheduler \<times> sched_step) res" where
  "commit_running a n p new_blocks s t =
     (let r = objs s a;
          rid = request_id r;
          t1 = t\<lparr>scheduled_running_reqs := scheduled_running_reqs t @ [a],
                 req_to_new_blocks := AList.update rid new_blocks (req_to_new_blocks t),
                 num_scheduled_tokens := AList.update rid n (num_scheduled_tokens t),
                 token_budget := token_budget t - n\<rparr>;
          num_spec = n + int (num_computed_tokens r) - int (num_tokens r) - int (num_output_placeholders r);
          t2 = (if spec_token_ids r \<noteq> [] \<and> num_spec > 0
                then t1\<lparr>scheduled_spec_decode_tokens :=
                          AList.update rid (take (nat num_spec) (spec_token_ids r)) (scheduled_spec_decode_tokens t1)\<rparr>
                else t1);
          s1 = upd_req a (\<lambda>r. r\<lparr>spec_token_ids := []\<rparr>) s
      in schedule_encoder_inputs r p s1 t2)"

lemma try_schedule_config [simp]: "plan_running env a s t = Inr (n, p, s') \<Longrightarrow> running s' = running s \<and> cfg s' = cfg s"
  by (auto simp: plan_running_def Let_def res_simps)

lemma commit_running_running [simp]:
  "commit_running a n p bs s t = Inr (s', t') \<Longrightarrow> running s' = running s \<and> cfg s' = cfg s"
  by (auto simp: commit_running_def schedule_encoder_inputs_def Let_def res_simps upd_req_def)

function running_loop :: "sched_env \<Rightarrow> scheduler \<Rightarrow> sched_step \<Rightarrow> int \<Rightarrow> (scheduler \<times> sched_step) res" where
  "running_loop env s t req_index =
     (if req_index < int (length (running s)) \<and> token_budget t > 0 then
        let a = list_index (running s) req_index
        in if output_limit_reached (objs s a) then running_loop env s t (req_index + 1)
           else rbind (plan_running env a s t) (\<lambda>(n, p, s1).
             if n = 0 then running_loop env s1 t (req_index + 1)
             else rbind (alloc_or_preempt env a n s1 t req_index) (\<lambda>(new, s2, t2, req_index2).
               case new of
                 None \<Rightarrow> Inr (s2, t2)
               | Some bs \<Rightarrow> rbind (commit_running a n p bs s2 t2) (\<lambda>(s3, t3).
                   running_loop env s3 t3 (req_index2 + 1))))
      else Inr (s, t))"
  by pat_completeness auto
termination
proof (relation "measure (\<lambda>(env, s, t, i). nat (int (length (running s)) - i))", goal_cases)
  case (3 env s t i a x n y p s1)
  then show ?case by (auto dest!: try_schedule_config)
next
  case (4 env s t i a x n y p s1 z new w s2 v t2 i2 bs u s3 t3)
  then have "running s1 = running s" "running s3 = running s2" by (auto dest!: try_schedule_config commit_running_running)
  moreover have "int (length (running s2)) - i2 \<le> int (length (running s1)) - i"
    using alloc_or_preempt_running(1) 4 by blast
  ultimately show ?case using 4(1) by simp
qed auto

declare running_loop.simps [simp del]

subsection \<open>Waiting requests\<close>

datatype queue_sel = Waiting | SkippedWaiting

fun sel_queue :: "queue_sel \<Rightarrow> scheduler \<Rightarrow> request_queue" where
  "sel_queue Waiting s = waiting s"
| "sel_queue SkippedWaiting s = skipped_waiting s"

fun set_queue :: "queue_sel \<Rightarrow> request_queue \<Rightarrow> scheduler \<Rightarrow> scheduler" where
  "set_queue Waiting q s = s\<lparr>waiting := q\<rparr>"
| "set_queue SkippedWaiting q s = s\<lparr>skipped_waiting := q\<rparr>"

definition select_waiting_queue_for_scheduling :: "scheduler \<Rightarrow> queue_sel option res" where
  "select_waiting_queue_for_scheduling s =
     (let either = (\<lambda>first second. if queue_bool (sel_queue first s) then Some first
                      else if queue_bool (sel_queue second s) then Some second else None)
      in case policy (cfg s) of
           FCFS \<Rightarrow> Inr (either SkippedWaiting Waiting)
         | PRIORITY \<Rightarrow>
             if queue_bool (waiting s) \<and> queue_bool (skipped_waiting s)
             then rbind (queue_peek (waiting s)) (\<lambda>w. rbind (queue_peek (skipped_waiting s)) (\<lambda>k.
                    Inr (Some (if ref_lt (objs s) w k then Waiting else SkippedWaiting))))
             else Inr (either Waiting SkippedWaiting))"

fun is_blocked_waiting_status :: "request_status \<Rightarrow> bool" where
  "is_blocked_waiting_status WAITING_FOR_STRUCTURED_OUTPUT_GRAMMAR = True"
| "is_blocked_waiting_status WAITING_FOR_REMOTE_KVS = True"
| "is_blocked_waiting_status WAITING_FOR_STREAMING_REQ = True"
| "is_blocked_waiting_status _ = False"

definition update_waiting_for_remote_kv :: "sched_env \<Rightarrow> nat \<Rightarrow> scheduler \<Rightarrow> scheduler res" where
  "update_waiting_for_remote_kv env a s =
     (let r = objs s a; rid = request_id r in
      if env_connector env = None then Inl AssertionError
      else rbind (if rid \<in> failed_recving_kv_req_ids s
             then rbind (if num_computed_tokens r \<noteq> 0
                         then kv_cache_blocks (env_sha256 env) r (num_computed_tokens r) (kv s)
                         else kv_free r (kv s))
                    (\<lambda>k. Inr (s\<lparr>kv := k, failed_recving_kv_req_ids := failed_recving_kv_req_ids s - {rid}\<rparr>))
             else rbind (kv_cache_blocks (env_sha256 env) r (num_computed_tokens r) (kv s)) (\<lambda>k.
                    let s1 = s\<lparr>kv := k\<rparr>
                    in Inr (if num_computed_tokens r = num_tokens r
                            then upd_req a (\<lambda>r. r\<lparr>num_computed_tokens := num_tokens r - 1\<rparr>) s1 else s1)))
           (\<lambda>s1. if rid \<in> finished_recving_kv_req_ids s1
                 then Inr (s1\<lparr>finished_recving_kv_req_ids := finished_recving_kv_req_ids s1 - {rid}\<rparr>)
                 else Inl KeyError))"

definition try_promote_blocked_waiting_request :: "sched_env \<Rightarrow> nat \<Rightarrow> scheduler \<Rightarrow> (bool \<times> scheduler) res" where
  "try_promote_blocked_waiting_request env a s =
     (let r = objs s a in
      case status r of
        WAITING_FOR_REMOTE_KVS \<Rightarrow>
          if request_id r \<notin> finished_recving_kv_req_ids s then Inr (False, s)
          else rbind (update_waiting_for_remote_kv env a s) (\<lambda>s1.
                 Inr (True, upd_req a (\<lambda>r. r\<lparr>status := (if num_preemptions r > 0 then PREEMPTED else WAITING)\<rparr>) s1))
      | WAITING_FOR_STRUCTURED_OUTPUT_GRAMMAR \<Rightarrow>
          if grammar_ready env r then Inr (True, upd_req a (\<lambda>r. r\<lparr>status := WAITING\<rparr>) s) else Inr (False, s)
      | WAITING_FOR_STREAMING_REQ \<Rightarrow>
          if streaming_queue r = None \<or> streaming_queue r = Some [] then Inr (False, s) else Inl AssertionError
      | _ \<Rightarrow> Inl AssertionError)"

definition skip_request :: "queue_sel \<Rightarrow> nat \<Rightarrow> scheduler \<Rightarrow> sched_step \<Rightarrow> (scheduler \<times> sched_step) res" where
  "skip_request sel a s t =
     rbind (queue_pop (objs s) (sel_queue sel s)) (\<lambda>(x, q).
       Inr (set_queue sel q s, t\<lparr>step_skipped_waiting := queue_prepend (objs s) a (step_skipped_waiting t)\<rparr>))"

text \<open>The tokens of a waiting request that are already computed: new computed blocks, locally
  cached tokens, external tokens, whether these are loaded asynchronously, and the total.  The
  outer option is None when the connector cannot tell yet.\<close>

type_synonym computed = "nat list list \<times> nat \<times> nat \<times> bool \<times> nat"

definition waiting_computed_tokens :: "sched_env \<Rightarrow> request \<Rightarrow> kv_cache_manager \<Rightarrow> computed option res" where
  "waiting_computed_tokens env r k =
     (if num_computed_tokens r = 0 then
        rbind (get_computed_blocks r k) (\<lambda>(new_blocks, n_local).
          case (case env_connector env of None \<Rightarrow> (Some 0, False)
                | Some c \<Rightarrow> get_num_new_matched_tokens c r n_local) of
            (None, _) \<Rightarrow> Inr None
          | (Some n_ext, load_async) \<Rightarrow>
              if n_local + n_ext \<le> num_tokens r \<and> (has_prefill_stats r \<longrightarrow> n_local + n_ext \<le> num_prompt_tokens r)
              then Inr (Some (new_blocks, n_local, n_ext, load_async, n_local + n_ext))
              else Inl AssertionError)
      else Inr (Some (empty_blocks k, 0, 0, False, num_computed_tokens r)))"

text \<open>The number of tokens to schedule and the encoder inputs; None stops the loop.\<close>

definition plan_waiting ::
  "sched_env \<Rightarrow> nat \<Rightarrow> computed \<Rightarrow> scheduler \<Rightarrow> sched_step \<Rightarrow> ((int \<times> enc_plan) option \<times> scheduler) res" where
  "plan_waiting env a comput s t =
     (let r = objs s a;
          c = cfg s;
          (new_blocks, n_local, n_ext, load_async, ncomp) = comput;
          no_inputs = (\<lambda>n. \<lparr>plan_inputs = [], plan_tokens = n, plan_budget = encoder_budget t, plan_external = [],
                             plan_hashes = {}, plan_embeds = 0\<rparr>);
          n0 = long_prefill_cap c (int (num_tokens r) - int ncomp);
          split = (\<lambda>n p s1.
            if need_mamba_block_aligned_split c
            then rbind (mamba_block_aligned_split c r n n_local n_ext) (\<lambda>n1.
                   Inr (if n1 = 0 then None else Some (n1, p), s1))
            else Inr (Some (n, p), s1))
      in if load_async then (if n_ext > 0 then split 0 (no_inputs 0) s else Inl AssertionError)
         else if \<not> enable_chunked_prefill c \<and> n0 > token_budget t then Inr (None, s)
         else let n = min n0 (token_budget t) in
           if n \<le> 0 then Inl AssertionError
           else if \<not> has_encoder_inputs r then split n (no_inputs n) s
           else rbind (try_schedule_encoder_inputs c env r (int ncomp) n (encoder_budget t) (encoder_mgr s)) (\<lambda>(p, m).
                  if plan_tokens p = 0 then Inr (None, s\<lparr>encoder_mgr := m\<rparr>)
                  else split (plan_tokens p) p (s\<lparr>encoder_mgr := m\<rparr>)))"

definition commit_waiting ::
  "sched_env \<Rightarrow> queue_sel \<Rightarrow> string \<Rightarrow> computed \<Rightarrow> int \<Rightarrow> enc_plan \<Rightarrow> scheduler \<Rightarrow> sched_step \<Rightarrow> (scheduler \<times> sched_step) res" where
  "commit_waiting env sel rid comput n p s t =
     (let (new_blocks, n_local, n_ext, load_async, ncomp) = comput in
      rbind (queue_pop (objs s) (sel_queue sel s)) (\<lambda>(a, q).
        let s1 = set_queue sel q s; r = objs s a in
        if load_async
        then let s2 = upd_req a (\<lambda>r. r\<lparr>status := WAITING_FOR_REMOTE_KVS, num_computed_tokens := ncomp\<rparr>) s1
             in Inr (s2, t\<lparr>step_skipped_waiting := queue_prepend (objs s2) a (step_skipped_waiting t)\<rparr>)
        else rbind (case status r of
                WAITING \<Rightarrow> Inr (t\<lparr>scheduled_new_reqs := scheduled_new_reqs t @ [a]\<rparr>)
              | PREEMPTED \<Rightarrow> Inr (t\<lparr>scheduled_resumed_reqs := scheduled_resumed_reqs t @ [a]\<rparr>)
              | _ \<Rightarrow> Inl RuntimeError) (\<lambda>t1.
          let t2 = t1\<lparr>scheduled_loras := (case (max_loras (cfg s), lora_id r) of
                          (Some _, Some l) \<Rightarrow> insert l (scheduled_loras t1) | _ \<Rightarrow> scheduled_loras t1),
                      req_to_new_blocks := AList.update rid (kv_get_block_ids rid (kv s)) (req_to_new_blocks t1),
                      num_scheduled_tokens := AList.update rid n (num_scheduled_tokens t1),
                      token_budget := token_budget t1 - n\<rparr>;
              s2 = upd_req a (\<lambda>r. r\<lparr>status := RUNNING, num_computed_tokens := ncomp\<rparr>) (s1\<lparr>running := running s1 @ [a]\<rparr>)
          in schedule_encoder_inputs r p s2 t2)))"

definition lora_full :: "sched_config \<Rightarrow> request \<Rightarrow> sched_step \<Rightarrow> bool" where
  "lora_full c r t =
     (case (max_loras c, lora_id r) of
        (Some n, Some l) \<Rightarrow> card (scheduled_loras t) = n \<and> l \<notin> scheduled_loras t
      | _ \<Rightarrow> False)"

text \<open>One turn of the loop; the flag says whether it continues.\<close>

definition waiting_step :: "sched_env \<Rightarrow> scheduler \<Rightarrow> sched_step \<Rightarrow> (bool \<times> scheduler \<times> sched_step) res" where
  "waiting_step env s t =
     (let go_on = (\<lambda>(s', t'). Inr (True, s', t')); stop = (\<lambda>s'. Inr (False, s', t)) in
      rbind (select_waiting_queue_for_scheduling s) (\<lambda>sel_opt.
      case sel_opt of None \<Rightarrow> Inl AssertionError | Some sel \<Rightarrow>
      rbind (queue_peek (sel_queue sel s)) (\<lambda>a.
      rbind (if is_blocked_waiting_status (status (objs s a)) then try_promote_blocked_waiting_request env a s
             else Inr (True, s)) (\<lambda>(ready, s1).
      if \<not> ready \<or> lora_full (cfg s1) (objs s1 a) t then rbind (skip_request sel a s1 t) go_on
      else rbind (waiting_computed_tokens env (objs s1 a) (kv s1)) (\<lambda>comput_opt.
      case comput_opt of None \<Rightarrow> rbind (skip_request sel a s1 t) go_on | Some comput \<Rightarrow>
      rbind (plan_waiting env a comput s1 t) (\<lambda>(planned, s2).
      case planned of None \<Rightarrow> stop s2 | Some (n, p) \<Rightarrow>
      let r = objs s2 a;
          c = cfg s2;
          (new_blocks, n_local, n_ext, load_async, ncomp) = comput
      in rbind (if is_encoder_decoder c \<and> has_encoder_inputs r then sum_encoder_embeds r (plan_inputs p) else Inr 0) (\<lambda>enc.
         rbind (allocate_slots (env_sha256 env) r (nat n) n_local (Some new_blocks)
                  (if num_computed_tokens r = 0 then 0 else num_lookahead_tokens c) n_ext load_async (nat enc)
                  (reserve_full_isl c) (kv s2)) (\<lambda>(new, k).
         let s3 = s2\<lparr>kv := k\<rparr> in
         case new of
           None \<Rightarrow> if has_encoder_inputs r
                   then rbind (enc_free r (encoder_mgr s3)) (\<lambda>m. stop (s3\<lparr>encoder_mgr := m\<rparr>))
                   else stop s3
         | Some bs \<Rightarrow> rbind (commit_waiting env sel (request_id r) comput n p s3 t) go_on))))))))"

definition queued :: "scheduler \<Rightarrow> nat" where
  "queued s = queue_len (waiting s) + queue_len (skipped_waiting s)"

text \<open>Which parts of the state the helpers leave alone.\<close>

definition same_queues :: "scheduler \<Rightarrow> scheduler \<Rightarrow> bool" where
  "same_queues s s' \<longleftrightarrow> waiting s' = waiting s \<and> skipped_waiting s' = skipped_waiting s \<and> running s' = running s \<and>
     cfg s' = cfg s \<and> requests s' = requests s"

lemma same_queues_refl [simp]: "same_queues s s"
  by (simp add: same_queues_def)

lemma same_queues_trans: "same_queues s s1 \<Longrightarrow> same_queues s1 s2 \<Longrightarrow> same_queues s s2"
  by (simp add: same_queues_def)

lemma same_queues_simps [simp]:
  "same_queues s (upd_req a f s') = same_queues s s'" "same_queues s (s'\<lparr>kv := k\<rparr>) = same_queues s s'"
  "same_queues s (s'\<lparr>encoder_mgr := m\<rparr>) = same_queues s s'"
  "same_queues s (s'\<lparr>finished_recving_kv_req_ids := x\<rparr>) = same_queues s s'"
  "same_queues s (s'\<lparr>failed_recving_kv_req_ids := x\<rparr>) = same_queues s s'"
  by (simp_all add: same_queues_def upd_req_def)

lemma update_waiting_queues: "update_waiting_for_remote_kv env a s = Inr s' \<Longrightarrow> same_queues s s'"
  by (auto simp: update_waiting_for_remote_kv_def Let_def rbind_Inr_iff split: if_splits)

lemma try_promote_queues:
  assumes "try_promote_blocked_waiting_request env a s = Inr (b, s')"
  shows "same_queues s s'"
proof (cases "status (objs s a) = WAITING_FOR_REMOTE_KVS")
  case True
  then show ?thesis using assms
    by (auto simp: try_promote_blocked_waiting_request_def Let_def rbind_Inr_iff dest: update_waiting_queues split: if_splits)
next
  case False
  then show ?thesis using assms
    by (cases "status (objs s a)") (auto simp: try_promote_blocked_waiting_request_def Let_def split: if_splits)
qed

lemma plan_waiting_queues:
  "plan_waiting env a comput s t = Inr (planned, s') \<Longrightarrow> same_queues s s' \<and> objs s' = objs s"
  by (auto simp: plan_waiting_def same_queues_def Let_def res_simps split: prod.splits if_splits)

lemma sel_set_queue [simp]:
  "queued (set_queue sel q s) + queue_len (sel_queue sel s) = queued s + queue_len q"
  "running (set_queue sel q s) = running s" "cfg (set_queue sel q s) = cfg s" "objs (set_queue sel q s) = objs s"
  "requests (set_queue sel q s) = requests s"
  by (cases sel; simp add: queued_def)+

lemma queued_set_pop: "queue_pop rs (sel_queue sel s) = Inr (x, q) \<Longrightarrow> Suc (queued (set_queue sel q s)) = queued s"
  using sel_set_queue(1) [of sel q s] by (simp add: queue_pop_len)

lemma skip_request_queued: "skip_request sel a s t = Inr (s', t') \<Longrightarrow> Suc (queued s') = queued s"
  by (auto simp: skip_request_def res_simps queued_set_pop)

lemma queued_simps [simp]:
  "queued (s\<lparr>kv := k\<rparr>) = queued s" "queued (s\<lparr>encoder_mgr := m\<rparr>) = queued s"
  "queued (s\<lparr>running := r\<rparr>) = queued s" "queued (upd_req a f s) = queued s"
  by (simp_all add: queued_def upd_req_def)

lemma commit_waiting_queued:
  assumes "commit_waiting env sel rid comput n p s t = Inr (s', t')"
  shows "Suc (queued s') = queued s"
proof -
  obtain a q where pop: "queue_pop (objs s) (sel_queue sel s) = Inr (a, q)"
    using assms by (auto simp: commit_waiting_def res_simps split: prod.splits)
  have "queued s' = queued (set_queue sel q s)"
    using assms pop by (auto simp: commit_waiting_def schedule_encoder_inputs_def Let_def res_simps split: prod.splits if_splits request_status.splits)
  then show ?thesis using queued_set_pop [OF pop] by simp
qed

lemma waiting_step_cases:
  assumes "waiting_step env s t = Inr (continues, s', t')"
  obtains sel a s1 where "select_waiting_queue_for_scheduling s = Inr (Some sel)" "queue_peek (sel_queue sel s) = Inr a"
      "s1 = s \<or> is_blocked_waiting_status (status (objs s a)) \<and> (\<exists>b. try_promote_blocked_waiting_request env a s = Inr (b, s1))"
      "continues" "skip_request sel a s1 t = Inr (s', t')"
  | sel a s1 comput s2 n p enc new k where "select_waiting_queue_for_scheduling s = Inr (Some sel)"
      "queue_peek (sel_queue sel s) = Inr a"
      "(s1 = s \<and> \<not> is_blocked_waiting_status (status (objs s a))) \<or> try_promote_blocked_waiting_request env a s = Inr (True, s1)"
      "\<not> lora_full (cfg s1) (objs s1 a) t"
      "waiting_computed_tokens env (objs s1 a) (kv s1) = Inr (Some comput)"
      "plan_waiting env a comput s1 t = Inr (Some (n, p), s2)"
      "(case comput of (new_blocks, n_local, n_ext, load_async, ncomp) \<Rightarrow>
         allocate_slots (env_sha256 env) (objs s2 a) (nat n) n_local (Some new_blocks)
           (if num_computed_tokens (objs s2 a) = 0 then 0 else num_lookahead_tokens (cfg s2)) n_ext load_async enc
           (reserve_full_isl (cfg s2)) (kv s2)) = Inr (Some new, k)"
      "commit_waiting env sel (request_id (objs s2 a)) comput n p (s2\<lparr>kv := k\<rparr>) t = Inr (s', t')" "continues"
  | sel a s1 where "select_waiting_queue_for_scheduling s = Inr (Some sel)" "queue_peek (sel_queue sel s) = Inr a"
      "s1 = s \<or> try_promote_blocked_waiting_request env a s = Inr (True, s1)"
      "\<not> continues" "t' = t" "same_queues s1 s'" "objs s' = objs s1"
proof -
  obtain sel a b s1 where h: "select_waiting_queue_for_scheduling s = Inr (Some sel)" "queue_peek (sel_queue sel s) = Inr a"
    "(if is_blocked_waiting_status (status (objs s a)) then try_promote_blocked_waiting_request env a s else Inr (True, s)) = Inr (b, s1)"
    using assms by (auto simp: waiting_step_def Let_def rbind_Inr_iff split: option.splits)
  have ready: "(s1 = s \<and> \<not> is_blocked_waiting_status (status (objs s a)) \<and> b) \<or>
    is_blocked_waiting_status (status (objs s a)) \<and> try_promote_blocked_waiting_request env a s = Inr (b, s1)"
    using h(3) by (auto split: if_splits)
  show thesis
  proof (cases "\<not> b \<or> lora_full (cfg s1) (objs s1 a) t")
    case True
    then have "continues" "skip_request sel a s1 t = Inr (s', t')"
      using assms h by (auto simp: waiting_step_def Let_def rbind_Inr_iff)
    then show thesis using that(1) [OF h(1,2)] ready by blast
  next
    case False
    then obtain co where co: "waiting_computed_tokens env (objs s1 a) (kv s1) = Inr co"
      using assms h by (auto simp: waiting_step_def Let_def rbind_Inr_iff)
    show thesis
    proof (cases co)
      case None
      then have "continues" "skip_request sel a s1 t = Inr (s', t')"
        using assms h co False by (auto simp: waiting_step_def Let_def rbind_Inr_iff)
      then show thesis using that(1) [OF h(1,2)] ready by blast
    next
      case (Some comput)
      then obtain planned s2 where pl: "plan_waiting env a comput s1 t = Inr (planned, s2)"
        using assms h co False by (auto simp: waiting_step_def Let_def rbind_Inr_iff)
      note Q = plan_waiting_queues [OF pl]
      have r1: "s1 = s \<or> try_promote_blocked_waiting_request env a s = Inr (True, s1)" using ready False by auto
      show thesis
      proof (cases planned)
        case None
        then have "\<not> continues" "t' = t" "s' = s2"
          using assms h co Some pl False by (auto simp: waiting_step_def Let_def rbind_Inr_iff)
        then show thesis using that(3) [OF h(1,2) r1] Q by simp
      next
        case (Some np)
        obtain n p where np: "np = (n, p)" by fastforce
        obtain new_blocks n_local n_ext load_async ncomp where cp: "comput = (new_blocks, n_local, n_ext, load_async, ncomp)"
          by (cases comput) auto
        obtain enc new k where al: "allocate_slots (env_sha256 env) (objs s2 a) (nat n) n_local (Some new_blocks)
           (if num_computed_tokens (objs s2 a) = 0 then 0 else num_lookahead_tokens (cfg s2)) n_ext load_async enc
           (reserve_full_isl (cfg s2)) (kv s2) = Inr (new, k)"
          "(case new of
           None \<Rightarrow> if has_encoder_inputs (objs s2 a)
                   then rbind (enc_free (objs s2 a) (encoder_mgr (s2\<lparr>kv := k\<rparr>))) (\<lambda>m. Inr (False, s2\<lparr>kv := k, encoder_mgr := m\<rparr>, t))
                   else Inr (False, s2\<lparr>kv := k\<rparr>, t)
         | Some bs \<Rightarrow> rbind (commit_waiting env sel (request_id (objs s2 a)) comput n p (s2\<lparr>kv := k\<rparr>) t) (\<lambda>(s', t'). Inr (True, s', t')))
           = Inr (continues, s', t')"
          using assms h co \<open>co = Some comput\<close> pl False Some np cp
          by (simp add: waiting_step_def Let_def) (auto simp: rbind_Inr_iff simp del: split_paired_Ex)
        show thesis
        proof (cases new)
          case None
          then have "\<not> continues \<and> t' = t \<and> same_queues s2 s' \<and> objs s' = objs s2"
            using al(2) by (auto simp: rbind_Inr_iff split: if_splits)
          then show thesis using that(3) [OF h(1,2) r1] Q same_queues_trans [of s1 s2 s'] by simp
        next
          case (Some bs)
          then have "commit_waiting env sel (request_id (objs s2 a)) comput n p (s2\<lparr>kv := k\<rparr>) t = Inr (s', t')" "continues"
            using al(2) by (auto simp: rbind_Inr_iff)
          then show thesis
            using that(2) [OF h(1,2) _ _ _ pl [unfolded \<open>planned = Some np\<close> np], of enc bs k] ready co \<open>co = Some comput\<close> False al(1) cp Some
            by auto
        qed
      qed
    qed
  qed
qed

lemma waiting_step_queued:
  assumes "waiting_step env s t = Inr (True, s', t')"
  shows "queued s' < queued s"
  using assms
proof (cases rule: waiting_step_cases)
  case (1 sel a s1)
  then have "same_queues s s1" by (auto dest: try_promote_queues)
  then show ?thesis using skip_request_queued [OF 1(5)] by (simp add: same_queues_def queued_def)
next
  case (2 sel a s1 comput s2 n p enc new k)
  then have "same_queues s s2" by (auto dest!: try_promote_queues plan_waiting_queues intro: same_queues_trans)
  then show ?thesis using commit_waiting_queued [OF 2(8)] by (simp add: same_queues_def queued_def)
qed simp

function waiting_loop :: "sched_env \<Rightarrow> scheduler \<Rightarrow> sched_step \<Rightarrow> (scheduler \<times> sched_step) res" where
  "waiting_loop env s t =
     (if (queue_bool (waiting s) \<or> queue_bool (skipped_waiting s)) \<and> token_budget t > 0
         \<and> length (running s) \<noteq> max_num_running_reqs (cfg s)
      then rbind (waiting_step env s t) (\<lambda>(continues, s', t').
             if continues then waiting_loop env s' t' else Inr (s', t'))
      else Inr (s, t))"
  by pat_completeness auto

termination
  by (relation "measure (\<lambda>(env, s, t). queued s)") (auto dest: waiting_step_queued)

declare waiting_loop.simps [simp del]

subsection \<open>The step\<close>

record new_request_data =
  nr_req_id :: string
  nr_prompt_token_ids :: "nat list option"
  nr_mm_features :: "mm_feature list"
  nr_sampling_params :: "sampling_params option"
  nr_pooling_params :: "pooling_params option"
  nr_block_ids :: "nat list list"
  nr_num_computed_tokens :: nat
  nr_lora_id :: "nat option"
  nr_prompt_embeds :: "bytes list option"
  nr_prefill_token_ids :: "nat list option"

record cached_request_data =
  cr_req_ids :: "string list"
  cr_resumed_req_ids :: "string set"
  cr_new_token_ids :: "nat list list"
  cr_all_token_ids :: "(string \<times> nat list) list"
  cr_new_block_ids :: "nat list list option list"
  cr_num_computed_tokens :: "nat list"
  cr_num_output_tokens :: "nat list"

record scheduler_output =
  so_new_reqs :: "new_request_data list"
  so_cached_reqs :: cached_request_data
  so_num_scheduled_tokens :: "(string \<times> int) list"
  so_total_num_scheduled_tokens :: int
  so_scheduled_spec_decode_tokens :: "(string \<times> int list) list"
  so_scheduled_encoder_inputs :: "(string \<times> nat list) list"
  so_num_common_prefix_blocks :: "nat list"
  so_preempted_req_ids :: "string set"
  so_finished_req_ids :: "string set"
  so_free_encoder_mm_hashes :: "string list"
  so_new_block_ids_to_zero :: "nat list option"
  so_has_structured_output_requests :: bool
  so_pending_structured_output_tokens :: bool
  so_num_invalid_spec_tokens :: "(string \<times> nat) list"

definition new_request_data_from_request :: "request \<Rightarrow> nat list list \<Rightarrow> nat list option \<Rightarrow> new_request_data" where
  "new_request_data_from_request r block_ids prefill =
     \<lparr>nr_req_id = request_id r, nr_prompt_token_ids = prompt_token_ids r, nr_mm_features = mm_features r,
      nr_sampling_params = req_sampling_params r, nr_pooling_params = req_pooling_params r,
      nr_block_ids = block_ids, nr_num_computed_tokens = num_computed_tokens r, nr_lora_id = lora_id r,
      nr_prompt_embeds = prompt_embeds r, nr_prefill_token_ids = prefill\<rparr>"

definition dict_get :: "(string \<times> 'a) list \<Rightarrow> string \<Rightarrow> 'a res" where
  "dict_get d k = (case map_of d k of None \<Rightarrow> Inl KeyError | Some x \<Rightarrow> Inr x)"

text \<open>Python's slice \<open>xs[i:i+n]\<close> for a length that may be negative.\<close>

definition py_slice_len :: "'a list \<Rightarrow> nat \<Rightarrow> int \<Rightarrow> 'a list" where
  "py_slice_len xs i n =
     (let stop = int i + n; j = (if stop < 0 then max 0 (int (length xs) + stop) else stop)
      in slice i (nat j) xs)"

fun cached_data_loop ::
  "sched_config \<Rightarrow> store \<Rightarrow> string set \<Rightarrow> sched_step \<Rightarrow> (nat \<times> bool) list \<Rightarrow> cached_request_data \<Rightarrow> cached_request_data res" where
  "cached_data_loop c rs prev t [] d = Inr d"
| "cached_data_loop c rs prev t ((a, resumed) # as) d =
     (let r = rs a; rid = request_id r; in_prev = (rid \<in> prev) in
      rbind (dict_get (num_scheduled_tokens t) rid) (\<lambda>n.
      rbind (guard_err (\<not> (resumed \<and> in_prev)) AssertionError) (\<lambda>_.
      rbind (dict_get (req_to_new_blocks t) rid) (\<lambda>bs.
        let num_spec = (case map_of (scheduled_spec_decode_tokens t) rid of None \<Rightarrow> 0 | Some ts \<Rightarrow> length ts)
        in cached_data_loop c rs prev t as
             (d\<lparr>cr_req_ids := cr_req_ids d @ [rid],
                cr_new_token_ids := (if use_pp c \<and> \<not> async_scheduling c
                  then cr_new_token_ids d @ [py_slice_len (all_token_ids r) (num_computed_tokens r) (n - int num_spec)]
                  else cr_new_token_ids d),
                cr_resumed_req_ids := (if resumed then insert rid (cr_resumed_req_ids d) else cr_resumed_req_ids d),
                cr_all_token_ids := (if in_prev then cr_all_token_ids d
                                     else AList.update rid (all_token_ids r) (cr_all_token_ids d)),
                cr_new_block_ids := cr_new_block_ids d @ [if list_all (\<lambda>g. g = []) bs then None else Some bs],
                cr_num_computed_tokens := cr_num_computed_tokens d @ [num_computed_tokens r],
                cr_num_output_tokens := cr_num_output_tokens d @ [num_output_tokens r + num_output_placeholders r]\<rparr>)))))"

definition make_cached_request_data :: "scheduler \<Rightarrow> sched_step \<Rightarrow> nat list \<Rightarrow> nat list \<Rightarrow> cached_request_data res" where
  "make_cached_request_data s t running_reqs resumed_reqs =
     cached_data_loop (cfg s) (objs s) (prev_step_scheduled_req_ids s) t
       (map (\<lambda>a. (a, False)) running_reqs @ map (\<lambda>a. (a, True)) resumed_reqs)
       \<lparr>cr_req_ids = [], cr_resumed_req_ids = {}, cr_new_token_ids = [], cr_all_token_ids = [],
        cr_new_block_ids = [], cr_num_computed_tokens = [], cr_num_output_tokens = []\<rparr>"

fun new_data_loop :: "scheduler \<Rightarrow> sched_step \<Rightarrow> nat list \<Rightarrow> new_request_data list res" where
  "new_data_loop s t [] = Inr []"
| "new_data_loop s t (a # as) =
     (let r = objs s a in
      rbind (dict_get (req_to_new_blocks t) (request_id r)) (\<lambda>bs.
      rbind (new_data_loop s t as) (\<lambda>ds.
        Inr (new_request_data_from_request r bs
               (if use_v2_model_runner (cfg s) then Some (all_token_ids r) else None) # ds))))"

text \<open>\<open>_update_after_schedule\<close>: the scheduled tokens count as computed.\<close>

fun advance_loop :: "(string \<times> int) list \<Rightarrow> scheduler \<Rightarrow> bool \<Rightarrow> (scheduler \<times> bool) res" where
  "advance_loop [] s structured = Inr (s, structured)"
| "advance_loop ((rid, n) # ns) s structured =
     rbind (dict_get (requests s) rid) (\<lambda>a.
       let s1 = upd_req a (\<lambda>r. let nc = nat (int (num_computed_tokens r) + n)
                  in r\<lparr>num_computed_tokens := nc,
                       is_prefill_chunk := nc < num_tokens r + num_output_placeholders r\<rparr>) s;
           r = objs s1 a
       in advance_loop ns s1 (structured \<or> structured_output r \<and> \<not> is_prefill_chunk r))"

definition update_after_schedule :: "scheduler_output \<Rightarrow> scheduler \<Rightarrow> (scheduler \<times> scheduler_output) res" where
  "update_after_schedule out s =
     rbind (advance_loop (so_num_scheduled_tokens out) s (so_has_structured_output_requests out)) (\<lambda>(s1, structured).
       Inr (s1\<lparr>finished_req_ids := {}\<rparr>, out\<lparr>so_has_structured_output_requests := structured\<rparr>))"

text \<open>\<open>AsyncScheduler._update_after_schedule\<close> adds a placeholder for the sampled token and the drafts.\<close>

fun placeholder_loop ::
  "scheduler_output \<Rightarrow> (string \<times> int) list \<Rightarrow> scheduler \<Rightarrow> bool \<Rightarrow> (scheduler \<times> bool) res" where
  "placeholder_loop out [] s pending = Inr (s, pending)"
| "placeholder_loop out ((rid, n) # ns) s pending =
     rbind (dict_get (requests s) rid) (\<lambda>a.
       let r = objs s a in
       if is_prefill_chunk r then placeholder_loop out ns s pending
       else let num_spec = (case map_of (so_scheduled_spec_decode_tokens out) rid of None \<Rightarrow> 0 | Some ts \<Rightarrow> length ts)
            in placeholder_loop out ns
                 (upd_req a (\<lambda>r. r\<lparr>num_output_placeholders := num_output_placeholders r + 1 + num_spec,
                                 spec_token_ids := replicate (num_spec_tokens (cfg s)) (-1)\<rparr>) s)
                 (pending \<or> structured_output r \<and> num_output_placeholders r > 0))"

definition async_update_after_schedule :: "scheduler_output \<Rightarrow> scheduler \<Rightarrow> (scheduler \<times> scheduler_output) res" where
  "async_update_after_schedule out s =
     rbind (update_after_schedule out s) (\<lambda>(s1, out1).
     rbind (placeholder_loop out1 (so_num_scheduled_tokens out1) s1 (so_pending_structured_output_tokens out1)) (\<lambda>(s2, pending).
       Inr (s2, out1\<lparr>so_pending_structured_output_tokens := pending\<rparr>)))"

definition scheduled_loras_of :: "scheduler \<Rightarrow> sched_step \<Rightarrow> nat set" where
  "scheduled_loras_of s t =
     (case max_loras (cfg s) of
        None \<Rightarrow> {}
      | Some n \<Rightarrow> set (List.map_filter (\<lambda>a. case lora_id (objs s a) of Some l \<Rightarrow> if l > 0 then Some l else None | None \<Rightarrow> None)
                    (scheduled_running_reqs t)))"

text \<open>Both loops.\<close>

definition schedule_requests :: "sched_env \<Rightarrow> scheduler \<Rightarrow> (scheduler \<times> sched_step) res" where
  "schedule_requests env s0 =
     rbind (running_loop env (s0\<lparr>kv := kv_new_step_starts (kv s0)\<rparr>) (sched_step_init s0) 0) (\<lambda>(s1, t1).
       let loras = scheduled_loras_of s1 t1; t2 = t1\<lparr>scheduled_loras := loras\<rparr>
       in rbind (guard_err (case max_loras (cfg s1) of None \<Rightarrow> True | Some n \<Rightarrow> card loras \<le> n) AssertionError) (\<lambda>_.
          if preempted_reqs t2 = [] \<and> sched_pause_state s1 = UNPAUSED
          then rbind (waiting_loop env s1 t2) (\<lambda>(s2, t3).
                 Inr (if queue_bool (step_skipped_waiting t3)
                      then s2\<lparr>skipped_waiting := queue_prepend_requests (objs s2) (step_skipped_waiting t3) (skipped_waiting s2)\<rparr>
                      else s2, t3))
          else Inr (s1, t2)))"

definition total_scheduled :: "sched_step \<Rightarrow> int" where
  "total_scheduled t = sum_list (map snd (num_scheduled_tokens t))"

definition schedule_checks :: "scheduler \<Rightarrow> sched_step \<Rightarrow> bool" where
  "schedule_checks s t \<longleftrightarrow> total_scheduled t \<le> max_num_scheduled_tokens (cfg s) \<and> token_budget t \<ge> 0 \<and>
     length (running s) \<le> max_num_running_reqs (cfg s) \<and>
     length (scheduled_new_reqs t) + length (scheduled_resumed_reqs t) + length (scheduled_running_reqs t)
       \<le> length (running s)"

definition make_output :: "scheduler \<Rightarrow> sched_step \<Rightarrow> (scheduler \<times> scheduler_output) res" where
  "make_output s t =
     rbind (case running s of
              [] \<Rightarrow> Inr (replicate (k_num_groups (kv s)) 0, coordinator (kv s))
            | a # as \<Rightarrow> coord_get_num_common_prefix_blocks (request_id (objs s a)) (coordinator (kv s))) (\<lambda>(common, coord).
     let s1 = s\<lparr>kv := (kv s)\<lparr>coordinator := coord\<rparr>\<rparr>;
         v2 = use_v2_model_runner (cfg s);
         new_reqs = (if v2 then scheduled_new_reqs t @ scheduled_resumed_reqs t else scheduled_new_reqs t);
         resumed = (if v2 then [] else scheduled_resumed_reqs t)
     in rbind (new_data_loop s1 t new_reqs) (\<lambda>new_data.
        rbind (make_cached_request_data s1 t (scheduled_running_reqs t) resumed) (\<lambda>cached_data.
        let (zero, k) = (if needs_kv_cache_zeroing (cfg s)
              then let (ids, k') = kv_take_new_block_ids (kv s1) in (if ids = [] then None else Some ids, k')
              else (None, kv s1));
            (freed_hashes, m) = enc_get_freed_mm_hashes (encoder_mgr s1)
        in Inr (s1\<lparr>kv := k, encoder_mgr := m,
                   prev_step_scheduled_req_ids := fst ` set (num_scheduled_tokens t)\<rparr>,
             \<lparr>so_new_reqs = new_data, so_cached_reqs = cached_data, so_num_scheduled_tokens = num_scheduled_tokens t,
              so_total_num_scheduled_tokens = total_scheduled t,
              so_scheduled_spec_decode_tokens = scheduled_spec_decode_tokens t,
              so_scheduled_encoder_inputs = scheduled_encoder_inputs t, so_num_common_prefix_blocks = common,
              so_preempted_req_ids = (\<lambda>a. request_id (objs s a)) ` set (preempted_reqs t),
              so_finished_req_ids = finished_req_ids s, so_free_encoder_mm_hashes = freed_hashes,
              so_new_block_ids_to_zero = zero, so_has_structured_output_requests = False,
              so_pending_structured_output_tokens = False, so_num_invalid_spec_tokens = []\<rparr>))))"

definition schedule :: "sched_env \<Rightarrow> scheduler \<Rightarrow> (scheduler \<times> scheduler_output) res" where
  "schedule env s =
     rbind (schedule_requests env s) (\<lambda>(s1, t).
     rbind (guard_err (schedule_checks s1 t) AssertionError) (\<lambda>_.
     rbind (make_output s1 t) (\<lambda>(s2, out).
       if async_scheduling (cfg s) then async_update_after_schedule out s2 else update_after_schedule out s2)))"

end
