(* ===== verification/VL_SchedRules.thy ===== *)
theory VL_SchedRules
  imports VL_Schedule
begin

text \<open>
  What the pieces of \<open>schedule\<close> do, one at a time: rules that carry an invariant through the
  allocation loop, the loop over running requests and the loop over waiting requests; the tokens a
  plan may ask for; the victim of a preemption; what committing a request changes.
\<close>

subsection \<open>Rules for the loop over running requests\<close>

lemma alloc_rule:
  assumes "alloc_or_preempt env a n s t i = Inr (new, s', t', i')" "J s t i"
    and kv: "\<And>s t i k x. J s t i \<Longrightarrow> allocate_slots (env_sha256 env) (objs s a) (nat n) 0 None
      (num_lookahead_tokens (cfg s)) 0 False 0 False (kv s) = Inr (x, k) \<Longrightarrow> J (s\<lparr>kv := k\<rparr>) t i"
    and pre: "\<And>s t i v s2 t2 i2 s3. J s t i \<Longrightarrow> pick_victim s t i = Inr (v, s2, t2, i2) \<Longrightarrow>
      preempt_request v s2 = Inr s3 \<Longrightarrow> v \<noteq> a \<Longrightarrow> J s3 (t2\<lparr>preempted_reqs := preempted_reqs t2 @ [v]\<rparr>) i2"
    and last: "\<And>s t i s2 t2 i2 s3. J s t i \<Longrightarrow> pick_victim s t i = Inr (a, s2, t2, i2) \<Longrightarrow>
      preempt_request a s2 = Inr s3 \<Longrightarrow> K s3 (t2\<lparr>preempted_reqs := preempted_reqs t2 @ [a]\<rparr>)"
  shows "case new of Some bs \<Rightarrow> J s' t' i' | None \<Rightarrow> K s' t'"
  using assms(1,2)
proof (induction "length (running s)" arbitrary: s t i rule: less_induct)
  case less
  obtain x k where al: "allocate_slots (env_sha256 env) (objs s a) (nat n) 0 None (num_lookahead_tokens (cfg s)) 0 False 0 False (kv s) = Inr (x, k)"
    using less.prems(1) by (subst (asm) alloc_or_preempt.simps) (auto simp: res_simps)
  let ?s1 = "s\<lparr>kv := k\<rparr>"
  have J1: "J ?s1 t i" by (rule kv [OF less.prems(2) al])
  show ?case
  proof (cases x)
    case Some
    then show ?thesis using less.prems(1) al J1 by (subst (asm) alloc_or_preempt.simps) (auto simp: Let_def)
  next
    case None
    obtain v s2 t2 i2 s3 where p: "pick_victim ?s1 t i = Inr (v, s2, t2, i2)" "preempt_request v s2 = Inr s3"
      and r: "(if v = a then Inr (None, s3, t2\<lparr>preempted_reqs := preempted_reqs t2 @ [v]\<rparr>, i2)
        else alloc_or_preempt env a n s3 (t2\<lparr>preempted_reqs := preempted_reqs t2 @ [v]\<rparr>) i2) = Inr (new, s', t', i')"
      using less.prems(1) al None by (subst (asm) alloc_or_preempt.simps) (auto simp: Let_def res_simps)
    show ?thesis
    proof (cases "v = a")
      case True
      then show ?thesis using r last [OF J1] p by auto
    next
      case False
      have "length (running s3) < length (running s)"
        using pick_victim_running(2) [OF p(1)] preempt_request_running [OF p(2)] by simp
      then show ?thesis using less.hyps r False pre [OF J1 p False] by simp
    qed
  qed
qed

lemma running_rule:
  assumes "running_loop env s t i = Inr (s', t')" "I s t i"
    and limit: "\<And>s t i. I s t i \<Longrightarrow> i < int (length (running s)) \<Longrightarrow> token_budget t > 0 \<Longrightarrow> I s t (i + 1)"
    and idle: "\<And>s t i p s1. I s t i \<Longrightarrow> i < int (length (running s)) \<Longrightarrow> token_budget t > 0 \<Longrightarrow>
      plan_running env (list_index (running s) i) s t = Inr (0, p, s1) \<Longrightarrow> I s1 t (i + 1)"
    and start: "\<And>s t i n p s1. I s t i \<Longrightarrow> i < int (length (running s)) \<Longrightarrow> token_budget t > 0 \<Longrightarrow>
      plan_running env (list_index (running s) i) s t = Inr (n, p, s1) \<Longrightarrow> n \<noteq> 0 \<Longrightarrow> J (list_index (running s) i) n s1 t i"
    and kv: "\<And>a n s t i k x. J a n s t i \<Longrightarrow> allocate_slots (env_sha256 env) (objs s a) (nat n) 0 None
      (num_lookahead_tokens (cfg s)) 0 False 0 False (kv s) = Inr (x, k) \<Longrightarrow> J a n (s\<lparr>kv := k\<rparr>) t i"
    and pre: "\<And>a n s t i v s2 t2 i2 s3. J a n s t i \<Longrightarrow> pick_victim s t i = Inr (v, s2, t2, i2) \<Longrightarrow>
      preempt_request v s2 = Inr s3 \<Longrightarrow> v \<noteq> a \<Longrightarrow> J a n s3 (t2\<lparr>preempted_reqs := preempted_reqs t2 @ [v]\<rparr>) i2"
    and last: "\<And>a n s t i s2 t2 i2 s3. J a n s t i \<Longrightarrow> pick_victim s t i = Inr (a, s2, t2, i2) \<Longrightarrow>
      preempt_request a s2 = Inr s3 \<Longrightarrow> F s3 (t2\<lparr>preempted_reqs := preempted_reqs t2 @ [a]\<rparr>)"
    and commit: "\<And>a n p bs s t i s3 t3. J a n s t i \<Longrightarrow> commit_running a n p bs s t = Inr (s3, t3) \<Longrightarrow> I s3 t3 (i + 1)"
    and fin: "\<And>s t i. I s t i \<Longrightarrow> F s t"
  shows "F s' t'"
  using assms(1,2)
proof (induction "nat (int (length (running s)) - i)" arbitrary: s t i rule: less_induct)
  case less
  show ?case
  proof (cases "i < int (length (running s)) \<and> token_budget t > 0")
    case False
    then show ?thesis using less.prems fin by (subst (asm) running_loop.simps) auto
  next
    case c: True
    let ?a = "list_index (running s) i"
    have dec: "nat (int (length (running s)) - (i + 1)) < nat (int (length (running s)) - i)" using c by simp
    show ?thesis
    proof (cases "output_limit_reached (objs s ?a)")
      case True
      then have "running_loop env s t (i + 1) = Inr (s', t')"
        using less.prems(1) c by (subst (asm) running_loop.simps) (simp add: Let_def)
      then show ?thesis using less.hyps [OF dec] limit less.prems(2) c by blast
    next
      case False
      obtain n p s1 where pl: "plan_running env ?a s t = Inr (n, p, s1)"
        and rest: "(if n = 0 then running_loop env s1 t (i + 1)
             else rbind (alloc_or_preempt env ?a n s1 t i) (\<lambda>(new, s2, t2, req_index2).
               case new of
                 None \<Rightarrow> Inr (s2, t2)
               | Some bs \<Rightarrow> rbind (commit_running ?a n p bs s2 t2) (\<lambda>(s3, t3).
                   running_loop env s3 t3 (req_index2 + 1)))) = Inr (s', t')"
        using less.prems(1) c False by (subst (asm) running_loop.simps) (auto simp: Let_def res_simps)
      have run1: "running s1 = running s" using try_schedule_config [OF pl] by simp
      show ?thesis
      proof (cases "n = 0")
        case True
        have "I s1 t (i + 1)" using idle [OF less.prems(2), of p s1] c pl True by simp
        then show ?thesis using less.hyps [of s1 "i + 1" t] rest dec run1 True by simp
      next
        case False
        have J1: "J ?a n s1 t i" using start [OF less.prems(2)] c pl False by blast
        obtain new s2 t2 i2 where al: "alloc_or_preempt env ?a n s1 t i = Inr (new, s2, t2, i2)"
          and rest2: "(case new of
                 None \<Rightarrow> Inr (s2, t2)
               | Some bs \<Rightarrow> rbind (commit_running ?a n p bs s2 t2) (\<lambda>(s3, t3). running_loop env s3 t3 (i2 + 1))) = Inr (s', t')"
          using rest False by (auto simp: res_simps)
        have R: "case new of Some bs \<Rightarrow> J ?a n s2 t2 i2 | None \<Rightarrow> F s2 t2"
          by (rule alloc_rule [where J = "J ?a n" and K = F, OF al J1]) (fact kv pre last)+
        show ?thesis
        proof (cases new)
          case None
          then show ?thesis using R rest2 by simp
        next
          case (Some bs)
          then obtain s3 t3 where co: "commit_running ?a n p bs s2 t2 = Inr (s3, t3)" "running_loop env s3 t3 (i2 + 1) = Inr (s', t')"
            using rest2 by (auto simp: res_simps)
          have "nat (int (length (running s3)) - (i2 + 1)) < nat (int (length (running s)) - i)"
            using alloc_or_preempt_running(1) [OF al] commit_running_running [OF co(1)] run1 c by simp
          moreover have "I s3 t3 (i2 + 1)" by (rule commit [OF _ co(1)]) (use R Some in simp)
          ultimately show ?thesis using less.hyps co(2) by blast
        qed
      qed
    qed
  qed
qed

lemma waiting_rule:
  assumes "waiting_loop env s t = Inr (s', t')" "I s t"
    and step: "\<And>s t b s2 t2. I s t \<Longrightarrow> token_budget t > 0 \<Longrightarrow> length (running s) \<noteq> max_num_running_reqs (cfg s) \<Longrightarrow>
      waiting_step env s t = Inr (b, s2, t2) \<Longrightarrow> I s2 t2"
  shows "I s' t'"
  using assms(1,2)
proof (induction "queued s" arbitrary: s t rule: less_induct)
  case less
  show ?case
  proof (cases "(queue_bool (waiting s) \<or> queue_bool (skipped_waiting s)) \<and> token_budget t > 0
         \<and> length (running s) \<noteq> max_num_running_reqs (cfg s)")
    case c: True
    have eq: "waiting_loop env s t = rbind (waiting_step env s t) (\<lambda>(continues, s', t').
        if continues then waiting_loop env s' t' else Inr (s', t'))"
      by (subst waiting_loop.simps) (rule if_P [OF c])
    then obtain b s2 t2 where w: "waiting_step env s t = Inr (b, s2, t2)"
      "(if b then waiting_loop env s2 t2 else Inr (s2, t2)) = Inr (s', t')"
      using trans [OF eq [symmetric] less.prems(1)] by (auto simp: rbind_Inr_iff)
    have I: "I s2 t2" using step [OF less.prems(2) _ _ w(1)] c by blast
    show ?thesis
    proof (cases b)
      case True
      then show ?thesis using w(2) less.hyps [OF waiting_step_queued] w(1) I by simp
    qed (use w(2) I in simp)
  next
    case False
    have "waiting_loop env s t = Inr (s, t)" by (subst waiting_loop.simps) (rule if_not_P [OF False])
    then show ?thesis using less.prems by simp
  qed
qed

subsection \<open>Planned tokens\<close>

lemma encoder_loop_tokens:
  "encoder_loop c env r nc sh is t m = Inr (t', m') \<Longrightarrow> 0 \<le> plan_tokens t \<Longrightarrow>
    0 \<le> plan_tokens t' \<and> plan_tokens t' \<le> plan_tokens t"
proof (induction "is" arbitrary: t m)
  case (Cons i "is")
  note IH = Cons.IH [rotated]
  show ?case
    using Cons.prems
    by (auto simp: Let_def rbind_Inr_iff split: if_splits prod.splits dest!: Cons.IH)
qed simp

lemma try_schedule_encoder_tokens:
  assumes "try_schedule_encoder_inputs c env r nc n b m = Inr (p, m')" "0 \<le> n"
  shows "0 \<le> plan_tokens p" "plan_tokens p \<le> n"
  using assms encoder_loop_tokens [of c env r nc _ _ _ m p m']
  by (force simp: try_schedule_encoder_inputs_def Let_def split: if_splits)+

lemma mamba_split_tokens:
  assumes "mamba_block_aligned_split c r n nl ne = Inr n'" "0 \<le> n"
  shows "0 \<le> n'" "n' \<le> n"
proof -
  have "n div b * b \<le> n \<and> 0 \<le> n div b * b" if "0 \<le> b" for b :: int
  proof (cases "b = 0")
    case False
    then have "0 \<le> n div b" "0 \<le> n mod b" using that assms(2) by (simp_all add: pos_imp_zdiv_nonneg_iff)
    then show ?thesis using that minus_mod_eq_div_mult [of n b] mult_nonneg_nonneg [of "n div b" b] by linarith
  qed (use assms(2) in simp)
  note D = this [of "int (cfg_block_size c)"]
  show "0 \<le> n'" "n' \<le> n"
    using assms D by (auto simp: mamba_block_aligned_split_def Let_def split: if_splits)
qed

definition req_fits :: "sched_config \<Rightarrow> request \<Rightarrow> bool" where
  "req_fits c r \<longleftrightarrow> num_computed_tokens r \<le> num_tokens_with_spec r + num_output_placeholders r \<and>
     num_computed_tokens r < max_model_len c"

lemma running_num_new_tokens_bounds:
  "req_fits c r \<Longrightarrow> 0 < b \<Longrightarrow> 0 \<le> running_num_new_tokens c r b \<and> running_num_new_tokens c r b \<le> b"
  by (auto simp: req_fits_def running_num_new_tokens_def long_prefill_cap_def)

lemma plan_running_frame:
  assumes "plan_running env a s t = Inr (n, p, s')"
  shows "objs s' = objs s \<and> same_queues s s'"
proof -
  let ?split = "\<lambda>p. if need_mamba_block_aligned_split (cfg s)
    then mamba_block_aligned_split (cfg s) (objs s a) (plan_tokens p) 0 0 else Inr (plan_tokens p)"
  obtain p' m where "rbind (?split p') (\<lambda>n. Inr (n, p', s\<lparr>encoder_mgr := m\<rparr>)) = Inr (n, p, s')"
    using assms unfolding plan_running_def Let_def rbind_Inr_iff [of "try_schedule_encoder_inputs _ _ _ _ _ _ _"]
    by (clarsimp simp del: split_paired_Ex)
  then have "s' = s\<lparr>encoder_mgr := m\<rparr>" by (cases "?split p'") simp_all
  then show ?thesis by (simp add: same_queues_def)
qed

lemma plan_running_tokens:
  assumes "plan_running env a s t = Inr (n, p, s')" "req_fits (cfg s) (objs s a)" "0 < token_budget t"
  shows "0 \<le> n" "n \<le> token_budget t" "objs s' = objs s" "same_queues s s'"
proof -
  let ?split = "\<lambda>p. if need_mamba_block_aligned_split (cfg s)
    then mamba_block_aligned_split (cfg s) (objs s a) (plan_tokens p) 0 0 else Inr (plan_tokens p)"
  obtain p' m where p1: "try_schedule_encoder_inputs (cfg s) env (objs s a) (int (num_computed_tokens (objs s a)))
      (running_num_new_tokens (cfg s) (objs s a) (token_budget t)) (encoder_budget t) (encoder_mgr s) = Inr (p', m)"
    and r: "rbind (?split p') (\<lambda>n. Inr (n, p', s\<lparr>encoder_mgr := m\<rparr>)) = Inr (n, p, s')"
    using assms(1) unfolding plan_running_def Let_def rbind_Inr_iff [of "try_schedule_encoder_inputs _ _ _ _ _ _ _"]
    by (clarsimp simp del: split_paired_Ex)
  obtain n' where n': "?split p' = Inr n'" using r by (cases "?split p'") simp_all
  have p: "try_schedule_encoder_inputs (cfg s) env (objs s a) (int (num_computed_tokens (objs s a)))
      (running_num_new_tokens (cfg s) (objs s a) (token_budget t)) (encoder_budget t) (encoder_mgr s) = Inr (p', m)"
    "?split p' = Inr n" "s' = s\<lparr>encoder_mgr := m\<rparr>" using p1 n' r by simp_all
  note R = running_num_new_tokens_bounds [OF assms(2,3)]
  note P = try_schedule_encoder_tokens [OF p(1)]
  have "0 \<le> n \<and> n \<le> plan_tokens p'" using p(2) mamba_split_tokens P(1) R by (auto split: if_splits)
  then show "0 \<le> n" "n \<le> token_budget t" using P R by auto
  show "objs s' = objs s" "same_queues s s'" using p(3) by (simp_all add: same_queues_def)
qed

subsection \<open>Victims\<close>

lemma remove1_last: "distinct xs \<Longrightarrow> xs \<noteq> [] \<Longrightarrow> remove1 (last xs) xs = butlast xs"
  by (induction xs rule: rev_induct) (simp_all add: remove1_append)

lemma pick_victim_cases:
  assumes "pick_victim s t i = Inr (v, s2, t2, i2)" "distinct (running s)"
  shows "s2 = s\<lparr>running := remove1 v (running s)\<rparr>"
    "(t2 = t \<and> i2 = i \<and> (policy (cfg s) = FCFS \<and> v = last (running s) \<or> policy (cfg s) = PRIORITY \<and> v \<notin> set (scheduled_running_reqs t))) \<or>
     (policy (cfg s) = PRIORITY \<and> v \<in> set (scheduled_running_reqs t) \<and> unschedule (objs s v) v t = Inr t2 \<and> i2 = i - 1)"
  using assms remove1_last [of "running s"]
  by (auto simp: pick_victim_def Let_def rbind_Inr_iff split: scheduling_policy.splits list.splits if_splits)

lemma unschedule_skipped: "unschedule r v t = Inr t' \<Longrightarrow> step_skipped_waiting t' = step_skipped_waiting t"
  by (auto simp: unschedule_def Let_def rbind_Inr_iff split: option.splits)

lemma pick_victim_skipped: "pick_victim s t i = Inr (v, s2, t2, i2) \<Longrightarrow> step_skipped_waiting t2 = step_skipped_waiting t"
  by (auto simp: pick_victim_def Let_def rbind_Inr_iff split: scheduling_policy.splits list.splits if_splits
      dest: unschedule_skipped)

lemma preempt_request_cases:
  assumes "preempt_request v s = Inr s'"
  obtains r where "status (objs s v) = RUNNING" "objs s' = (objs s)(v := r)" "request_id r = request_id (objs s v)"
    "status r = PREEMPTED" "queue_mset (waiting s') = add_mset v (queue_mset (waiting s))" "same_queues s (s'\<lparr>waiting := waiting s\<rparr>)"
proof -
  let ?pre = "\<lambda>r. r\<lparr>status := PREEMPTED, num_computed_tokens := 0, spec_token_ids := [], num_preemptions := num_preemptions r + 1\<rparr>"
  obtain k m where st: "status (objs s v) = RUNNING" and s': "s' = (let s1 = upd_req v ?pre (s\<lparr>kv := k, encoder_mgr := m\<rparr>)
      in s1\<lparr>waiting := queue_prepend (objs s1) v (waiting s1)\<rparr>)"
    using assms unfolding preempt_request_def Let_def rbind_Inr_iff guard_err_Inr_iff by blast
  show thesis
    by (rule that [of "?pre (objs s v)"]) (simp_all add: st s' Let_def upd_req_def same_queues_def)
qed

text \<open>Positions after removing an element.\<close>

lemma take_remove1: "distinct xs \<Longrightarrow> set (take k xs) - {v} \<subseteq> set (take k (remove1 v xs))"
proof (induction xs arbitrary: k)
  case (Cons x xs)
  show ?case
  proof (cases k)
    case (Suc k')
    have "set (take k' xs) \<subseteq> set (take (Suc k') xs)" by (rule set_take_subset_set_take) simp
    then show ?thesis using Cons Suc by (cases "x = v") (auto dest: in_set_takeD)
  qed simp
qed simp

lemma take_remove1_in: "distinct xs \<Longrightarrow> v \<in> set (take k xs) \<Longrightarrow> set (take (Suc k) xs) - {v} \<subseteq> set (take k (remove1 v xs))"
proof (induction xs arbitrary: k)
  case (Cons x xs)
  then obtain k' where k: "k = Suc k'" by (cases k) auto
  show ?case
  proof (cases "x = v")
    case True
    then show ?thesis using Cons.prems k by auto
  next
    case False
    then show ?thesis using Cons.IH [of k'] Cons.prems k by auto
  qed
qed simp

lemma take_remove1_pred: "distinct xs \<Longrightarrow> v \<in> set (take k xs) \<Longrightarrow> set (take k xs) - {v} \<subseteq> set (take (k - 1) (remove1 v xs))"
  using take_remove1_in [of xs v "k - 1"]
proof (induction xs arbitrary: k)
  case (Cons x xs)
  then obtain k' where k: "k = Suc k'" by (cases k) auto
  show ?case
  proof (cases "x = v")
    case True
    then show ?thesis using Cons.prems k by auto
  next
    case False
    then obtain k'' where k': "k' = Suc k''" using Cons.prems k by (cases k') auto
    have "v \<in> set (take k' xs)" using False Cons.prems k by simp
    then have "set (take k' xs) - {v} \<subseteq> set (take k'' (remove1 v xs))"
      using Cons.IH [of k'] take_remove1_in [of xs v k''] Cons.prems(1) k' by simp
    then show ?thesis using False k k' by auto
  qed
qed simp

subsection \<open>Committing a running request\<close>

definition scheduled_reqs :: "sched_step \<Rightarrow> nat list" where
  "scheduled_reqs t = scheduled_running_reqs t @ scheduled_new_reqs t @ scheduled_resumed_reqs t"

lemma schedule_encoder_inputs_frame:
  assumes "schedule_encoder_inputs r p s t = Inr (s', t')"
  shows "same_queues s s' \<and> objs s' = objs s \<and> scheduled_reqs t' = scheduled_reqs t \<and>
    scheduled_running_reqs t' = scheduled_running_reqs t \<and> scheduled_new_reqs t' = scheduled_new_reqs t \<and>
    scheduled_resumed_reqs t' = scheduled_resumed_reqs t \<and> num_scheduled_tokens t' = num_scheduled_tokens t \<and>
    req_to_new_blocks t' = req_to_new_blocks t \<and> token_budget t' = token_budget t \<and>
    preempted_reqs t' = preempted_reqs t \<and> step_skipped_waiting t' = step_skipped_waiting t"
  using assms by (auto simp: schedule_encoder_inputs_def rbind_Inr_iff same_queues_def scheduled_reqs_def)

lemma commit_running_cases:
  assumes "commit_running a n p bs s t = Inr (s', t')"
  shows "same_queues s s'" "objs s' = (objs s)(a := (objs s a)\<lparr>spec_token_ids := []\<rparr>)"
    "scheduled_running_reqs t' = scheduled_running_reqs t @ [a]"
    "scheduled_new_reqs t' = scheduled_new_reqs t" "scheduled_resumed_reqs t' = scheduled_resumed_reqs t"
    "num_scheduled_tokens t' = AList.update (request_id (objs s a)) n (num_scheduled_tokens t)"
    "req_to_new_blocks t' = AList.update (request_id (objs s a)) bs (req_to_new_blocks t)"
    "token_budget t' = token_budget t - n" "preempted_reqs t' = preempted_reqs t"
    "step_skipped_waiting t' = step_skipped_waiting t"
proof -
  let ?s1 = "upd_req a (\<lambda>r. r\<lparr>spec_token_ids := []\<rparr>) s"
  obtain t2 where S: "schedule_encoder_inputs (objs s a) p ?s1 t2 = Inr (s', t')"
    and t2: "scheduled_running_reqs t2 = scheduled_running_reqs t @ [a]"
    "scheduled_new_reqs t2 = scheduled_new_reqs t" "scheduled_resumed_reqs t2 = scheduled_resumed_reqs t"
    "num_scheduled_tokens t2 = AList.update (request_id (objs s a)) n (num_scheduled_tokens t)"
    "req_to_new_blocks t2 = AList.update (request_id (objs s a)) bs (req_to_new_blocks t)"
    "token_budget t2 = token_budget t - n" "preempted_reqs t2 = preempted_reqs t"
    "step_skipped_waiting t2 = step_skipped_waiting t"
    using assms by (auto simp: commit_running_def Let_def split: if_splits)
  note F = schedule_encoder_inputs_frame [OF S]
  show "same_queues s s'" "objs s' = (objs s)(a := (objs s a)\<lparr>spec_token_ids := []\<rparr>)"
    "scheduled_running_reqs t' = scheduled_running_reqs t @ [a]"
    "scheduled_new_reqs t' = scheduled_new_reqs t" "scheduled_resumed_reqs t' = scheduled_resumed_reqs t"
    "num_scheduled_tokens t' = AList.update (request_id (objs s a)) n (num_scheduled_tokens t)"
    "req_to_new_blocks t' = AList.update (request_id (objs s a)) bs (req_to_new_blocks t)"
    "token_budget t' = token_budget t - n" "preempted_reqs t' = preempted_reqs t"
    "step_skipped_waiting t' = step_skipped_waiting t"
    using F t2 by (simp_all add: upd_req_def same_queues_def)
qed

subsection \<open>Looking at a waiting request\<close>

lemma update_waiting_objs:
  assumes "update_waiting_for_remote_kv env a s = Inr s'"
  shows "request_id (objs s' x) = request_id (objs s x) \<and> status (objs s' x) = status (objs s x)"
  using assms by (auto simp: update_waiting_for_remote_kv_def Let_def rbind_Inr_iff upd_req_def split: if_splits)

lemma try_promote_objs:
  assumes "try_promote_blocked_waiting_request env a s = Inr (b, s')"
  shows "request_id (objs s' x) = request_id (objs s x)"
    "status (objs s' x) = status (objs s x) \<or> x = a \<and> (status (objs s' x) = WAITING \<or> status (objs s' x) = PREEMPTED)"
proof -
  have "request_id (objs s' x) = request_id (objs s x) \<and> (status (objs s' x) = status (objs s x)
     \<or> x = a \<and> (status (objs s' x) = WAITING \<or> status (objs s' x) = PREEMPTED))"
  proof (cases "status (objs s a) = WAITING_FOR_REMOTE_KVS")
    case True
    then consider "s' = s" | s1 where "update_waiting_for_remote_kv env a s = Inr s1"
        "s' = upd_req a (\<lambda>r. r\<lparr>status := (if num_preemptions r > 0 then PREEMPTED else WAITING)\<rparr>) s1"
      using assms by (auto simp: try_promote_blocked_waiting_request_def Let_def rbind_Inr_iff split: if_splits)
    then show ?thesis
    proof cases
      case 2
      then show ?thesis using update_waiting_objs [OF 2(1), of x] by (auto simp: upd_req_def)
    qed simp
  next
    case False
    then have "s' = s \<or> s' = upd_req a (\<lambda>r. r\<lparr>status := WAITING\<rparr>) s" using assms
      by (cases "status (objs s a)") (simp_all add: try_promote_blocked_waiting_request_def Let_def split: if_splits)
    then show ?thesis by (cases "x = a") (auto simp: upd_req_def)
  qed
  then show "request_id (objs s' x) = request_id (objs s x)"
    "status (objs s' x) = status (objs s x) \<or> x = a \<and> (status (objs s' x) = WAITING \<or> status (objs s' x) = PREEMPTED)"
    by simp_all
qed

lemma unblocked_status: "st = WAITING \<or> st = PREEMPTED \<Longrightarrow> st \<noteq> RUNNING \<and> \<not> is_finished_status st"
  by (auto simp: is_finished_status_def less_request_status_def)

lemma plan_waiting_tokens:
  assumes "plan_waiting env a (nb, nl, ne, False, nc) s t = Inr (Some (n, p), s2)" "0 < token_budget t"
  shows "0 < n" "n \<le> token_budget t"
proof -
  let ?n = "min (long_prefill_cap (cfg s) (int (num_tokens (objs s a)) - int nc)) (token_budget t)"
  let ?split = "\<lambda>n p s1.
    if need_mamba_block_aligned_split (cfg s)
    then rbind (mamba_block_aligned_split (cfg s) (objs s a) n nl ne) (\<lambda>n1.
           Inr (if n1 = 0 then None else Some (n1, p), s1))
    else Inr (Some (n, p), s1)"
  have split: "0 < n \<and> n \<le> k" if "?split k p' s1 = Inr (Some (n, p), s2)" "0 < k" for k p' s1
  proof (cases "need_mamba_block_aligned_split (cfg s)")
    case True
    note H = that(1)
    obtain n1 where n1: "mamba_block_aligned_split (cfg s) (objs s a) k nl ne = Inr n1" "n1 \<noteq> 0" "n = n1"
      using H True by (cases "mamba_block_aligned_split (cfg s) (objs s a) k nl ne") (auto split: if_splits)
    then show ?thesis using mamba_split_tokens [OF n1(1)] that(2) by simp
  qed (use that in simp)
  have pos: "0 < ?n"
  proof (rule ccontr)
    assume "\<not> 0 < ?n"
    then have "?n \<le> 0" by linarith
    then show False using assms(1) unfolding plan_waiting_def Let_def by (simp split: if_splits)
  qed
  have "0 < n \<and> n \<le> ?n"
  proof (cases "has_encoder_inputs (objs s a)")
    case False
    then have "\<exists>p'. ?split ?n p' s = Inr (Some (n, p), s2)"
      using assms(1) unfolding plan_waiting_def Let_def by (auto simp del: split_paired_Ex split: if_splits)
    then show ?thesis using split [of ?n] pos by blast
  next
    case True
    obtain p' m where p': "try_schedule_encoder_inputs (cfg s) env (objs s a) (int nc) ?n (encoder_budget t) (encoder_mgr s) = Inr (p', m)"
      "plan_tokens p' \<noteq> 0" "?split (plan_tokens p') p' (s\<lparr>encoder_mgr := m\<rparr>) = Inr (Some (n, p), s2)"
      using assms(1) True unfolding plan_waiting_def Let_def
      by (auto simp: rbind_Inr_iff [of "try_schedule_encoder_inputs _ _ _ _ _ _ _"] simp del: split_paired_Ex split: if_splits)
    note T = try_schedule_encoder_tokens [OF p'(1)]
    have "0 < plan_tokens p'" "plan_tokens p' \<le> ?n" using T p'(2) pos by auto
    then show ?thesis using split [OF p'(3)] by auto
  qed
  then show "0 < n" "n \<le> token_budget t" by auto
qed

lemma commit_waiting_cases:
  assumes c: "commit_waiting env sel rid (nb, nl, ne, la, nc) n p s t = Inr (s', t')"
    and peek: "queue_peek (sel_queue sel s) = Inr a"
  obtains q where "la" "queue_pop (objs s) (sel_queue sel s) = Inr (a, q)"
      "s' = upd_req a (\<lambda>r. r\<lparr>status := WAITING_FOR_REMOTE_KVS, num_computed_tokens := nc\<rparr>) (set_queue sel q s)"
      "t' = t\<lparr>step_skipped_waiting := queue_prepend (objs s') a (step_skipped_waiting t)\<rparr>"
  | q bs where "\<not> la" "queue_pop (objs s) (sel_queue sel s) = Inr (a, q)"
      "same_queues (set_queue sel q s) (s'\<lparr>running := running s\<rparr>)" "running s' = running s @ [a]"
      "objs s' = (objs s)(a := (objs s a)\<lparr>status := RUNNING, num_computed_tokens := nc\<rparr>)"
      "mset (scheduled_reqs t') = add_mset a (mset (scheduled_reqs t))"
      "num_scheduled_tokens t' = AList.update rid n (num_scheduled_tokens t)"
      "req_to_new_blocks t' = AList.update rid bs (req_to_new_blocks t)"
      "token_budget t' = token_budget t - n" "preempted_reqs t' = preempted_reqs t"
      "step_skipped_waiting t' = step_skipped_waiting t"
      "status (objs s a) = WAITING \<or> status (objs s a) = PREEMPTED"
proof -
  obtain b q where pop: "queue_pop (objs s) (sel_queue sel s) = Inr (b, q)"
    using c by (auto simp: commit_waiting_def rbind_Inr_iff)
  have ba: "b = a" using queue_pop_mset [OF pop] peek by simp
  note pop = pop [unfolded ba]
  show thesis
  proof (cases la)
    case True
    then show thesis using c pop by (intro that(1) [of q]) (auto simp: commit_waiting_def Let_def)
  next
    case False
    let ?s2 = "upd_req a (\<lambda>r. r\<lparr>status := RUNNING, num_computed_tokens := nc\<rparr>)
      ((set_queue sel q s)\<lparr>running := running (set_queue sel q s) @ [a]\<rparr>)"
    obtain t1 where t1: "(case status (objs s a) of
                WAITING \<Rightarrow> Inr (t\<lparr>scheduled_new_reqs := scheduled_new_reqs t @ [a]\<rparr>)
              | PREEMPTED \<Rightarrow> Inr (t\<lparr>scheduled_resumed_reqs := scheduled_resumed_reqs t @ [a]\<rparr>)
              | _ \<Rightarrow> Inl RuntimeError) = Inr t1"
      and S: "schedule_encoder_inputs (objs s a) p ?s2
        (t1\<lparr>scheduled_loras := (case (max_loras (cfg s), lora_id (objs s a)) of
                          (Some _, Some l) \<Rightarrow> insert l (scheduled_loras t1) | _ \<Rightarrow> scheduled_loras t1),
            req_to_new_blocks := AList.update rid (kv_get_block_ids rid (kv s)) (req_to_new_blocks t1),
            num_scheduled_tokens := AList.update rid n (num_scheduled_tokens t1),
            token_budget := token_budget t1 - n\<rparr>) = Inr (s', t')"
      using c pop False by (cases sel) (auto simp: commit_waiting_def Let_def rbind_Inr_iff)
    have T: "mset (scheduled_reqs t1) = add_mset a (mset (scheduled_reqs t))" "num_scheduled_tokens t1 = num_scheduled_tokens t"
      "req_to_new_blocks t1 = req_to_new_blocks t" "token_budget t1 = token_budget t" "preempted_reqs t1 = preempted_reqs t"
      "step_skipped_waiting t1 = step_skipped_waiting t" "status (objs s a) = WAITING \<or> status (objs s a) = PREEMPTED"
      using t1 by (auto simp: scheduled_reqs_def split: request_status.splits)
    note F = schedule_encoder_inputs_frame [OF S]
    show thesis
      by (rule that(2) [of q "kv_get_block_ids rid (kv s)", OF False pop])
        (use F T in \<open>auto simp: same_queues_def upd_req_def scheduled_reqs_def\<close>)
  qed
qed

text \<open>One turn of the loop over waiting requests, for any invariant: a request is looked at (and may
  be promoted), it is moved to the skipped requests of the step, or it starts to run.\<close>

lemma waiting_step_rule:
  assumes step: "waiting_step env s t = Inr (continues, s', t')" and I: "I s t"
    and look: "\<And>s1 sel a. same_queues s s1 \<Longrightarrow> \<forall>x. request_id (objs s1 x) = request_id (objs s x) \<Longrightarrow>
      a \<in># queue_mset (sel_queue sel s) \<Longrightarrow> \<forall>x. status (objs s1 x) = status (objs s x) \<or>
        x = a \<and> (status (objs s1 x) = WAITING \<or> status (objs s1 x) = PREEMPTED) \<Longrightarrow> I s1 t"
    and keep: "\<And>s0 s1. I s0 t \<Longrightarrow> same_queues s0 s1 \<Longrightarrow> objs s1 = objs s0 \<Longrightarrow> I s1 t"
    and park: "\<And>s0 rs sel a q s' rs'. I s0 t \<Longrightarrow> queue_pop rs (sel_queue sel s0) = Inr (a, q) \<Longrightarrow>
      same_queues (set_queue sel q s0) s' \<Longrightarrow> \<forall>x. request_id (objs s' x) = request_id (objs s0 x) \<Longrightarrow>
      \<forall>x. status (objs s' x) = status (objs s0 x) \<or> x = a \<and> status (objs s' x) \<noteq> RUNNING \<and> \<not> is_finished (objs s' x) \<Longrightarrow>
      I s' (t\<lparr>step_skipped_waiting := queue_prepend rs' a (step_skipped_waiting t)\<rparr>)"
    and start: "\<And>s0 sel a q n bs nc s' t'. I s0 t \<Longrightarrow> same_queues s s0 \<Longrightarrow>
      (0 < token_budget t \<longrightarrow> 0 < n \<and> n \<le> token_budget t) \<Longrightarrow>
      queue_pop (objs s0) (sel_queue sel s0) = Inr (a, q) \<Longrightarrow>
      same_queues (set_queue sel q s0) (s'\<lparr>running := running s0\<rparr>) \<Longrightarrow> running s' = running s0 @ [a] \<Longrightarrow>
      objs s' = (objs s0)(a := (objs s0 a)\<lparr>status := RUNNING, num_computed_tokens := nc\<rparr>) \<Longrightarrow>
      mset (scheduled_reqs t') = add_mset a (mset (scheduled_reqs t)) \<Longrightarrow>
      num_scheduled_tokens t' = AList.update (request_id (objs s0 a)) n (num_scheduled_tokens t) \<Longrightarrow>
      req_to_new_blocks t' = AList.update (request_id (objs s0 a)) bs (req_to_new_blocks t) \<Longrightarrow>
      token_budget t' = token_budget t - n \<Longrightarrow> preempted_reqs t' = preempted_reqs t \<Longrightarrow>
      step_skipped_waiting t' = step_skipped_waiting t \<Longrightarrow> I s' t'"
  shows "I s' t'"
proof -
  have promote: "I s1 t \<and> same_queues s s1"
    if "s1 = s \<or> (\<exists>b. try_promote_blocked_waiting_request env a s = Inr (b, s1))" "queue_peek (sel_queue sel s) = Inr a"
    for s1 a sel
    using that(1)
  proof (elim disjE exE)
    fix b assume pr: "try_promote_blocked_waiting_request env a s = Inr (b, s1)"
    show ?thesis
      using look [OF try_promote_queues [OF pr], of a sel] try_promote_objs [OF pr] queue_peek_mset [OF that(2)]
        try_promote_queues [OF pr] by blast
  qed (use I in simp)
  have sel: "sel_queue sel s1 = sel_queue sel s" if "same_queues s s1" for s1 sel
    using that by (cases sel) (simp_all add: same_queues_def)
  show ?thesis
    using step
  proof (cases rule: waiting_step_cases)
    case (1 sel a s1)
    have P: "I s1 t" "same_queues s s1" using promote [OF _ 1(2)] 1(3) by blast+
    obtain x q where k: "queue_pop (objs s1) (sel_queue sel s1) = Inr (x, q)" "s' = set_queue sel q s1"
      "t' = t\<lparr>step_skipped_waiting := queue_prepend (objs s1) a (step_skipped_waiting t)\<rparr>"
      using 1(5) by (auto simp: skip_request_def rbind_Inr_iff)
    have "x = a" using queue_pop_mset [OF k(1)] sel [OF P(2)] 1(2) by simp
    then show ?thesis using park [OF P(1) k(1), of s'] k(2,3) by simp
  next
    case (2 sel a s1 comput s2 n p enc new k)
    have P: "I s1 t" "same_queues s s1" using promote [OF _ 2(2)] 2(3) by blast+
    have Q: "same_queues s1 s2" "objs s2 = objs s1" using plan_waiting_queues [OF 2(6)] by simp_all
    let ?s3 = "s2\<lparr>kv := k\<rparr>"
    have R: "I ?s3 t" "same_queues s ?s3"
      using keep [OF P(1), of ?s3] Q same_queues_trans [OF P(2) Q(1)] by simp_all
    obtain nb nl ne la nc where co: "comput = (nb, nl, ne, la, nc)" by (cases comput) auto
    have peek: "queue_peek (sel_queue sel ?s3) = Inr a" using sel [OF R(2)] 2(2) by simp
    from 2(8) [unfolded co] peek show ?thesis
    proof (cases rule: commit_waiting_cases)
      case (1 q)
      show ?thesis unfolding 1(4)
        by (rule park [OF R(1) 1(2)])
          (use 1(3) in \<open>auto simp: upd_req_def same_queues_def is_finished_def is_finished_status_def less_request_status_def\<close>)
    next
      case c: (2 q bs)
      have "0 < token_budget t \<longrightarrow> 0 < n \<and> n \<le> token_budget t"
        using plan_waiting_tokens 2(6) c(1) unfolding co by auto
      from start [OF R(1,2) this c(2)] show ?thesis using c(3-11) by simp
    qed
  next
    case (3 sel a s1)
    have P: "I s1 t" "same_queues s s1" using promote [OF _ 3(2)] 3(3) by blast+
    then show ?thesis using 3(5-7) keep by simp
  qed
qed

text \<open>The running phase skips nobody and the waiting phase preempts nobody.\<close>

lemma running_step_skipped:
  assumes "running_loop env s t i = Inr (s', t')"
  shows "step_skipped_waiting t' = step_skipped_waiting t"
  by (rule running_rule [where I = "\<lambda>s u i. step_skipped_waiting u = step_skipped_waiting t"
        and J = "\<lambda>a n s u i. step_skipped_waiting u = step_skipped_waiting t"
        and F = "\<lambda>s u. step_skipped_waiting u = step_skipped_waiting t", OF assms])
    (simp_all add: pick_victim_skipped commit_running_cases(10))

end
