(* ===== verification/VL_SchedInv.thy ===== *)
theory VL_SchedInv
  imports VL_SchedRules
begin

text \<open>
  Two invariants of a scheduling step and that every piece of it keeps them.  \<open>sched_ok\<close>: every
  request is in one place, with the status of its place, and no live request is lost.
  \<open>step_ok\<close>: the local variables of the step agree with each other and with the running list, and
  the token budget plus the scheduled tokens is constant.
\<close>

subsection \<open>Every request is in one place\<close>

definition all_reqs :: "scheduler \<Rightarrow> nat multiset \<Rightarrow> nat multiset" where
  "all_reqs s extra = mset (running s) + queue_mset (waiting s) + queue_mset (skipped_waiting s) + extra"

definition sched_ok :: "scheduler \<Rightarrow> nat multiset \<Rightarrow> bool" where
  "sched_ok s extra \<longleftrightarrow> (\<forall>a. count (all_reqs s extra) a \<le> 1) \<and>
     (\<forall>a. a \<in># all_reqs s extra \<longrightarrow> map_of (requests s) (request_id (objs s a)) = Some a) \<and>
     distinct (map fst (requests s)) \<and> (\<forall>(rid, a) \<in> set (requests s). request_id (objs s a) = rid) \<and>
     (\<forall>(rid, a) \<in> set (requests s). is_finished (objs s a) \<or> a \<in># all_reqs s extra) \<and>
     (\<forall>a \<in> set (running s). status (objs s a) = RUNNING) \<and>
     (\<forall>a. a \<in># queue_mset (waiting s) + queue_mset (skipped_waiting s) + extra \<longrightarrow>
        status (objs s a) \<noteq> RUNNING \<and> \<not> is_finished (objs s a))"

lemma sched_okD:
  assumes "sched_ok s extra"
  shows "distinct (running s)" "a \<in> set (running s) \<Longrightarrow> status (objs s a) = RUNNING"
    "a \<in># queue_mset (waiting s) + queue_mset (skipped_waiting s) + extra \<Longrightarrow> a \<notin> set (running s)"
    "a \<in># all_reqs s extra \<Longrightarrow> map_of (requests s) (request_id (objs s a)) = Some a"
proof -
  have c: "count (mset (running s)) a + count (queue_mset (waiting s) + queue_mset (skipped_waiting s) + extra) a \<le> 1" for a
    using assms by (auto simp: sched_ok_def all_reqs_def ac_simps)
  show "distinct (running s)"
  proof (rule ccontr)
    assume "\<not> distinct (running s)"
    then obtain a where "count (mset (running s)) a > 1"
      by (metis distinct_count_atmost_1 count_mset_0_iff less_one linorder_neqE_nat)
    then show False using c [of a] by simp
  qed
  show "a \<in> set (running s) \<Longrightarrow> status (objs s a) = RUNNING" using assms by (simp add: sched_ok_def)
  show "a \<in># queue_mset (waiting s) + queue_mset (skipped_waiting s) + extra \<Longrightarrow> a \<notin> set (running s)"
  proof
    assume "a \<in># queue_mset (waiting s) + queue_mset (skipped_waiting s) + extra" "a \<in> set (running s)"
    then have "0 < count (queue_mset (waiting s) + queue_mset (skipped_waiting s) + extra) a" "0 < count (mset (running s)) a"
      by (metis count_greater_zero_iff, metis count_greater_zero_iff set_mset_mset)
    then show False using c [of a] by linarith
  qed
  show "a \<in># all_reqs s extra \<Longrightarrow> map_of (requests s) (request_id (objs s a)) = Some a"
    using assms by (simp add: sched_ok_def)
qed

lemma sched_ok_ids: "sched_ok s extra \<Longrightarrow> inj_on (\<lambda>a. request_id (objs s a)) (set_mset (all_reqs s extra))"
  by (rule inj_onI) (metis sched_okD(4) option.inject)

lemma sched_ok_running_ids: "sched_ok s extra \<Longrightarrow> inj_on (\<lambda>a. request_id (objs s a)) (set (running s))"
  by (rule inj_on_subset [OF sched_ok_ids]) (auto simp: all_reqs_def)

text \<open>Changes that do not concern the invariant, and a move between the places.\<close>

lemma sched_ok_cong:
  assumes "sched_ok s extra" "all_reqs s' extra' = all_reqs s extra" "mset (running s') = mset (running s)"
    and "requests s' = requests s" "\<And>a. request_id (objs s' a) = request_id (objs s a)"
    and "\<And>a. status (objs s' a) = status (objs s a) \<or>
      a \<in># all_reqs s extra \<and> a \<notin> set (running s) \<and> status (objs s' a) \<noteq> RUNNING \<and> \<not> is_finished (objs s' a)"
  shows "sched_ok s' extra'"
proof -
  have q: "queue_mset (waiting s') + queue_mset (skipped_waiting s') + extra'
    = queue_mset (waiting s) + queue_mset (skipped_waiting s) + extra"
    using assms(2,3) by (simp add: all_reqs_def add.assoc)
  have run: "set (running s') = set (running s)" using assms(3) by (rule mset_eq_setD)
  have st: "status (objs s' a) \<noteq> RUNNING \<and> \<not> is_finished (objs s' a)"
    if "status (objs s a) \<noteq> RUNNING \<and> \<not> is_finished (objs s a)" for a
    using assms(6) [of a] that by (auto simp: is_finished_def)
  have live: "is_finished (objs s' a) \<or> a \<in># all_reqs s extra" if "is_finished (objs s a) \<or> a \<in># all_reqs s extra" for a
    using assms(6) [of a] that by (auto simp: is_finished_def)
  have "\<forall>(rid, a) \<in> set (requests s). is_finished (objs s' a) \<or> a \<in># all_reqs s extra"
    using assms(1) live unfolding sched_ok_def by blast
  moreover have "\<forall>a \<in> set (running s). status (objs s' a) = RUNNING"
    using assms(1,6) unfolding sched_ok_def by metis
  moreover have "\<forall>a. a \<in># queue_mset (waiting s) + queue_mset (skipped_waiting s) + extra \<longrightarrow>
        status (objs s' a) \<noteq> RUNNING \<and> \<not> is_finished (objs s' a)"
    using assms(1) st unfolding sched_ok_def by blast
  ultimately show ?thesis
    using assms(1) unfolding sched_ok_def q run assms(2,4,5) by blast
qed

lemma sched_ok_same:
  assumes "same_queues s s'" "\<And>x. request_id (objs s' x) = request_id (objs s x)" "\<And>x. status (objs s' x) = status (objs s x)"
  shows "sched_ok s' extra = sched_ok s extra" "all_reqs s' extra = all_reqs s extra"
proof -
  have q: "waiting s' = waiting s" "skipped_waiting s' = skipped_waiting s" "running s' = running s" "requests s' = requests s"
    using assms(1) by (simp_all add: same_queues_def)
  show all: "all_reqs s' extra = all_reqs s extra" by (simp add: all_reqs_def q)
  show "sched_ok s' extra = sched_ok s extra"
    unfolding sched_ok_def is_finished_def q assms(2,3) all by (rule refl)
qed

lemma sched_ok_requeue:
  assumes ok: "sched_ok s extra" and v: "v \<in> set (running s)"
    and s': "running s' = remove1 v (running s)"
      "queue_mset (waiting s') + queue_mset (skipped_waiting s') = add_mset v (queue_mset (waiting s) + queue_mset (skipped_waiting s))"
      "requests s' = requests s" "objs s' = (objs s)(v := r)" "request_id r = request_id (objs s v)"
      "status r \<noteq> RUNNING" "\<not> is_finished r"
  shows "sched_ok s' extra" "all_reqs s' extra = all_reqs s extra"
proof -
  have m: "add_mset v (mset (remove1 v (running s))) = mset (running s)" using v by simp
  have "all_reqs s' extra = add_mset v (mset (remove1 v (running s))) + (queue_mset (waiting s)
      + queue_mset (skipped_waiting s)) + extra"
    using s'(1,2) by (simp add: all_reqs_def add.assoc)
  then show all: "all_reqs s' extra = all_reqs s extra" unfolding m by (simp add: all_reqs_def add.assoc)
  have d: "distinct (running s)" by (rule sched_okD(1) [OF ok])
  have run: "set (running s') = set (running s) - {v}" using d s'(1) by simp
  have ids: "request_id (objs s' a) = request_id (objs s a)" for a using s' by simp
  show "sched_ok s' extra"
    unfolding sched_ok_def all ids s'(2,3)
  proof (intro conjI allI impI ballI)
    fix a assume "a \<in> set (running s')"
    then show "status (objs s' a) = RUNNING" using run sched_okD(2) [OF ok] s'(4) by simp
  next
    fix a assume a: "a \<in># add_mset v (queue_mset (waiting s) + queue_mset (skipped_waiting s)) + extra"
    show "status (objs s' a) \<noteq> RUNNING" "\<not> is_finished (objs s' a)"
      using a ok s'(4,6,7) by (auto simp: sched_ok_def)
  next
    fix x assume x: "x \<in> set (requests s)"
    obtain rid a where xa: "x = (rid, a)" by (cases x)
    have "a = v \<Longrightarrow> a \<in># all_reqs s extra" using v by (simp add: all_reqs_def)
    moreover have "is_finished (objs s a) \<or> a \<in># all_reqs s extra" using ok x unfolding xa sched_ok_def by blast
    ultimately show "case x of (rid, a) \<Rightarrow> is_finished (objs s' a) \<or> a \<in># all_reqs s extra"
      unfolding xa using s'(4) by (cases "a = v") auto
  qed (use ok in \<open>auto simp: sched_ok_def\<close>)
qed

lemma sched_ok_preempt:
  assumes ok: "sched_ok s extra" and v: "v \<in> set (running s)"
    and s': "running s' = remove1 v (running s)" "queue_mset (waiting s') = add_mset v (queue_mset (waiting s))"
      "skipped_waiting s' = skipped_waiting s" "requests s' = requests s"
      "objs s' = (objs s)(v := r)" "request_id r = request_id (objs s v)" "status r = PREEMPTED"
  shows "sched_ok s' extra" "all_reqs s' extra = all_reqs s extra"
proof -
  have r: "status r \<noteq> RUNNING" "\<not> is_finished r" using s'(7)
    by (simp_all add: is_finished_def is_finished_status_def less_request_status_def)
  have q: "queue_mset (waiting s') + queue_mset (skipped_waiting s') = add_mset v (queue_mset (waiting s) + queue_mset (skipped_waiting s))"
    using s'(2,3) by simp
  show "sched_ok s' extra" "all_reqs s' extra = all_reqs s extra"
    by (rule sched_ok_requeue [OF ok v s'(1) q s'(4-6) r])+
qed

subsection \<open>The accounts of a step\<close>

definition step_ok :: "int option \<Rightarrow> scheduler \<Rightarrow> sched_step \<Rightarrow> bool" where
  "step_ok B s t \<longleftrightarrow> distinct (scheduled_reqs t) \<and> set (scheduled_reqs t) \<subseteq> set (running s) \<and>
     distinct (map fst (num_scheduled_tokens t)) \<and> distinct (map fst (req_to_new_blocks t)) \<and>
     fst ` set (num_scheduled_tokens t) = (\<lambda>a. request_id (objs s a)) ` set (scheduled_reqs t) \<and>
     fst ` set (req_to_new_blocks t) = (\<lambda>a. request_id (objs s a)) ` set (scheduled_reqs t) \<and>
     (\<forall>a \<in> set (preempted_reqs t). a \<in># queue_mset (waiting s)) \<and>
     (\<forall>b. B = Some b \<longrightarrow> (\<forall>(rid, n) \<in> set (num_scheduled_tokens t). 0 < n) \<and>
       token_budget t + total_scheduled t = b \<and> 0 \<le> token_budget t)"

lemma sum_update_new: "k \<notin> fst ` set d \<Longrightarrow> sum_list (map snd (AList.update k n d)) = sum_list (map snd d) + (n::int)"
  by (induction d) auto

lemma sum_delete: "distinct (map fst d) \<Longrightarrow> map_of d k = Some n \<Longrightarrow>
    sum_list (map snd (AList.delete k d)) = sum_list (map snd d) - (n::int)"
proof (induction d)
  case (Cons x d)
  have "AList.delete k d = d" if "k \<notin> fst ` set d" using that by (simp add: delete_idem)
  then show ?case using Cons by (cases x) (auto simp: image_iff split: if_splits)
qed simp

lemma set_update_new: "k \<notin> fst ` set d \<Longrightarrow> set (AList.update k n d) = insert (k, n) (set d)"
  by (induction d) auto

lemma set_delete_subset: "set (AList.delete k d) \<subseteq> set d"
  by (auto simp: AList.delete_eq)

lemma keys_delete: "fst ` set (AList.delete k d) = fst ` set d - {k}"
  by (auto simp: AList.delete_eq image_iff)

text \<open>Scheduling one more request.\<close>

lemma step_ok_add:
  assumes ok: "step_ok B s t" and a: "a \<in> set (running s')" "a \<notin> set (scheduled_reqs t)"
    and s': "set (running s) \<subseteq> set (running s')" "\<And>x. request_id (objs s' x) = request_id (objs s x)"
      "inj_on (\<lambda>x. request_id (objs s x)) (set (running s'))" "queue_mset (waiting s) \<subseteq># queue_mset (waiting s') + {#a#}"
      "a \<notin> set (preempted_reqs t)"
    and t': "mset (scheduled_reqs t') = add_mset a (mset (scheduled_reqs t))"
      "num_scheduled_tokens t' = AList.update (request_id (objs s a)) n (num_scheduled_tokens t)"
      "req_to_new_blocks t' = AList.update (request_id (objs s a)) bs (req_to_new_blocks t)"
      "token_budget t' = token_budget t - n" "preempted_reqs t' = preempted_reqs t"
    and n: "B \<noteq> None \<Longrightarrow> 0 < n \<and> n \<le> token_budget t"
  shows "step_ok B s' t'"
proof -
  let ?rid = "\<lambda>x. request_id (objs s x)"
  have S: "set (scheduled_reqs t') = insert a (set (scheduled_reqs t))" using t'(1) by (metis set_mset_mset set_mset_add_mset_insert)
  have "distinct (a # scheduled_reqs t)" using ok a(2) by (simp add: step_ok_def)
  then have d: "distinct (scheduled_reqs t')" using t'(1) by (metis mset.simps(2) mset_eq_imp_distinct_iff)
  have sub: "set (scheduled_reqs t) \<subseteq> set (running s')" using ok s'(1) by (auto simp: step_ok_def)
  have new: "?rid a \<notin> ?rid ` set (scheduled_reqs t)" using inj_onD [OF s'(3)] a sub by blast
  then have k: "?rid a \<notin> fst ` set (num_scheduled_tokens t)" "?rid a \<notin> fst ` set (req_to_new_blocks t)"
    using ok by (simp_all add: step_ok_def)
  have pre: "x \<in># queue_mset (waiting s')" if "x \<in> set (preempted_reqs t)" for x
  proof -
    have "x \<in># queue_mset (waiting s)" "x \<noteq> a" using that ok s'(5) by (auto simp: step_ok_def)
    then show ?thesis using mset_subset_eqD [OF s'(4), of x] by auto
  qed
  have "(\<forall>(rid, n) \<in> set (num_scheduled_tokens t'). 0 < n) \<and> token_budget t' + total_scheduled t' = b \<and> 0 \<le> token_budget t'"
    if "B = Some b" for b
    using ok n that k(1) t'(2,4) by (simp add: step_ok_def sum_update_new set_update_new total_scheduled_def)
  then show ?thesis
    using ok S d sub a(1) k t'(2,3,5) pre unfolding step_ok_def s'(2)
    by (simp add: distinct_update dom_update set_update_new)
qed

text \<open>Undoing one, and changes elsewhere.\<close>

lemma unschedule_step_ok:
  assumes ok: "step_ok B s t" and inj: "inj_on (\<lambda>x. request_id (objs s x)) (set (running s))"
    and v: "v \<in> set (scheduled_running_reqs t)"
    and u: "unschedule (objs s v) v t = Inr t'"
  shows "step_ok B s t' \<and> scheduled_running_reqs t' = remove1 v (scheduled_running_reqs t) \<and>
    set (scheduled_reqs t') = set (scheduled_reqs t) - {v} \<and> (B \<noteq> None \<longrightarrow> token_budget t \<le> token_budget t') \<and>
    scheduled_new_reqs t' = scheduled_new_reqs t \<and> scheduled_resumed_reqs t' = scheduled_resumed_reqs t \<and>
    preempted_reqs t' = preempted_reqs t \<and> step_skipped_waiting t' = step_skipped_waiting t"
proof -
  let ?rid = "\<lambda>x. request_id (objs s x)"
  obtain n bs where m: "map_of (num_scheduled_tokens t) (?rid v) = Some n" "map_of (req_to_new_blocks t) (?rid v) = Some bs"
    using u by (auto simp: unschedule_def Let_def split: option.splits)
  obtain e where e: "(case map_of (scheduled_encoder_inputs t) (?rid v) of None \<Rightarrow> Inr 0 | Some is \<Rightarrow> sum_encoder_embeds (objs s v) is) = Inr e"
    using u m by (auto simp: unschedule_def Let_def rbind_Inr_iff)
  have t'2: "t' = t\<lparr>scheduled_running_reqs := remove1 v (scheduled_running_reqs t), token_budget := token_budget t + n,
      num_scheduled_tokens := AList.delete (?rid v) (num_scheduled_tokens t),
      req_to_new_blocks := AList.delete (?rid v) (req_to_new_blocks t),
      scheduled_spec_decode_tokens := AList.delete (?rid v) (scheduled_spec_decode_tokens t),
      scheduled_encoder_inputs := AList.delete (?rid v) (scheduled_encoder_inputs t),
      encoder_budget := encoder_budget t + e\<rparr>"
    using u m e by (simp add: unschedule_def Let_def)
  have t': "scheduled_running_reqs t' = remove1 v (scheduled_running_reqs t)" "token_budget t' = token_budget t + n"
    "num_scheduled_tokens t' = AList.delete (?rid v) (num_scheduled_tokens t)"
    "req_to_new_blocks t' = AList.delete (?rid v) (req_to_new_blocks t)"
    "scheduled_new_reqs t' = scheduled_new_reqs t" "scheduled_resumed_reqs t' = scheduled_resumed_reqs t"
    "preempted_reqs t' = preempted_reqs t" "step_skipped_waiting t' = step_skipped_waiting t"
    unfolding t'2 by simp_all
  have d: "distinct (scheduled_reqs t)" and sub: "set (scheduled_reqs t) \<subseteq> set (running s)"
    using ok by (simp_all add: step_ok_def)
  have vin: "v \<in> set (scheduled_reqs t)" using v by (simp add: scheduled_reqs_def)
  have S: "set (scheduled_reqs t') = set (scheduled_reqs t) - {v}" "distinct (scheduled_reqs t')"
    using d v t'(1,5,6) by (auto simp: scheduled_reqs_def distinct_remove1)
  have img: "?rid ` (set (scheduled_reqs t) - {v}) = ?rid ` set (scheduled_reqs t) - {?rid v}"
    using inj_on_image_set_diff [OF inj, of "set (scheduled_reqs t)" "{v}"] sub vin by auto
  have tot: "total_scheduled t' = total_scheduled t - n"
    using sum_delete [OF _ m(1)] ok t'(3) by (simp add: step_ok_def total_scheduled_def)
  have keys: "fst ` set (num_scheduled_tokens t') = ?rid ` set (scheduled_reqs t')"
    "fst ` set (req_to_new_blocks t') = ?rid ` set (scheduled_reqs t')"
    unfolding S(1) img using ok t'(3,4) by (simp_all add: step_ok_def keys_delete)
  have dist: "distinct (map fst (num_scheduled_tokens t'))" "distinct (map fst (req_to_new_blocks t'))"
    using ok t'(3,4) by (simp_all add: step_ok_def distinct_delete)
  have amounts: "(\<forall>(rid, n) \<in> set (num_scheduled_tokens t'). 0 < n) \<and> token_budget t' + total_scheduled t' = b \<and>
      0 \<le> token_budget t' \<and> 0 < n" if "B = Some b" for b
  proof -
    have A: "\<forall>(rid, n) \<in> set (num_scheduled_tokens t). 0 < n" "token_budget t + total_scheduled t = b" "0 \<le> token_budget t"
      using ok that unfolding step_ok_def by blast+
    have "0 < n" using A(1) map_of_SomeD [OF m(1)] by blast
    moreover have "\<forall>(rid, n) \<in> set (num_scheduled_tokens t'). 0 < n"
      unfolding t'(3) using A(1) set_delete_subset by fast
    ultimately show ?thesis using A(2,3) tot t'(2) by simp
  qed
  have "set (scheduled_reqs t') \<subseteq> set (running s)" using S(1) sub by blast
  moreover have "\<forall>a \<in> set (preempted_reqs t'). a \<in># queue_mset (waiting s)" using ok t'(7) unfolding step_ok_def by simp
  ultimately have "step_ok B s t'"
    unfolding step_ok_def using S(2) keys dist amounts by blast
  moreover have "B \<noteq> None \<longrightarrow> token_budget t \<le> token_budget t'" using amounts t'(2) by force
  ultimately show ?thesis using S(1) t' by simp
qed

lemma step_ok_preempt:
  assumes ok: "step_ok B s t" and v: "v \<notin> set (scheduled_reqs t)"
    and s': "running s' = remove1 v (running s)" "queue_mset (waiting s') = add_mset v (queue_mset (waiting s))"
      "\<And>x. request_id (objs s' x) = request_id (objs s x)"
  shows "step_ok B s' (t\<lparr>preempted_reqs := preempted_reqs t @ [v]\<rparr>)"
proof -
  have "set (scheduled_reqs t) \<subseteq> set (running s')"
  proof
    fix x assume "x \<in> set (scheduled_reqs t)"
    then have "x \<noteq> v" "x \<in> set (running s)" using ok v by (auto simp: step_ok_def)
    then show "x \<in> set (running s')" using s'(1) by simp
  qed
  then show ?thesis using ok s' by (auto simp: step_ok_def scheduled_reqs_def total_scheduled_def)
qed

lemma step_ok_cong:
  assumes "step_ok B s t" "running s' = running s" "waiting s' = waiting s" "\<And>x. request_id (objs s' x) = request_id (objs s x)"
  shows "step_ok B s' t"
  using assms by (simp add: step_ok_def)

subsection \<open>The running requests\<close>

definition run_inv :: "nat multiset \<Rightarrow> int option \<Rightarrow> scheduler \<Rightarrow> sched_step \<Rightarrow> int \<Rightarrow> bool" where
  "run_inv Q B s t i \<longleftrightarrow> all_reqs s {#} = Q \<and> sched_ok s {#} \<and> step_ok B s t \<and> step_skipped_waiting t = create_request_queue (policy (cfg s)) \<and>
     scheduled_new_reqs t = [] \<and> scheduled_resumed_reqs t = [] \<and> 0 \<le> i \<and>
     set (scheduled_running_reqs t) \<subseteq> set (take (nat i) (running s)) \<and>
     (B \<noteq> None \<longrightarrow> (\<forall>a \<in> set (running s) - set (scheduled_running_reqs t). req_fits (cfg s) (objs s a)))"

definition alloc_inv :: "nat multiset \<Rightarrow> int option \<Rightarrow> nat \<Rightarrow> int \<Rightarrow> scheduler \<Rightarrow> sched_step \<Rightarrow> int \<Rightarrow> bool" where
  "alloc_inv Q B a n s t i \<longleftrightarrow> run_inv Q B s t i \<and> a \<in> set (take (Suc (nat i)) (running s)) \<and>
     a \<notin> set (scheduled_running_reqs t) \<and> (B \<noteq> None \<longrightarrow> 0 < n \<and> n \<le> token_budget t) \<and>
     (policy (cfg s) = FCFS \<longrightarrow> nat i < length (running s) \<and> running s ! nat i = a)"

lemma run_inv_queues:
  assumes "run_inv Q B s t i" "same_queues s s'" "objs s' = objs s"
  shows "run_inv Q B s' t i"
proof -
  have "all_reqs s' {#} = all_reqs s {#}" using assms(2) by (simp add: same_queues_def all_reqs_def)
  moreover have "sched_ok s' {#}"
    by (rule sched_ok_cong [of s "{#}"]) (use assms in \<open>auto simp: run_inv_def same_queues_def all_reqs_def\<close>)
  ultimately show ?thesis using assms by (auto simp: run_inv_def same_queues_def step_ok_def)
qed

lemma run_inv_next: "run_inv Q B s t i \<Longrightarrow> run_inv Q B s t (i + 1)"
proof -
  assume r: "run_inv Q B s t i"
  have "set (take (nat i) (running s)) \<subseteq> set (take (nat (i + 1)) (running s))" by (rule set_take_subset_set_take) simp
  then show ?thesis using r unfolding run_inv_def by auto
qed

text \<open>A preemption keeps the accounts, whoever is the victim.\<close>

lemma preempt_run:
  assumes inv: "alloc_inv Q B a n s t i" and p: "pick_victim s t i = Inr (v, s2, t2, i2)" and q: "preempt_request v s2 = Inr s3"
  defines "t3 \<equiv> t2\<lparr>preempted_reqs := preempted_reqs t2 @ [v]\<rparr>"
  shows "run_inv Q B s3 t3 i2 \<and> (v \<noteq> a \<longrightarrow> alloc_inv Q B a n s3 t3 i2)"
proof -
  have r: "run_inv Q B s t i" and a: "a \<in> set (take (Suc (nat i)) (running s))" "a \<notin> set (scheduled_running_reqs t)"
    "B \<noteq> None \<Longrightarrow> 0 < n \<and> n \<le> token_budget t" "policy (cfg s) = FCFS \<Longrightarrow> nat i < length (running s) \<and> running s ! nat i = a"
    using inv by (auto simp: alloc_inv_def)
  have ok: "sched_ok s {#}" "step_ok B s t" and i: "0 \<le> i" "set (scheduled_running_reqs t) \<subseteq> set (take (nat i) (running s))"
    and new: "scheduled_new_reqs t = []" "scheduled_resumed_reqs t = []"
    and skip: "step_skipped_waiting t = create_request_queue (policy (cfg s))"
    and Q: "all_reqs s {#} = Q"
    and fits: "B \<noteq> None \<Longrightarrow> \<forall>a \<in> set (running s) - set (scheduled_running_reqs t). req_fits (cfg s) (objs s a)"
    using r by (auto simp: run_inv_def)
  have d: "distinct (running s)" by (rule sched_okD(1) [OF ok(1)])
  have S: "set (scheduled_reqs t) = set (scheduled_running_reqs t)" using new by (simp add: scheduled_reqs_def)
  have v: "v \<in> set (running s)" by (rule pick_victim_running(1) [OF p])
  note P = pick_victim_cases [OF p d]
  obtain r where R: "objs s3 = (objs s2)(v := r)" "request_id r = request_id (objs s2 v)"
    "status r = PREEMPTED" "queue_mset (waiting s3) = add_mset v (queue_mset (waiting s2))" "same_queues s2 (s3\<lparr>waiting := waiting s2\<rparr>)"
    by (rule preempt_request_cases [OF q])
  have s3: "running s3 = remove1 v (running s)" "queue_mset (waiting s3) = add_mset v (queue_mset (waiting s))"
    "skipped_waiting s3 = skipped_waiting s" "requests s3 = requests s" "objs s3 = (objs s)(v := r)"
    "request_id r = request_id (objs s v)" "cfg s3 = cfg s"
    using R P(1) by (simp_all add: same_queues_def)
  note K = sched_ok_preempt [OF ok(1) v s3(1-6) R(3)]
  have ids: "request_id (objs s3 x) = request_id (objs s x)" for x using s3(5,6) by simp
  have notlast: "v \<notin> set (scheduled_running_reqs t)" if "policy (cfg s) = FCFS" "v = last (running s)"
  proof
    assume "v \<in> set (scheduled_running_reqs t)"
    then have "v \<in> set (take (nat i) (running s))" using i(2) by auto
    then obtain j where j: "j < nat i" "j < length (running s)" "running s ! j = v" by (auto simp: in_set_conv_nth)
    have "running s ! (length (running s) - 1) = v" using that(2) v by (cases "running s = []") (simp_all add: last_conv_nth)
    then have "j = length (running s) - 1" using j d nth_eq_iff_index_eq [OF d j(2), of "length (running s) - 1"] by auto
    then show False using a(4) [OF that(1)] j by linarith
  qed
  have dt: "distinct (scheduled_running_reqs t)" using ok(2) by (simp add: step_ok_def scheduled_reqs_def)
  have T: "step_ok B s t2" "set (scheduled_reqs t2) = set (scheduled_reqs t) - {v}" "B \<noteq> None \<Longrightarrow> token_budget t \<le> token_budget t2"
      "set (scheduled_running_reqs t2) = set (scheduled_running_reqs t) - {v}"
      "scheduled_new_reqs t2 = []" "scheduled_resumed_reqs t2 = []" "step_skipped_waiting t2 = step_skipped_waiting t"
    and I: "0 \<le> i2" "set (take (nat i) (running s)) - {v} \<subseteq> set (take (nat i2) (running s3))"
      "set (take (Suc (nat i)) (running s)) - {v} \<subseteq> set (take (Suc (nat i2)) (running s3))"
    and F: "policy (cfg s) = FCFS \<Longrightarrow> i2 = i \<and> v = last (running s)"
  proof -
    consider (keep) "t2 = t" "i2 = i" "v \<notin> set (scheduled_running_reqs t)" "policy (cfg s) = FCFS \<longrightarrow> v = last (running s)"
      | (undo) "policy (cfg s) = PRIORITY" "v \<in> set (scheduled_running_reqs t)" "unschedule (objs s v) v t = Inr t2" "i2 = i - 1"
      using P(2) notlast by (metis scheduling_policy.distinct(1))
    note cases = this
    have U: "step_ok B s t2 \<and> scheduled_running_reqs t2 = remove1 v (scheduled_running_reqs t) \<and>
        set (scheduled_reqs t2) = set (scheduled_reqs t) - {v} \<and> (B \<noteq> None \<longrightarrow> token_budget t \<le> token_budget t2) \<and>
        scheduled_new_reqs t2 = scheduled_new_reqs t \<and> scheduled_resumed_reqs t2 = scheduled_resumed_reqs t \<and>
        preempted_reqs t2 = preempted_reqs t \<and> step_skipped_waiting t2 = step_skipped_waiting t"
    proof (rule cases)
      assume "t2 = t" "v \<notin> set (scheduled_running_reqs t)"
      then show ?thesis using ok(2) S by (simp add: remove1_idem)
    next
      assume "v \<in> set (scheduled_running_reqs t)" "unschedule (objs s v) v t = Inr t2"
      then show ?thesis using unschedule_step_ok [OF ok(2) sched_ok_running_ids [OF ok(1)]] by blast
    qed
    show "step_ok B s t2" "set (scheduled_reqs t2) = set (scheduled_reqs t) - {v}" "B \<noteq> None \<Longrightarrow> token_budget t \<le> token_budget t2"
      "set (scheduled_running_reqs t2) = set (scheduled_running_reqs t) - {v}"
      "scheduled_new_reqs t2 = []" "scheduled_resumed_reqs t2 = []" "step_skipped_waiting t2 = step_skipped_waiting t"
      using U new dt by simp_all
    have J: "0 \<le> i2 \<and> set (take (nat i) (running s)) - {v} \<subseteq> set (take (nat i2) (running s3)) \<and>
      set (take (Suc (nat i)) (running s)) - {v} \<subseteq> set (take (Suc (nat i2)) (running s3)) \<and>
      (policy (cfg s) = FCFS \<longrightarrow> i2 = i \<and> v = last (running s))"
    proof (rule cases)
      assume "i2 = i" "policy (cfg s) = FCFS \<longrightarrow> v = last (running s)"
      then show ?thesis unfolding s3(1) using i(1) take_remove1 [OF d] by blast
    next
      assume u: "policy (cfg s) = PRIORITY" "v \<in> set (scheduled_running_reqs t)" "i2 = i - 1"
      have vin: "v \<in> set (take (nat i) (running s))" using u(2) i(2) by blast
      then have "0 < nat i" by (cases "nat i") auto
      then have n: "0 \<le> i2" "nat i2 = nat i - 1" "Suc (nat i2) = nat i" using u(3) by linarith+
      show ?thesis unfolding s3(1) n(2,3)
        using n(1) u(1) take_remove1_pred [OF d vin] take_remove1_in [OF d vin] n(3) by simp
    qed
    then show "0 \<le> i2" "set (take (nat i) (running s)) - {v} \<subseteq> set (take (nat i2) (running s3))"
      "set (take (Suc (nat i)) (running s)) - {v} \<subseteq> set (take (Suc (nat i2)) (running s3))"
      by blast+
    show "policy (cfg s) = FCFS \<Longrightarrow> i2 = i \<and> v = last (running s)" using J by blast
  qed
  have run3: "run_inv Q B s3 t3 i2"
  proof -
    have "step_ok B s3 t3"
      unfolding t3_def by (rule step_ok_preempt [OF T(1) _ s3(1,2) ids]) (simp add: T(2))
    moreover have "set (scheduled_running_reqs t3) \<subseteq> set (take (nat i2) (running s3))"
      using i(2) I(2) T(4) by (auto simp: t3_def)
    moreover have "\<forall>x \<in> set (running s3) - set (scheduled_running_reqs t3). req_fits (cfg s3) (objs s3 x)" if "B \<noteq> None"
      using that fits T(4) s3(1,5,7) d by (auto simp: t3_def)
    ultimately show ?thesis using K Q T(5-7) I(1) skip s3(7) by (simp add: run_inv_def t3_def)
  qed
  moreover have "alloc_inv Q B a n s3 t3 i2" if "v \<noteq> a"
  proof -
    have "policy (cfg s3) = FCFS \<Longrightarrow> nat i2 < length (running s3) \<and> running s3 ! nat i2 = a"
    proof -
      assume f: "policy (cfg s3) = FCFS"
      note A = a(4) [OF f [unfolded s3(7)]] and L = F [OF f [unfolded s3(7)]]
      have ne: "running s \<noteq> []" using v by auto
      then have "nat i \<noteq> length (running s) - 1" using A L that by (metis last_conv_nth)
      then have "nat i < length (butlast (running s))" using A by (simp only: length_butlast) linarith
      then show ?thesis using A L s3(1) remove1_last [OF d ne] by (simp add: nth_butlast)
    qed
    then show ?thesis using run3 a I(3) T(3,4) that by (auto simp: alloc_inv_def t3_def)
  qed
  ultimately show ?thesis by blast
qed

subsection \<open>The running phase\<close>

lemma commit_run:
  assumes inv: "alloc_inv Q B a n s t i" and c: "commit_running a n p bs s t = Inr (s', t')"
  shows "run_inv Q B s' t' (i + 1)"
proof -
  have r: "run_inv Q B s t i" and a: "a \<in> set (take (Suc (nat i)) (running s))" "a \<notin> set (scheduled_running_reqs t)"
    "B \<noteq> None \<Longrightarrow> 0 < n \<and> n \<le> token_budget t"
    using inv by (auto simp: alloc_inv_def)
  have ok: "sched_ok s {#}" "step_ok B s t" and i: "0 \<le> i" "set (scheduled_running_reqs t) \<subseteq> set (take (nat i) (running s))"
    and new: "scheduled_new_reqs t = []" "scheduled_resumed_reqs t = []"
    and skip: "step_skipped_waiting t = create_request_queue (policy (cfg s))"
    and Q: "all_reqs s {#} = Q"
    and fits: "B \<noteq> None \<Longrightarrow> \<forall>a \<in> set (running s) - set (scheduled_running_reqs t). req_fits (cfg s) (objs s a)"
    using r by (auto simp: run_inv_def)
  note C = commit_running_cases [OF c]
  have q: "waiting s' = waiting s" "skipped_waiting s' = skipped_waiting s" "running s' = running s"
      "requests s' = requests s" "cfg s' = cfg s" using C(1) by (auto simp: same_queues_def)
  have ids: "request_id (objs s' x) = request_id (objs s x)" for x using C(2) by simp
  have S: "scheduled_reqs t = scheduled_running_reqs t" "scheduled_reqs t' = scheduled_running_reqs t @ [a]"
    using new C(3-5) by (simp_all add: scheduled_reqs_def)
  have ar: "a \<in> set (running s)" using a(1) by (rule in_set_takeD)
  have notpre: "a \<notin> set (preempted_reqs t)"
    using ok(2) ar sched_okD(3) [OF ok(1), of a] by (auto simp: step_ok_def)
  have all: "all_reqs s' {#} = all_reqs s {#}" using q by (simp add: all_reqs_def)
  have ok': "sched_ok s' {#}"
    by (rule sched_ok_cong [OF ok(1) all]) (use q ids C(2) in auto)
  have "step_ok B s' t'"
    by (rule step_ok_add [OF ok(2), where a = a and n = n and bs = bs])
      (use ar a S C ids q notpre sched_ok_running_ids [OF ok(1)] in auto)
  moreover have "set (scheduled_running_reqs t') \<subseteq> set (take (nat (i + 1)) (running s'))"
  proof -
    have n: "nat (i + 1) = Suc (nat i)" using i(1) by simp
    have "set (take (nat i) (running s)) \<subseteq> set (take (Suc (nat i)) (running s))" by (rule set_take_subset_set_take) simp
    then show ?thesis unfolding n q(3) C(3) using i(2) a(1) by auto
  qed
  moreover have "\<forall>x \<in> set (running s') - set (scheduled_running_reqs t'). req_fits (cfg s') (objs s' x)" if "B \<noteq> None"
    using fits [OF that] C(2,3) q by auto
  ultimately show ?thesis using ok' all Q C(4,5,10) new skip q(5) i(1) by (simp add: run_inv_def)
qed

definition phase_inv :: "nat multiset \<Rightarrow> int option \<Rightarrow> sched_config \<Rightarrow> scheduler \<Rightarrow> sched_step \<Rightarrow> bool" where
  "phase_inv Q B c s t \<longleftrightarrow> all_reqs s (queue_mset (step_skipped_waiting t)) = Q \<and> sched_ok s (queue_mset (step_skipped_waiting t)) \<and>
     step_ok B s t \<and> cfg s = c \<and> length (running s) \<le> max_num_running_reqs c"

lemma run_inv_phase:
  "run_inv Q B s t i \<Longrightarrow> cfg s = c \<Longrightarrow> length (running s) \<le> max_num_running_reqs c \<Longrightarrow> phase_inv Q B c s t"
  by (simp add: run_inv_def phase_inv_def)

lemma running_phase:
  assumes run: "running_loop env s t 0 = Inr (s', t')"
    and inv: "run_inv Q B s t 0" "cfg s = c" "length (running s) \<le> max_num_running_reqs c"
  shows "phase_inv Q B c s' t' \<and> step_skipped_waiting t' = create_request_queue (policy c) \<and>
    scheduled_new_reqs t' = [] \<and> scheduled_resumed_reqs t' = []"
proof -
  let ?L = "\<lambda>s. cfg s = c \<and> length (running s) \<le> max_num_running_reqs c"
  let ?I = "\<lambda>s t i. run_inv Q B s t i \<and> ?L s" and ?J = "\<lambda>a n s t i. alloc_inv Q B a n s t i \<and> ?L s"
  let ?F = "\<lambda>s t. phase_inv Q B c s t \<and> step_skipped_waiting t = create_request_queue (policy c) \<and>
    scheduled_new_reqs t = [] \<and> scheduled_resumed_reqs t = []"
  have fin: "?F s t" if "run_inv Q B s t i" "?L s" for s t i
    using run_inv_phase [OF that(1)] that by (simp add: run_inv_def)
  show ?thesis
  proof (rule running_rule [where I = ?I and J = ?J and F = ?F, OF run])
    show "?I s t 0" using inv by simp
  next
    fix s t i assume "?I s t i"
    then show "?I s t (i + 1)" using run_inv_next by blast
  next
    fix s t i p s1 assume I: "?I s t i" "i < int (length (running s))"
      and b: "token_budget t > 0"
      and p: "plan_running env (list_index (running s) i) s t = Inr (0, p, s1)"
    have fr: "objs s1 = objs s" "same_queues s s1" using plan_running_frame [OF p] by simp_all
    moreover have "run_inv Q B s1 t (i + 1)"
      by (rule run_inv_next, rule run_inv_queues [of Q B s]) (use I(1) fr in simp_all)
    ultimately show "?I s1 t (i + 1)" using I(1) by (simp add: same_queues_def)
  next
    fix s t i n p s1 assume I: "?I s t i" "i < int (length (running s))" and b: "token_budget t > 0"
      and p: "plan_running env (list_index (running s) i) s t = Inr (n, p, s1)" and n: "n \<noteq> 0"
    let ?a = "list_index (running s) i"
    have fr: "objs s1 = objs s" "same_queues s s1" using plan_running_frame [OF p] by simp_all
    have inv1: "run_inv Q B s1 t i" using run_inv_queues I(1) fr by blast
    have i: "0 \<le> i" "sched_ok s {#}" using I(1) by (auto simp: run_inv_def)
    have a: "?a = running s ! nat i" "nat i < length (running s)" using i I(2) by (auto simp: list_index_def)
    have d: "distinct (running s)" by (rule sched_okD(1) [OF i(2)])
    have notin: "?a \<notin> set (scheduled_running_reqs t)"
    proof
      assume "?a \<in> set (scheduled_running_reqs t)"
      then have "running s ! nat i \<in> set (take (nat i) (running s))" using I(1) a(1) by (auto simp: run_inv_def)
      then obtain j where "j < nat i" "running s ! j = running s ! nat i" by (auto simp: in_set_conv_nth)
      then show False using d a(2) by (simp add: nth_eq_iff_index_eq)
    qed
    have "?a \<in> set (running s)" using a by simp
    then have "req_fits (cfg s) (objs s ?a)" if "B \<noteq> None" using I(1) notin that unfolding run_inv_def by blast
    then have P: "B \<noteq> None \<Longrightarrow> 0 < n \<and> n \<le> token_budget t" using plan_running_tokens [OF p _ b] n by fastforce
    have "?a \<in> set (take (Suc (nat i)) (running s))" using a by (simp add: take_Suc_conv_app_nth)
    then show "?J ?a n s1 t i"
      using inv1 notin P n a I(1) fr(2) by (auto simp: alloc_inv_def same_queues_def)
  next
    fix a n s t i k x assume "?J a n s t i"
    then show "?J a n (s\<lparr>kv := k\<rparr>) t i"
      using run_inv_queues [of Q B s t i "s\<lparr>kv := k\<rparr>"] by (auto simp: alloc_inv_def same_queues_def)
  next
    fix a n s t i v s2 t2 i2 s3
    assume J: "?J a n s t i" and p: "pick_victim s t i = Inr (v, s2, t2, i2)" and q: "preempt_request v s2 = Inr s3" and v: "v \<noteq> a"
    have "?L s3" using pick_victim_running(2,4) [OF p] preempt_request_running [OF q] J by auto
    then show "?J a n s3 (t2\<lparr>preempted_reqs := preempted_reqs t2 @ [v]\<rparr>) i2" using preempt_run [OF _ p q] J v by blast
  next
    fix a n s t i s2 t2 i2 s3
    assume J: "?J a n s t i" and p: "pick_victim s t i = Inr (a, s2, t2, i2)" and q: "preempt_request a s2 = Inr s3"
    have "?L s3" using pick_victim_running(2,4) [OF p] preempt_request_running [OF q] J by auto
    then show "?F s3 (t2\<lparr>preempted_reqs := preempted_reqs t2 @ [a]\<rparr>)" using preempt_run [OF _ p q] J fin by blast
  next
    fix a n p bs s t i s3 t3 assume J: "?J a n s t i" and c: "commit_running a n p bs s t = Inr (s3, t3)"
    then show "?I s3 t3 (i + 1)" using commit_run [OF _ c] commit_running_running [OF c] by simp
  next
    fix s t i assume "?I s t i"
    then show "?F s t" using fin by blast
  qed
qed

subsection \<open>The waiting phase\<close>

text \<open>Moves between the places a request can be in.\<close>

lemma pop_moves:
  assumes "queue_pop rs (sel_queue sel s) = Inr (a, q)"
  shows "queue_mset (waiting s) + queue_mset (skipped_waiting s) =
    add_mset a (queue_mset (waiting (set_queue sel q s)) + queue_mset (skipped_waiting (set_queue sel q s)))"
  using queue_pop_mset [OF assms] by (cases sel) simp_all

lemma sched_ok_park:
  assumes ok: "sched_ok s extra" and q: "queue_mset (waiting s) + queue_mset (skipped_waiting s) =
      add_mset a (queue_mset (waiting s') + queue_mset (skipped_waiting s'))"
    and s': "running s' = running s" "requests s' = requests s" "\<And>x. request_id (objs s' x) = request_id (objs s x)"
      "\<And>x. status (objs s' x) = status (objs s x) \<or> x = a \<and> status (objs s' x) \<noteq> RUNNING \<and> \<not> is_finished (objs s' x)"
  shows "sched_ok s' (add_mset a extra)" "all_reqs s' (add_mset a extra) = all_reqs s extra"
proof -
  show all: "all_reqs s' (add_mset a extra) = all_reqs s extra"
    using q s'(1) unfolding all_reqs_def by (metis add_mset_add_single union_assoc union_commute)
  have "a \<in># queue_mset (waiting s) + queue_mset (skipped_waiting s) + extra" unfolding q by simp
  then have "a \<notin> set (running s)" "a \<in># all_reqs s extra" using sched_okD(3) [OF ok] by (auto simp: all_reqs_def)
  then show "sched_ok s' (add_mset a extra)"
    by (intro sched_ok_cong [OF ok all]) (use s' in auto)
qed

lemma sched_ok_start:
  assumes ok: "sched_ok s extra" and q: "queue_mset (waiting s) + queue_mset (skipped_waiting s) =
      add_mset a (queue_mset (waiting s') + queue_mset (skipped_waiting s'))"
    and s': "running s' = running s @ [a]" "requests s' = requests s" "objs s' = (objs s)(a := r)"
      "request_id r = request_id (objs s a)" "status r = RUNNING"
  shows "sched_ok s' extra" "all_reqs s' extra = all_reqs s extra"
proof -
  show all: "all_reqs s' extra = all_reqs s extra"
    using q s'(1) unfolding all_reqs_def by (simp add: union_assoc) 
  have ids: "request_id (objs s' x) = request_id (objs s x)" for x using s'(3,4) by simp
  have c: "count (all_reqs s extra) x \<le> 1" for x using ok by (simp add: sched_ok_def)
  have a1: "a \<notin># queue_mset (waiting s') + queue_mset (skipped_waiting s') + extra"
  proof
    assume "a \<in># queue_mset (waiting s') + queue_mset (skipped_waiting s') + extra"
    then have "1 \<le> count (queue_mset (waiting s') + queue_mset (skipped_waiting s') + extra) a"
      by (simp only: Suc_le_eq count_greater_zero_iff One_nat_def)
    then have "2 \<le> count (queue_mset (waiting s) + queue_mset (skipped_waiting s) + extra) a" unfolding q by simp
    then show False using c [of a] by (simp add: all_reqs_def)
  qed
  show "sched_ok s' extra"
    unfolding sched_ok_def all ids s'(2)
  proof (intro conjI allI impI ballI)
    fix x assume "x \<in> set (running s')"
    then show "status (objs s' x) = RUNNING" using sched_okD(2) [OF ok] s'(1,3,5) by auto
  next
    fix x assume x: "x \<in># queue_mset (waiting s') + queue_mset (skipped_waiting s') + extra"
    have "x \<in># queue_mset (waiting s) + queue_mset (skipped_waiting s) + extra" unfolding q using x by auto
    moreover have "x \<noteq> a" using x a1 by blast
    ultimately show "status (objs s' x) \<noteq> RUNNING" "\<not> is_finished (objs s' x)"
      using ok s'(3) unfolding sched_ok_def by auto
  next
    fix x assume x: "x \<in> set (requests s)"
    obtain rid b where xb: "x = (rid, b)" by (cases x)
    have "a \<in># queue_mset (waiting s) + queue_mset (skipped_waiting s)" unfolding q by simp
    then have "b = a \<Longrightarrow> b \<in># all_reqs s extra" by (auto simp: all_reqs_def)
    moreover have "is_finished (objs s b) \<or> b \<in># all_reqs s extra" using ok x unfolding xb sched_ok_def by blast
    ultimately show "case x of (rid, a) \<Rightarrow> is_finished (objs s' a) \<or> a \<in># all_reqs s extra"
      unfolding xb using s'(3) by (cases "b = a") auto
  qed (use ok in \<open>auto simp: sched_ok_def\<close>)
qed

subsection \<open>Requests stay, whatever the accounts\<close>

definition place_inv :: "nat multiset \<Rightarrow> scheduler \<Rightarrow> sched_step \<Rightarrow> bool" where
  "place_inv Q s t \<longleftrightarrow> sched_ok s (queue_mset (step_skipped_waiting t)) \<and> all_reqs s (queue_mset (step_skipped_waiting t)) = Q"

lemma place_inv_same:
  assumes "place_inv Q s t" "same_queues s s'" "objs s' = objs s"
  shows "place_inv Q s' t"
  using assms(1) sched_ok_same [OF assms(2)] assms(3) by (simp add: place_inv_def)

lemma place_inv_step: "place_inv Q s t \<Longrightarrow> step_skipped_waiting t' = step_skipped_waiting t \<Longrightarrow> place_inv Q s t'"
  by (simp add: place_inv_def)

lemma place_inv_preempt:
  assumes inv: "place_inv Q s t" and p: "pick_victim s t i = Inr (v, s2, t2, i2)" and q: "preempt_request v s2 = Inr s3"
  shows "place_inv Q s3 (t2\<lparr>preempted_reqs := x\<rparr>)"
proof -
  let ?e = "queue_mset (step_skipped_waiting t)"
  have ok: "sched_ok s ?e" using inv by (simp add: place_inv_def)
  note P = pick_victim_cases [OF p sched_okD(1) [OF ok]]
  obtain r where R: "objs s3 = (objs s2)(v := r)" "request_id r = request_id (objs s2 v)"
    "status r = PREEMPTED" "queue_mset (waiting s3) = add_mset v (queue_mset (waiting s2))" "same_queues s2 (s3\<lparr>waiting := waiting s2\<rparr>)"
    by (rule preempt_request_cases [OF q])
  have s3: "running s3 = remove1 v (running s)" "queue_mset (waiting s3) = add_mset v (queue_mset (waiting s))"
    "skipped_waiting s3 = skipped_waiting s" "requests s3 = requests s" "objs s3 = (objs s)(v := r)"
    "request_id r = request_id (objs s v)"
    using R P(1) by (simp_all add: same_queues_def)
  have "step_skipped_waiting t2 = step_skipped_waiting t" by (rule pick_victim_skipped [OF p])
  then show ?thesis
    using sched_ok_preempt [OF ok pick_victim_running(1) [OF p] s3 R(3)] inv by (simp add: place_inv_def)
qed

lemma place_inv_commit:
  assumes inv: "place_inv Q s t" and c: "commit_running a n p bs s t = Inr (s', t')"
  shows "place_inv Q s' t'"
proof -
  note C = commit_running_cases [OF c]
  have all: "all_reqs s' e = all_reqs s e" for e using C(1) by (simp add: same_queues_def all_reqs_def)
  have "sched_ok s' (queue_mset (step_skipped_waiting t))"
    by (rule sched_ok_cong [of s, OF _ all]) (use inv C(1,2) in \<open>auto simp: place_inv_def same_queues_def\<close>)
  then show ?thesis using inv all C(10) by (simp add: place_inv_def)
qed

lemma running_places:
  assumes "running_loop env s t i = Inr (s', t')" "place_inv Q s t"
  shows "place_inv Q s' t'"
proof (rule running_rule [where I = "\<lambda>s t i. place_inv Q s t" and J = "\<lambda>a n s t i. place_inv Q s t"
      and F = "\<lambda>s t. place_inv Q s t", OF assms], goal_cases)
  case (2 s t i p s1)
  then show ?case using plan_running_frame place_inv_same by blast
next
  case (3 s t i n p s1)
  then show ?case using plan_running_frame place_inv_same by blast
next
  case (4 a n s t i k x)
  then show ?case using place_inv_same [of Q s t "s\<lparr>kv := k\<rparr>"] by simp
qed (blast intro: place_inv_preempt place_inv_commit)+

lemma place_inv_park:
  assumes inv: "place_inv Q s t" and pop: "queue_pop rs (sel_queue sel s) = Inr (a, q)" and s': "same_queues (set_queue sel q s) s'"
    and objs: "\<forall>x. request_id (objs s' x) = request_id (objs s x)"
      "\<forall>x. status (objs s' x) = status (objs s x) \<or> x = a \<and> status (objs s' x) \<noteq> RUNNING \<and> \<not> is_finished (objs s' x)"
  shows "place_inv Q s' (t\<lparr>step_skipped_waiting := queue_prepend rs' a (step_skipped_waiting t)\<rparr>)"
proof -
  have ok: "sched_ok s (queue_mset (step_skipped_waiting t))" using inv by (simp add: place_inv_def)
  have m: "queue_mset (waiting s) + queue_mset (skipped_waiting s) = add_mset a (queue_mset (waiting s') + queue_mset (skipped_waiting s'))"
    using pop_moves [OF pop] s' by (simp add: same_queues_def)
  have r: "running s' = running s" "requests s' = requests s" using s' by (simp_all add: same_queues_def)
  show ?thesis
    using sched_ok_park [OF ok m r] objs inv by (simp add: place_inv_def)
qed

lemma place_inv_promote:
  assumes inv: "place_inv Q s t" and s1: "same_queues s s1" "\<forall>x. request_id (objs s1 x) = request_id (objs s x)"
    and a: "a \<in># queue_mset (sel_queue sel s)"
    and st: "\<forall>x. status (objs s1 x) = status (objs s x) \<or> x = a \<and> (status (objs s1 x) = WAITING \<or> status (objs s1 x) = PREEMPTED)"
  shows "place_inv Q s1 t"
proof -
  let ?e = "queue_mset (step_skipped_waiting t)"
  have ok: "sched_ok s ?e" using inv by (simp add: place_inv_def)
  have q: "waiting s1 = waiting s" "skipped_waiting s1 = skipped_waiting s" "running s1 = running s"
      "requests s1 = requests s" using s1(1) by (auto simp: same_queues_def)
  have all: "all_reqs s1 e = all_reqs s e" for e using q by (simp add: all_reqs_def)
  have "a \<in># queue_mset (waiting s) + queue_mset (skipped_waiting s) + ?e" using a by (cases sel) simp_all
  then have notrun: "a \<notin> set (running s)" "a \<in># all_reqs s ?e" using sched_okD(3) [OF ok] by (auto simp: all_reqs_def)
  have "sched_ok s1 ?e"
  proof (rule sched_ok_cong [OF ok all])
    fix x
    show "status (objs s1 x) = status (objs s x) \<or> x \<in># all_reqs s ?e \<and> x \<notin> set (running s) \<and>
        status (objs s1 x) \<noteq> RUNNING \<and> \<not> is_finished (objs s1 x)"
    proof (cases "status (objs s1 x) = status (objs s x)")
      case False
      then have "x = a" "status (objs s1 x) = WAITING \<or> status (objs s1 x) = PREEMPTED" using st by auto
      then show ?thesis using notrun unblocked_status [of "status (objs s1 x)"] by (simp add: is_finished_def)
    qed simp
  qed (use q s1(2) in simp_all)
  then show ?thesis using inv all by (simp add: place_inv_def)
qed

lemma place_inv_start:
  assumes inv: "place_inv Q s t" and pop: "queue_pop (objs s) (sel_queue sel s) = Inr (a, q)"
    and s': "same_queues (set_queue sel q s) (s'\<lparr>running := running s\<rparr>)" "running s' = running s @ [a]"
      "objs s' = (objs s)(a := (objs s a)\<lparr>status := RUNNING, num_computed_tokens := nc\<rparr>)"
    and t': "step_skipped_waiting t' = step_skipped_waiting t"
  shows "place_inv Q s' t'"
proof -
  have ok: "sched_ok s (queue_mset (step_skipped_waiting t))" using inv by (simp add: place_inv_def)
  have q: "requests s' = requests s" "waiting s' = waiting (set_queue sel q s)"
    "skipped_waiting s' = skipped_waiting (set_queue sel q s)"
    using s'(1) by (simp_all add: same_queues_def)
  show ?thesis
    using sched_ok_start [OF ok pop_moves [OF pop, folded q(2,3)] s'(2) q(1) s'(3)] inv t' by (simp add: place_inv_def)
qed

lemma waiting_step_places:
  assumes step: "waiting_step env s t = Inr (continues, s', t')" and inv: "place_inv Q s t"
  shows "place_inv Q s' t'"
proof (rule waiting_step_rule [where I = "place_inv Q", OF step inv], goal_cases)
  case (1 s1 sel a)
  show ?case by (rule place_inv_promote [OF inv 1])
next
  case (2 s0 s1)
  show ?case by (rule place_inv_same [OF 2])
next
  case (3 s0 rs sel a q s' rs')
  show ?case by (rule place_inv_park [OF 3])
next
  case (4 s0 sel a q n bs nc s' t')
  show ?case by (rule place_inv_start [OF 4(1,4-7,13)])
qed

subsection \<open>The accounts in the waiting phase\<close>

lemma phase_inv_iff: "phase_inv Q B c s t \<longleftrightarrow> place_inv Q s t \<and> step_ok B s t \<and> cfg s = c \<and> length (running s) \<le> max_num_running_reqs c"
  by (auto simp: phase_inv_def place_inv_def)

definition wait_inv :: "nat multiset \<Rightarrow> int option \<Rightarrow> sched_config \<Rightarrow> scheduler \<Rightarrow> sched_step \<Rightarrow> bool" where
  "wait_inv Q B c s t \<longleftrightarrow> phase_inv Q B c s t \<and> preempted_reqs t = []"

lemma step_ok_park:
  assumes "step_ok B s t" "running s' = running s" "preempted_reqs t = []" "\<And>x. request_id (objs s' x) = request_id (objs s x)"
  shows "step_ok B s' (t\<lparr>step_skipped_waiting := q\<rparr>)"
  using assms by (simp add: step_ok_def scheduled_reqs_def total_scheduled_def)

lemma start_step_ok:
  assumes inv: "place_inv Q s t" and st: "step_ok B s t" and p: "preempted_reqs t = []"
    and n: "0 < n" "n \<le> token_budget t"
    and pop: "queue_pop (objs s) (sel_queue sel s) = Inr (a, q)"
    and s': "same_queues (set_queue sel q s) (s'\<lparr>running := running s\<rparr>)" "running s' = running s @ [a]"
      "objs s' = (objs s)(a := (objs s a)\<lparr>status := RUNNING, num_computed_tokens := nc\<rparr>)"
    and t': "mset (scheduled_reqs t') = add_mset a (mset (scheduled_reqs t))"
      "num_scheduled_tokens t' = AList.update (request_id (objs s a)) n (num_scheduled_tokens t)"
      "req_to_new_blocks t' = AList.update (request_id (objs s a)) bs (req_to_new_blocks t)"
      "token_budget t' = token_budget t - n" "preempted_reqs t' = preempted_reqs t"
      "step_skipped_waiting t' = step_skipped_waiting t"
  shows "step_ok B s' t'"
proof -
  have ok: "sched_ok s (queue_mset (step_skipped_waiting t))" using inv by (simp add: place_inv_def)
  have q: "waiting s' = waiting (set_queue sel q s)" "skipped_waiting s' = skipped_waiting (set_queue sel q s)"
    using s'(1) by (simp_all add: same_queues_def)
  have ids: "request_id (objs s' x) = request_id (objs s x)" for x using s'(3) by simp
  have "a \<in># queue_mset (waiting s) + queue_mset (skipped_waiting s) + queue_mset (step_skipped_waiting t)"
    unfolding pop_moves [OF pop] by simp
  then have notrun: "a \<notin> set (running s)" by (rule sched_okD(3) [OF ok])
  have "sched_ok s' (queue_mset (step_skipped_waiting t))"
    using place_inv_start [OF inv pop s' t'(6)] t'(6) by (simp add: place_inv_def)
  from sched_ok_running_ids [OF this] have inj: "inj_on (\<lambda>x. request_id (objs s x)) (set (running s'))"
    unfolding ids .
  have "set (scheduled_reqs t) \<subseteq> set (running s)" using st by (simp add: step_ok_def)
  then have notin: "a \<notin> set (scheduled_reqs t)" using notrun by blast
  have sub: "queue_mset (waiting s) \<subseteq># queue_mset (waiting s') + {#a#}"
    using queue_pop_mset [OF pop] unfolding q(1) by (cases sel) simp_all
  show ?thesis
    by (rule step_ok_add [where a = a and n = n and bs = bs, OF st _ notin _ ids inj sub])
      (use s'(2) t' n p in auto)
qed

lemma waiting_step_inv:
  assumes inv: "wait_inv Q B c s t" and b: "token_budget t > 0" and less: "length (running s) \<noteq> max_num_running_reqs (cfg s)"
    and step: "waiting_step env s t = Inr (continues, s', t')"
  shows "wait_inv Q B c s' t'"
proof (rule waiting_step_rule [where I = "wait_inv Q B c", OF step inv], goal_cases)
  case (1 s1 sel a)
  have "place_inv Q s1 t" using place_inv_promote [OF _ 1] inv by (simp add: wait_inv_def phase_inv_iff)
  then show ?case using inv 1 step_ok_cong [of B s t s1] by (simp add: wait_inv_def phase_inv_iff same_queues_def)
next
  case (2 s0 s1)
  then show ?case using place_inv_same [of Q s0 t s1] step_ok_cong [of B s0 t s1]
    by (simp add: wait_inv_def phase_inv_iff same_queues_def)
next
  case (3 s0 rs sel a q s' rs')
  have i: "place_inv Q s0 t" "step_ok B s0 t" "preempted_reqs t = []" "cfg s0 = c" "length (running s0) \<le> max_num_running_reqs c"
    using 3(1) by (simp_all add: wait_inv_def phase_inv_iff)
  have r: "running s' = running s0" "cfg s' = cfg s0" using 3(3) by (simp_all add: same_queues_def)
  show ?case
    using place_inv_park [OF i(1) 3(2-5)] step_ok_park [OF i(2) r(1) i(3)] 3(4) i r
    by (simp add: wait_inv_def phase_inv_iff)
next
  case (4 s0 sel a q n bs nc s' t')
  have i: "place_inv Q s0 t" "step_ok B s0 t" "preempted_reqs t = []" "cfg s0 = c" "length (running s0) \<le> max_num_running_reqs c"
    using 4(1) by (simp_all add: wait_inv_def phase_inv_iff)
  have n: "0 < n" "n \<le> token_budget t" using 4(3) b by simp_all
  have r: "running s0 = running s" "cfg s0 = cfg s" "cfg s' = cfg s0" using 4(2,5) by (simp_all add: same_queues_def)
  show ?case
    using place_inv_start [OF i(1) 4(4-7,13)] start_step_ok [OF i(1-3) n 4(4-13)] i r less 4(6,12)
    by (simp add: wait_inv_def phase_inv_iff)
qed

end
