(* ===== verification/VL_SchedUpdate.thy ===== *)
theory VL_SchedUpdate
  imports VL_Schedule
begin

text \<open>
  The scheduler's other operations: processing the output of the model runner
  (\<open>update_from_output\<close>), adding and finishing requests, KV transfers that fail or finish, draft
  tokens and resets.  Logprobs, pooling data, statistics and events pass through the scheduler and
  are left out; of a pooling output only its presence matters.
\<close>

subsection \<open>Stopping\<close>

fun py_last :: "'a list \<Rightarrow> nat \<Rightarrow> 'a res" where
  "py_last xs n = (if 0 < n \<and> n \<le> length xs then Inr (xs ! (length xs - n)) else Inl IndexError)"

definition has_repeating_pattern :: "nat list \<Rightarrow> nat \<Rightarrow> nat \<Rightarrow> bool res" where
  "has_repeating_pattern ts pattern_len min_count =
     foldr (\<lambda>n k. rbind (py_last ts n) (\<lambda>target.
              foldr (\<lambda>m j. rbind (py_last ts (pattern_len * m + n)) (\<lambda>x. if x \<noteq> target then Inr False else j))
                [1..<min_count] k))
       [1..<Suc pattern_len] (Inr True)"

fun repetition_loop :: "nat list \<Rightarrow> nat \<Rightarrow> nat list \<Rightarrow> bool res" where
  "repetition_loop ts min_count [] = Inr False"
| "repetition_loop ts min_count (pattern_len # ls) =
     (if pattern_len * min_count > length ts then Inr False
      else rbind (has_repeating_pattern ts pattern_len min_count) (\<lambda>found.
             if found then Inr True else repetition_loop ts min_count ls))"

definition check_sequence_repetition :: "nat list \<Rightarrow> repetition_params \<Rightarrow> bool res" where
  "check_sequence_repetition ts params =
     (let min_pattern = (if rp_min_pattern_size params \<le> 0 then 1 else rp_min_pattern_size params);
          max_pattern = rp_max_pattern_size params
      in if max_pattern \<le> 0 \<or> rp_min_count params < 2 \<or> min_pattern > max_pattern then Inr False
         else repetition_loop ts (nat (rp_min_count params)) [nat min_pattern..<Suc (nat max_pattern)])"

definition check_stop :: "request \<Rightarrow> nat \<Rightarrow> (bool \<times> request) res" where
  "check_stop r max_len =
     (case (req_pooling_params r, req_sampling_params r) of
        (None, Some sp) \<Rightarrow>
          if num_output_tokens r < sp_min_tokens sp then Inr (False, r)
          else rbind (py_last (output_token_ids r) 1) (\<lambda>last_token_id.
            if Some last_token_id = sp_eos_token_id sp then Inr (True, r\<lparr>status := FINISHED_STOPPED\<rparr>)
            else if last_token_id \<in> set (sp_stop_token_ids sp)
            then Inr (True, r\<lparr>status := FINISHED_STOPPED, req_stop_reason := Some (StopToken last_token_id)\<rparr>)
            else if num_tokens r \<ge> max_len \<or> num_output_tokens r \<ge> max_tokens r
            then Inr (True, r\<lparr>status := FINISHED_LENGTH_CAPPED\<rparr>)
            else rbind (case sp_repetition_detection sp of None \<Rightarrow> Inr False
                        | Some params \<Rightarrow> check_sequence_repetition (output_token_ids r) params) (\<lambda>repeats.
              if repeats then Inr (True, r\<lparr>status := FINISHED_REPETITION, req_stop_reason := Some RepetitionDetected\<rparr>)
              else Inr (False, r)))
      | _ \<Rightarrow> Inl AssertionError)"

text \<open>The hasher of the environment always returns, so the results of the request's methods are
  values (see \<open>append_keeps_hashes\<close> for the hasher itself).\<close>

definition append_tokens :: "sched_env \<Rightarrow> nat list \<Rightarrow> request \<Rightarrow> request res" where
  "append_tokens env ts r = the (append_output_token_ids (Some (\<lambda>r. Some (env_hasher env r))) ts r)"

definition session_update :: "sched_env \<Rightarrow> request \<Rightarrow> streaming_update \<Rightarrow> int \<Rightarrow> (request \<times> int) res" where
  "session_update env r u n = the (update_request_as_session (Some (\<lambda>r. Some (env_hasher env r))) r u n)"

fun output_token_loop :: "sched_env \<Rightarrow> nat \<Rightarrow> nat list \<Rightarrow> nat list \<Rightarrow> request \<Rightarrow> (nat list \<times> bool \<times> request) res" where
  "output_token_loop env max_len acc [] r = Inr (acc, False, r)"
| "output_token_loop env max_len acc (x # xs) r =
     rbind (append_tokens env [x] r) (\<lambda>r1.
     rbind (check_stop r1 max_len) (\<lambda>(stopped, r2).
       if stopped then Inr (acc @ [x], True, r2) else output_token_loop env max_len (acc @ [x]) xs r2))"

definition update_request_with_output ::
  "sched_env \<Rightarrow> nat \<Rightarrow> nat list \<Rightarrow> scheduler \<Rightarrow> (nat list \<times> bool \<times> scheduler) res" where
  "update_request_with_output env a new_token_ids s =
     rbind (output_token_loop env (max_model_len (cfg s)) [] new_token_ids (objs s a)) (\<lambda>(ts, stopped, r).
       Inr (ts, stopped, upd_req a (\<lambda>_. r) s))"

definition async_update_request_with_output ::
  "sched_env \<Rightarrow> nat \<Rightarrow> nat list \<Rightarrow> scheduler \<Rightarrow> (nat list \<times> bool \<times> scheduler) res" where
  "async_update_request_with_output env a new_token_ids s =
     (let r = objs s a in
      if async_tokens_to_discard r > 0
      then Inr ([], False, upd_req a (\<lambda>r. r\<lparr>async_tokens_to_discard := async_tokens_to_discard r - 1\<rparr>) s)
      else rbind (update_request_with_output env a new_token_ids s) (\<lambda>(ts, stopped, s1).
        if num_output_placeholders (objs s1 a) < length ts then Inl AssertionError
        else let s2 = upd_req a (\<lambda>r. r\<lparr>num_output_placeholders := num_output_placeholders r - length ts\<rparr>) s1;
                 r2 = objs s2 a
             in if status r = RUNNING
                then rbind (kv_cache_blocks (env_sha256 env) r2 (nat (int (num_computed_tokens r2) - int (num_output_placeholders r2)))
                              (kv s2)) (\<lambda>k. Inr (ts, stopped, s2\<lparr>kv := k\<rparr>))
                else Inr (ts, stopped, s2)))"

subsection \<open>Finishing requests\<close>

definition remove_all :: "nat list \<Rightarrow> nat set \<Rightarrow> nat list" where
  "remove_all xs items =
     (if items = {} then xs
      else if card items = 1 then remove1 (the_elem items) xs
      else filter (\<lambda>x. x \<notin> items) xs)"

definition connector_finished :: "sched_env \<Rightarrow> request \<Rightarrow> scheduler \<Rightarrow> (bool \<times> scheduler) res" where
  "connector_finished env r s =
     (case env_connector env of
        None \<Rightarrow> Inr (False, s)
      | Some c \<Rightarrow>
          rbind (kv_remove_skipped_blocks (request_id r) (int (num_computed_tokens r)) (kv s)) (\<lambda>k.
            let ids = kv_get_block_ids (request_id r) k
            in if \<not> supports_hma c
               then (if k_num_groups k = 1 then Inr (request_finished c r (hd ids), s\<lparr>kv := k\<rparr>) else Inl AssertionError)
               else Inr (request_finished_all_groups c r ids, s\<lparr>kv := k\<rparr>)))"

definition sched_free_blocks :: "nat \<Rightarrow> scheduler \<Rightarrow> scheduler res" where
  "sched_free_blocks a s =
     (let r = objs s a in
      rbind (guard_err (is_finished r) AssertionError) (\<lambda>_.
      rbind (kv_free r (kv s)) (\<lambda>k.
      if request_id r \<in> fst ` set (requests s)
      then Inr (s\<lparr>kv := k, requests := AList.delete (request_id r) (requests s)\<rparr>) else Inl KeyError)))"

definition sched_free_request :: "sched_env \<Rightarrow> nat \<Rightarrow> bool \<Rightarrow> scheduler \<Rightarrow> scheduler res" where
  "sched_free_request env a delay_free_blocks s =
     (let r = objs s a in
      rbind (guard_err (is_finished r) AssertionError) (\<lambda>_.
      rbind (connector_finished env r s) (\<lambda>(connector_delay, s1).
      rbind (enc_free r (encoder_mgr s1)) (\<lambda>m.
        let s2 = s1\<lparr>encoder_mgr := m, finished_req_ids := insert (request_id r) (finished_req_ids s1),
                    finished_req_ids_dict := map_option
                      (\<lambda>d. d(client_index r := insert (request_id r) (d (client_index r)))) (finished_req_ids_dict s1)\<rparr>
        in if delay_free_blocks \<or> connector_delay then Inr s2 else sched_free_blocks a s2))))"

text \<open>First pass: who is still alive, in the running list or in a queue.\<close>

definition valid_requests :: "scheduler \<Rightarrow> string list \<Rightarrow> nat list" where
  "valid_requests s ids =
     List.map_filter (\<lambda>rid. case map_of (requests s) rid of
        None \<Rightarrow> None | Some a \<Rightarrow> if is_finished (objs s a) then None else Some a) ids"

fun finish_loop :: "sched_env \<Rightarrow> request_status \<Rightarrow> nat list \<Rightarrow> scheduler \<Rightarrow> scheduler res" where
  "finish_loop env st [] s = Inr s"
| "finish_loop env st (a # as) s =
     (let r = objs s a;
          remote = (status r = WAITING_FOR_REMOTE_KVS);
          delay = (remote \<and> request_id r \<notin> finished_recving_kv_req_ids s);
          s1 = (if remote then s\<lparr>finished_recving_kv_req_ids := finished_recving_kv_req_ids s - {request_id r},
                                 failed_recving_kv_req_ids := failed_recving_kv_req_ids s - {request_id r}\<rparr> else s)
      in rbind (sched_free_request env a delay (upd_req a (\<lambda>r. r\<lparr>status := st\<rparr>) s1)) (finish_loop env st as))"

definition finish_requests ::
  "sched_env \<Rightarrow> string list option \<Rightarrow> request_status \<Rightarrow> scheduler \<Rightarrow> ((string \<times> nat) list \<times> scheduler) res" where
  "finish_requests env request_ids st s =
     rbind (guard_err (is_finished_status st) AssertionError) (\<lambda>_.
       let ids = (case request_ids of None \<Rightarrow> map fst (requests s) | Some l \<Rightarrow> remdups l);
           valid = valid_requests s ids;
           run = filter (\<lambda>a. status (objs s a) = RUNNING) valid;
           wait = filter (\<lambda>a. status (objs s a) \<noteq> RUNNING) valid;
           streaming = length (filter (\<lambda>a. status (objs s a) = WAITING_FOR_STREAMING_REQ) valid);
           s1 = s\<lparr>num_waiting_for_streaming_input := num_waiting_for_streaming_input s - int streaming,
                  running := remove_all (running s) (set run)\<rparr>;
           s2 = (if wait = [] then s1
                 else s1\<lparr>waiting := queue_remove_requests (objs s1) wait (waiting s1),
                         skipped_waiting := queue_remove_requests (objs s1) wait (skipped_waiting s1)\<rparr>)
       in rbind (finish_loop env st valid s2) (\<lambda>s3.
            Inr (map (\<lambda>a. (request_id (objs s a), client_index (objs s a))) valid, s3)))"

definition enqueue_waiting_request :: "nat \<Rightarrow> scheduler \<Rightarrow> scheduler" where
  "enqueue_waiting_request a s =
     (if is_blocked_waiting_status (status (objs s a))
      then s\<lparr>skipped_waiting := queue_add (objs s) a (skipped_waiting s)\<rparr>
      else s\<lparr>waiting := queue_add (objs s) a (waiting s)\<rparr>)"

definition update_session :: "sched_env \<Rightarrow> nat \<Rightarrow> streaming_update \<Rightarrow> scheduler \<Rightarrow> scheduler res" where
  "update_session env a u s =
     rbind (session_update env (objs s a) u (num_waiting_for_streaming_input s)) (\<lambda>(r, n).
       Inr (upd_req a (\<lambda>_. r) (s\<lparr>num_waiting_for_streaming_input := n\<rparr>)))"

definition handle_stopped_request :: "sched_env \<Rightarrow> nat \<Rightarrow> scheduler \<Rightarrow> (bool \<times> scheduler) res" where
  "handle_stopped_request env a s =
     (let r = objs s a in
      if \<not> resumable r then Inr (True, s)
      else case streaming_queue r of
        Some (None # us) \<Rightarrow> Inr (True, upd_req a (\<lambda>r. r\<lparr>streaming_queue := Some us\<rparr>) s)
      | Some (Some u # us) \<Rightarrow>
          rbind (update_session env a u (upd_req a (\<lambda>r. r\<lparr>streaming_queue := Some us\<rparr>) s)) (\<lambda>s1.
            Inr (False, enqueue_waiting_request a s1))
      | _ \<Rightarrow>
          let s1 = upd_req a (\<lambda>r. r\<lparr>status := WAITING_FOR_STREAMING_REQ\<rparr>)
                (s\<lparr>num_waiting_for_streaming_input := num_waiting_for_streaming_input s + 1\<rparr>)
          in Inr (False, enqueue_waiting_request a s1))"

text \<open>A new request object \<open>r\<close> at the address \<open>a\<close>.\<close>

definition sched_add_request :: "sched_env \<Rightarrow> nat \<Rightarrow> request \<Rightarrow> scheduler \<Rightarrow> scheduler res" where
  "sched_add_request env a r s =
     (case map_of (requests s) (request_id r) of
        Some b \<Rightarrow>
          let u = streaming_update_from_request r; old = objs s b in
          if status old \<noteq> WAITING_FOR_STREAMING_REQ
          then (case streaming_queue old of
                  None \<Rightarrow> Inl AssertionError
                | Some q \<Rightarrow> Inr (upd_req b (\<lambda>x. x\<lparr>streaming_queue := Some (q @ [u])\<rparr>) s))
          else (case u of
                  Some upd \<Rightarrow> update_session env b upd s
                | None \<Rightarrow> rbind (finish_requests env (Some [request_id r]) FINISHED_ABORTED s) (\<lambda>(_, s1). Inr s1))
      | None \<Rightarrow>
          let r1 = (if resumable r then r\<lparr>streaming_queue := Some []\<rparr> else r);
              s1 = enqueue_waiting_request a (upd_req a (\<lambda>_. r1) s)
          in Inr (s1\<lparr>requests := AList.update (request_id r) a (requests s1)\<rparr>))"

subsection \<open>KV transfers\<close>

record kv_connector_output =
  invalid_block_ids :: "nat set"
  finished_recving :: "string list"
  finished_sending :: "string list"

fun finished_recving_loop :: "string list \<Rightarrow> scheduler \<Rightarrow> scheduler res" where
  "finished_recving_loop [] s = Inr s"
| "finished_recving_loop (rid # rids) s =
     (case map_of (requests s) rid of
        None \<Rightarrow> Inl AssertionError
      | Some a \<Rightarrow>
          if status (objs s a) = WAITING_FOR_REMOTE_KVS
          then finished_recving_loop rids (s\<lparr>finished_recving_kv_req_ids := insert rid (finished_recving_kv_req_ids s)\<rparr>)
          else if is_finished (objs s a) then rbind (sched_free_blocks a s) (finished_recving_loop rids)
          else Inl AssertionError)"

fun finished_sending_loop :: "string list \<Rightarrow> scheduler \<Rightarrow> scheduler res" where
  "finished_sending_loop [] s = Inr s"
| "finished_sending_loop (rid # rids) s =
     (case map_of (requests s) rid of
        None \<Rightarrow> Inl AssertionError
      | Some a \<Rightarrow> rbind (sched_free_blocks a s) (finished_sending_loop rids))"

definition update_from_kv_xfer_finished :: "kv_connector_output \<Rightarrow> scheduler \<Rightarrow> scheduler res" where
  "update_from_kv_xfer_finished out s =
     rbind (finished_recving_loop (finished_recving out) s) (finished_sending_loop (finished_sending out))"

text \<open>Blocks that failed to load: \<open>invalid_scan\<close> goes through the blocks of one request and carries
  the marked blocks, whether this request marked one, whether it is affected, its number of
  computed tokens, the affected tokens and the blocks to evict.\<close>

record invalid_state =
  marked_invalid_block_ids :: "nat set"
  marked_invalid_block :: bool
  is_affected :: bool
  inv_num_computed :: int
  total_affected_tokens :: int
  blocks_to_evict :: "nat set"

fun invalid_scan ::
  "nat \<Rightarrow> int \<Rightarrow> nat set \<Rightarrow> bool \<Rightarrow> nat list \<Rightarrow> (nat \<times> nat) list \<Rightarrow> invalid_state \<Rightarrow> invalid_state" where
  "invalid_scan bs ncomp invalid evict req_block_ids [] st = st"
| "invalid_scan bs ncomp invalid evict req_block_ids ((idx, b) # ps) st =
     (if b \<notin> invalid then invalid_scan bs ncomp invalid evict req_block_ids ps st
      else let st1 = st\<lparr>is_affected := True\<rparr> in
        if b \<in> marked_invalid_block_ids st1 then invalid_scan bs ncomp invalid evict req_block_ids ps st1
        else let st2 = st1\<lparr>marked_invalid_block_ids := insert b (marked_invalid_block_ids st1)\<rparr> in
          if marked_invalid_block st2 then invalid_scan bs ncomp invalid evict req_block_ids ps st2
          else let nc = int (idx * bs) in
            invalid_scan bs ncomp invalid evict req_block_ids ps
              (st2\<lparr>marked_invalid_block := True, inv_num_computed := nc,
                   total_affected_tokens := total_affected_tokens st2 + (ncomp - nc),
                   blocks_to_evict := (if evict then blocks_to_evict st2 \<union> set (drop idx req_block_ids)
                                       else blocks_to_evict st2)\<rparr>))"

fun invalid_loop ::
  "nat \<Rightarrow> nat set \<Rightarrow> (string \<times> int) list \<Rightarrow> bool \<Rightarrow> nat list \<Rightarrow> scheduler \<Rightarrow> string set \<Rightarrow> int \<Rightarrow> nat set \<Rightarrow> nat set \<Rightarrow>
     (string set \<times> int \<times> nat set \<times> scheduler) res" where
  "invalid_loop bs invalid sched evict [] s affected tot marked to_evict = Inr (affected, tot, to_evict, s)"
| "invalid_loop bs invalid sched evict (a # as) s affected tot marked to_evict =
     (let r = objs s a;
          rid = request_id r in
      case kv_get_block_ids rid (kv s) of
        [ids] \<Rightarrow>
          let n = (case map_of sched rid of None \<Rightarrow> 0 | Some n \<Rightarrow> n);
              ncomp = int (num_computed_tokens r) - n;
              nblocks = nat ((ncomp + int bs - 1) div int bs);
              st = invalid_scan bs ncomp invalid evict ids (zip [0..<nblocks] ids)
                     \<lparr>marked_invalid_block_ids = marked, marked_invalid_block = False, is_affected = False,
                      inv_num_computed = int (num_computed_tokens r), total_affected_tokens = tot,
                      blocks_to_evict = to_evict\<rparr>;
              tot1 = (if is_affected st \<and> \<not> marked_invalid_block st
                        then total_affected_tokens st + (inv_num_computed st - ncomp) else total_affected_tokens st);
              nc1 = (if is_affected st \<and> \<not> marked_invalid_block st then ncomp else inv_num_computed st)
          in invalid_loop bs invalid sched evict as
               (if is_affected st then upd_req a (\<lambda>r. r\<lparr>num_computed_tokens := nat nc1\<rparr>) s else s)
               (if is_affected st then insert rid affected else affected) tot1
               (marked_invalid_block_ids st) (blocks_to_evict st)
      | _ \<Rightarrow> Inl ValueError)"

definition update_requests_with_invalid_blocks ::
  "nat list \<Rightarrow> nat set \<Rightarrow> (string \<times> int) list \<Rightarrow> bool \<Rightarrow> scheduler \<Rightarrow> (string set \<times> int \<times> nat set \<times> scheduler) res" where
  "update_requests_with_invalid_blocks reqs invalid sched evict s =
     invalid_loop (sched_block_size (cfg s)) invalid sched evict reqs s {} 0 {} {}"

definition handle_invalid_blocks ::
  "nat set \<Rightarrow> (string \<times> int) list \<Rightarrow> scheduler \<Rightarrow> (string set \<times> scheduler) res" where
  "handle_invalid_blocks invalid sched s =
     (let async_reqs = filter (\<lambda>a. status (objs s a) = WAITING_FOR_REMOTE_KVS) (queue_iter (objs s) (skipped_waiting s))
      in rbind (update_requests_with_invalid_blocks async_reqs invalid sched False s) (\<lambda>(async_failed, _, _, s1).
         rbind (update_requests_with_invalid_blocks (running s1) invalid sched True s1) (\<lambda>(sync_failed, _, evict, s2).
         if async_failed = {} \<and> sync_failed = {} then Inr ({}, s2)
         else rbind (if evict \<noteq> {} \<and> \<not> recompute_kv_load_failures (cfg s2)
                     then rbind (kv_evict_blocks (sorted_list_of_set evict) (kv s2)) (\<lambda>k. Inr (s2\<lparr>kv := k\<rparr>))
                     else Inr s2) (\<lambda>s3.
           if \<not> recompute_kv_load_failures (cfg s3) then Inr (async_failed \<union> sync_failed, s3)
           else Inr (sync_failed, s3\<lparr>failed_recving_kv_req_ids := failed_recving_kv_req_ids s3 \<union> async_failed\<rparr>)))))"

subsection \<open>The output of the model runner\<close>

record model_runner_output =
  req_id_to_index :: "(string \<times> nat) list"
  sampled_token_ids :: "nat list list"
  pooler_output :: "bool list"
  mr_kv_connector_output :: "kv_connector_output option"

record engine_core_output =
  eo_request_id :: string
  eo_new_token_ids :: "nat list"
  eo_finish_reason :: "finish_reason option"
  eo_stop_reason :: "stop_reason option"
  eo_has_pooling_output :: bool

type_synonym outputs = "(nat \<times> engine_core_output list) list"

definition add_output :: "nat \<Rightarrow> engine_core_output \<Rightarrow> outputs \<Rightarrow> outputs" where
  "add_output c x d = AList.update c ((case map_of d c of None \<Rightarrow> [] | Some xs \<Rightarrow> xs) @ [x]) d"

definition list_get :: "'a list \<Rightarrow> nat \<Rightarrow> 'a res" where
  "list_get xs i = (if i < length xs then Inr (xs ! i) else Inl IndexError)"

record update_state =
  stopped_running :: "nat set"
  stopped_preempted :: "nat set"
  us_outputs :: outputs

text \<open>Rejected draft tokens are taken back.\<close>

definition apply_rejections :: "int \<Rightarrow> request \<Rightarrow> request" where
  "apply_rejections num_rejected r =
     r\<lparr>num_computed_tokens := (if num_computed_tokens r > 0
          then nat (int (num_computed_tokens r) - num_rejected) else num_computed_tokens r),
       num_output_placeholders := (if num_output_placeholders r > 0
          then nat (int (num_output_placeholders r) - num_rejected) else num_output_placeholders r)\<rparr>"

definition process_tokens ::
  "sched_env \<Rightarrow> nat \<Rightarrow> nat list \<Rightarrow> bool \<Rightarrow> scheduler \<Rightarrow> (nat list \<times> bool \<times> scheduler) res" where
  "process_tokens env a generated pooled s =
     rbind (if generated \<noteq> [] then
              (if async_scheduling (cfg s) then async_update_request_with_output env a generated s
               else update_request_with_output env a generated s)
            else if req_pooling_params (objs s a) \<noteq> None \<and> pooled
            then Inr ([], True, upd_req a (\<lambda>r. r\<lparr>status := FINISHED_STOPPED\<rparr>) s)
            else Inr ([], False, s)) (\<lambda>(ts, stopped, s1).
       let r = objs s1 a in
       if ts \<noteq> [] \<and> should_advance env r \<and> \<not> accept_tokens env (request_id r) ts
       then Inr (ts, True, upd_req a (\<lambda>r. r\<lparr>status := FINISHED_ERROR, resumable := False\<rparr>) s1)
       else Inr (ts, stopped, s1))"

definition process_request ::
  "sched_env \<Rightarrow> scheduler_output \<Rightarrow> model_runner_output \<Rightarrow> string \<Rightarrow> nat \<Rightarrow> scheduler \<Rightarrow> update_state \<Rightarrow>
     (scheduler \<times> update_state) res" where
  "process_request env out mr rid a s u =
     rbind (dict_get (req_id_to_index mr) rid) (\<lambda>idx.
     rbind (if sampled_token_ids mr = [] then Inr [] else list_get (sampled_token_ids mr) idx) (\<lambda>generated.
       let drafts = (case map_of (so_scheduled_spec_decode_tokens out) rid of None \<Rightarrow> [] | Some ts \<Rightarrow> ts);
           num_rejected = int (length drafts) - (int (length generated) - 1);
           s1 = (if drafts \<noteq> [] \<and> generated \<noteq> [] then upd_req a (apply_rejections num_rejected) s else s)
       in rbind (if has_encoder_inputs (objs s1 a)
                 then rbind (free_encoder_inputs (objs s1 a) (encoder_mgr s1)) (\<lambda>m. Inr (s1\<lparr>encoder_mgr := m\<rparr>))
                 else Inr s1) (\<lambda>s2.
          rbind (if pooler_output mr = [] then Inr False else list_get (pooler_output mr) idx) (\<lambda>pooled.
          rbind (process_tokens env a generated pooled s2) (\<lambda>(ts, stopped, s3).
          let finish_reason = (if stopped then get_finished_reason (objs s3 a) else None) in
          rbind (if stopped
                 then rbind (handle_stopped_request env a s3) (\<lambda>(finished, s4).
                      if finished then sched_free_request env a False s4 else Inr s4)
                 else Inr s3) (\<lambda>s5.
            let u1 = (if stopped
                      then (if status (objs s2 a) = RUNNING then u\<lparr>stopped_running := insert a (stopped_running u)\<rparr>
                            else u\<lparr>stopped_preempted := insert a (stopped_preempted u)\<rparr>)
                      else u);
                r = objs s5 a;
                emit = (ts \<noteq> [] \<or> pooled \<or> stopped);
                x = \<lparr>eo_request_id = rid, eo_new_token_ids = ts, eo_finish_reason = finish_reason,
                     eo_stop_reason = req_stop_reason r, eo_has_pooling_output = pooled\<rparr>
            in Inr (if emit then upd_req a (\<lambda>r. r\<lparr>has_prefill_stats := False\<rparr>) s5 else s5,
                    if emit then u1\<lparr>us_outputs := add_output (client_index r) x (us_outputs u1)\<rparr> else u1)))))))"

fun update_loop ::
  "sched_env \<Rightarrow> scheduler_output \<Rightarrow> model_runner_output \<Rightarrow> string set \<Rightarrow> (string \<times> int) list \<Rightarrow> scheduler \<Rightarrow> update_state \<Rightarrow>
     (scheduler \<times> update_state) res" where
  "update_loop env out mr failed [] s u = Inr (s, u)"
| "update_loop env out mr failed ((rid, n) # ns) s u =
     (if n \<le> 0 then Inl AssertionError
      else if rid \<in> failed then update_loop env out mr failed ns s u
      else case map_of (requests s) rid of
        None \<Rightarrow> update_loop env out mr failed ns s u
      | Some a \<Rightarrow>
          if is_finished (objs s a) then update_loop env out mr failed ns s u
          else rbind (process_request env out mr rid a s u) (\<lambda>(s', u'). update_loop env out mr failed ns s' u'))"

fun get_all :: "(string \<times> nat) list \<Rightarrow> string list \<Rightarrow> nat list res" where
  "get_all d [] = Inr []"
| "get_all d (rid # rids) = rbind (dict_get d rid) (\<lambda>a. rbind (get_all d rids) (\<lambda>as. Inr (a # as)))"

definition error_outputs :: "scheduler \<Rightarrow> nat list \<Rightarrow> outputs \<Rightarrow> outputs" where
  "error_outputs s as d =
     fold (\<lambda>a. let r = objs s a in add_output (client_index r)
       \<lparr>eo_request_id = request_id r, eo_new_token_ids = [], eo_finish_reason = get_finished_reason r,
        eo_stop_reason = None, eo_has_pooling_output = False\<rparr>) as d"

definition update_from_output ::
  "sched_env \<Rightarrow> scheduler_output \<Rightarrow> model_runner_output \<Rightarrow> scheduler \<Rightarrow>
     (outputs \<times> (nat \<Rightarrow> string set) option \<times> kv_event list \<times> scheduler) res" where
  "update_from_output env out mr s =
     rbind (case mr_kv_connector_output mr of
              Some x \<Rightarrow> if invalid_block_ids x = {} then Inr ({}, s)
                        else handle_invalid_blocks (invalid_block_ids x) (so_num_scheduled_tokens out) s
            | None \<Rightarrow> Inr ({}, s)) (\<lambda>(failed, s1).
     rbind (update_loop env out mr failed (so_num_scheduled_tokens out) s1
              \<lparr>stopped_running = {}, stopped_preempted = {}, us_outputs = []\<rparr>) (\<lambda>(s2, u).
       let s3 = s2\<lparr>running := remove_all (running s2) (stopped_running u)\<rparr>;
           s4 = (if stopped_preempted u = {} then s3
                 else s3\<lparr>waiting := queue_remove_requests (objs s3) (sorted_list_of_set (stopped_preempted u)) (waiting s3)\<rparr>)
       in rbind (if failed \<noteq> {} \<and> \<not> recompute_kv_load_failures (cfg s4)
                 then rbind (get_all (requests s4) (sorted_list_of_set failed)) (\<lambda>as.
                      rbind (finish_requests env (Some (sorted_list_of_set failed)) FINISHED_ERROR s4) (\<lambda>(_, s5).
                        Inr (s5, error_outputs s5 as (us_outputs u))))
                 else Inr (s4, us_outputs u)) (\<lambda>(s5, outs).
          rbind (case mr_kv_connector_output mr of None \<Rightarrow> Inr s5 | Some x \<Rightarrow> update_from_kv_xfer_finished x s5) (\<lambda>s6.
            let (events, p) = take_events (c_pool (coordinator (kv s6)));
                s7 = s6\<lparr>kv := (kv s6)\<lparr>coordinator := (coordinator (kv s6))\<lparr>c_pool := p\<rparr>\<rparr>,
                        finished_req_ids_dict := map_option (\<lambda>_ _. {}) (finished_req_ids_dict s6)\<rparr>
            in Inr (outs, finished_req_ids_dict s6, events, s7)))))"

subsection \<open>Draft tokens, resets and counters\<close>

fun update_draft_token_ids :: "sched_env \<Rightarrow> (string \<times> int list) list \<Rightarrow> scheduler \<Rightarrow> scheduler" where
  "update_draft_token_ids env [] s = s"
| "update_draft_token_ids env ((rid, ts) # ds) s =
     update_draft_token_ids env ds
       (case map_of (requests s) rid of
          None \<Rightarrow> s
        | Some a \<Rightarrow>
            let r = objs s a in
            if is_finished r then s
            else if is_prefill_chunk r then upd_req a (\<lambda>r. r\<lparr>spec_token_ids := []\<rparr>) s
            else upd_req a (\<lambda>r. r\<lparr>spec_token_ids := (if should_advance env r then validate_tokens env rid ts else ts)\<rparr>) s)"

fun draft_output_loop ::
  "sched_env \<Rightarrow> scheduler \<Rightarrow> (string \<times> int list) list \<Rightarrow> (string \<times> int list) list \<Rightarrow> (string \<times> nat) list \<Rightarrow>
     (string \<times> int list) list \<times> (string \<times> nat) list" where
  "draft_output_loop env s [] sched invalid = (sched, invalid)"
| "draft_output_loop env s ((rid, ts) # ds) sched invalid =
     (case (map_of (requests s) rid, map_of sched rid) of
        (Some a, Some (p # ps)) \<Rightarrow>
          if is_finished (objs s a) then draft_output_loop env s ds sched invalid
          else let n = length (p # ps);
                   t1 = take n ts;
                   t2 = (if should_advance env (objs s a) then validate_tokens env rid t1 else t1);
                   k = n - length t2
               in draft_output_loop env s ds (AList.update rid (t2 @ replicate k (-1)) sched)
                    (if k \<noteq> 0 then AList.update rid k invalid else invalid)
      | _ \<Rightarrow> draft_output_loop env s ds sched invalid)"

definition update_draft_token_ids_in_output ::
  "sched_env \<Rightarrow> (string \<times> int list) list \<Rightarrow> scheduler_output \<Rightarrow> scheduler \<Rightarrow> scheduler_output" where
  "update_draft_token_ids_in_output env drafts out s =
     (let (sched, invalid) = draft_output_loop env s drafts (so_scheduled_spec_decode_tokens out) []
      in out\<lparr>so_scheduled_spec_decode_tokens := sched, so_num_invalid_spec_tokens := invalid\<rparr>)"

function preempt_all :: "scheduler \<Rightarrow> scheduler res" where
  "preempt_all s =
     (if running s = [] then Inr s
      else let a = last (running s)
           in rbind (preempt_request a (s\<lparr>running := butlast (running s)\<rparr>)) (\<lambda>s1.
                preempt_all (upd_req a (\<lambda>r. r\<lparr>async_tokens_to_discard := num_output_placeholders r,
                                               num_output_placeholders := 0\<rparr>) s1)))"
  by pat_completeness auto
termination
  by (relation "measure (\<lambda>s. length (running s))") (auto dest!: preempt_request_running simp: upd_req_def)

declare preempt_all.simps [simp del]

definition sched_reset_prefix_cache :: "bool \<Rightarrow> scheduler \<Rightarrow> (bool \<times> scheduler) res" where
  "sched_reset_prefix_cache reset_running_requests s =
     rbind (if reset_running_requests
            then rbind (preempt_all s) (\<lambda>s1. Inr (s1\<lparr>prev_step_scheduled_req_ids := {}\<rparr>)) else Inr s) (\<lambda>s1.
       let (ok, k) = kv_reset_prefix_cache (kv s1)
       in if reset_running_requests \<and> \<not> ok then Inl RuntimeError else Inr (ok, s1\<lparr>kv := k\<rparr>))"

definition reset_encoder_cache :: "scheduler \<Rightarrow> scheduler" where
  "reset_encoder_cache s = s\<lparr>encoder_mgr := enc_reset (encoder_mgr s)\<rparr>"

definition set_pause_state :: "pause_state \<Rightarrow> scheduler \<Rightarrow> scheduler" where
  "set_pause_state p s = s\<lparr>sched_pause_state := p\<rparr>"

definition get_request_counts :: "scheduler \<Rightarrow> nat \<times> nat" where
  "get_request_counts s = (length (running s), queue_len (waiting s) + queue_len (skipped_waiting s))"

definition get_num_unfinished_requests :: "scheduler \<Rightarrow> int" where
  "get_num_unfinished_requests s =
     (case sched_pause_state s of
        PAUSED_ALL \<Rightarrow> 0
      | PAUSED_NEW \<Rightarrow> int (length (running s))
      | UNPAUSED \<Rightarrow> int (queue_len (waiting s)) + int (queue_len (skipped_waiting s))
          - num_waiting_for_streaming_input s + int (length (running s)))"

definition has_finished_requests :: "sched_env \<Rightarrow> scheduler \<Rightarrow> bool" where
  "has_finished_requests env s =
     (if finished_req_ids s \<noteq> {} then True
      else if env_connector env = None then False
      else length (requests s) > queue_len (waiting s) + queue_len (skipped_waiting s) + length (running s))"

end
