(* ===== verification/VL_SchedProofs.thy ===== *)
theory VL_SchedProofs
  imports VL_SchedInv VL_SchedUpdate VL_KVProofs
begin

text \<open>
  Properties of \<open>schedule\<close> as a whole: no request is lost, the limits are kept, the assertions
  hold, and each policy treats the order of requests as it should.
\<close>

subsection \<open>The whole step\<close>

text \<open>The amounts are accounted for when the running requests fit into the model.\<close>

definition fits_budget :: "int option \<Rightarrow> scheduler \<Rightarrow> bool" where
  "fits_budget B s \<longleftrightarrow> B = None \<or> B = Some (token_budget (sched_step_init s)) \<and> 0 \<le> max_num_scheduled_tokens (cfg s) \<and>
     (\<forall>a \<in> set (running s). req_fits (cfg s) (objs s a))"

lemma step_ok_init: "fits_budget B s \<Longrightarrow> step_ok B s (sched_step_init s)"
  by (auto simp: fits_budget_def step_ok_def sched_step_init_def scheduled_reqs_def total_scheduled_def)

text \<open>The two loops, and the queue of the requests skipped between them.\<close>

lemma schedule_requests_cases:
  assumes run: "schedule_requests env s = Inr (s', t)"
  obtains t1 where "running_loop env (s\<lparr>kv := kv_new_step_starts (kv s)\<rparr>) (sched_step_init s) 0 = Inr (s', t1)"
      "t = t1\<lparr>scheduled_loras := scheduled_loras_of s' t1\<rparr>"
  | s1 t1 s2 where "running_loop env (s\<lparr>kv := kv_new_step_starts (kv s)\<rparr>) (sched_step_init s) 0 = Inr (s1, t1)"
      "preempted_reqs t1 = []" "waiting_loop env s1 (t1\<lparr>scheduled_loras := scheduled_loras_of s1 t1\<rparr>) = Inr (s2, t)"
      "s' = (if queue_bool (step_skipped_waiting t)
          then s2\<lparr>skipped_waiting := queue_prepend_requests (objs s2) (step_skipped_waiting t) (skipped_waiting s2)\<rparr> else s2)"
proof -
  obtain s1 t1 where r: "running_loop env (s\<lparr>kv := kv_new_step_starts (kv s)\<rparr>) (sched_step_init s) 0 = Inr (s1, t1)"
    using run unfolding schedule_requests_def by (auto simp: rbind_Inr_iff)
  let ?t2 = "t1\<lparr>scheduled_loras := scheduled_loras_of s1 t1\<rparr>"
  have rest: "(if preempted_reqs ?t2 = [] \<and> sched_pause_state s1 = UNPAUSED
          then rbind (waiting_loop env s1 ?t2) (\<lambda>(s2, t3).
                 Inr (if queue_bool (step_skipped_waiting t3)
                      then s2\<lparr>skipped_waiting := queue_prepend_requests (objs s2) (step_skipped_waiting t3) (skipped_waiting s2)\<rparr>
                      else s2, t3))
          else Inr (s1, ?t2)) = Inr (s', t)"
    using run r unfolding schedule_requests_def Let_def
    by (simp add: rbind_Inr_iff [of "guard_err _ _"] del: split_paired_Ex)
  show thesis
  proof (cases "preempted_reqs ?t2 = [] \<and> sched_pause_state s1 = UNPAUSED")
    case False
    then have "s' = s1" "t = ?t2" using rest by auto
    then show thesis using that(1) r by simp
  next
    case True
    then obtain s2 where "waiting_loop env s1 ?t2 = Inr (s2, t)"
      "s' = (if queue_bool (step_skipped_waiting t)
          then s2\<lparr>skipped_waiting := queue_prepend_requests (objs s2) (step_skipped_waiting t) (skipped_waiting s2)\<rparr> else s2)"
      using rest by (auto simp: rbind_Inr_iff)
    then show thesis using that(2) r True by simp
  qed
qed

lemma requeue_skipped:
  assumes "s' = (if queue_bool q then s2\<lparr>skipped_waiting := queue_prepend_requests rs q (skipped_waiting s2)\<rparr> else s2)"
  shows "queue_mset (skipped_waiting s') = queue_mset q + queue_mset (skipped_waiting s2)"
proof (cases "queue_bool q")
  case True
  then have "skipped_waiting s' = queue_prepend_requests rs q (skipped_waiting s2)" using assms by simp
  then show ?thesis by (simp only: queue_mset_prepend_requests)
next
  case False
  then have "queue_mset q = {#}" by (simp add: queue_bool_def queue_mset_def queue_len_def)
  then show ?thesis using assms False by simp
qed

lemma requeue_places:
  assumes inv: "place_inv Q s2 t"
    and s': "s' = (if queue_bool (step_skipped_waiting t)
          then s2\<lparr>skipped_waiting := queue_prepend_requests (objs s2) (step_skipped_waiting t) (skipped_waiting s2)\<rparr> else s2)"
  shows "sched_ok s' {#}" "all_reqs s' {#} = Q"
proof -
  have all: "all_reqs s' {#} = all_reqs s2 (queue_mset (step_skipped_waiting t))"
    using requeue_skipped [OF s'] s' by (simp add: all_reqs_def ac_simps)
  show "sched_ok s' {#}"
    by (rule sched_ok_cong [OF _ all]) (use inv s' in \<open>simp_all add: place_inv_def\<close>)
  show "all_reqs s' {#} = Q" using all inv by (simp add: place_inv_def)
qed

lemma schedule_requests_places:
  assumes run: "schedule_requests env s = Inr (s', t)" and ok: "sched_ok s {#}"
  shows "sched_ok s' {#} \<and> all_reqs s' {#} = all_reqs s {#}"
proof -
  let ?Q = "all_reqs s {#}"
  have P: "place_inv ?Q s1 t1 \<and> queue_mset (step_skipped_waiting t1) = {#}"
    if r: "running_loop env (s\<lparr>kv := kv_new_step_starts (kv s)\<rparr>) (sched_step_init s) 0 = Inr (s1, t1)" for s1 t1
  proof
    have "place_inv ?Q s (sched_step_init s)" using ok by (simp add: place_inv_def sched_step_init_def)
    then have "place_inv ?Q (s\<lparr>kv := kv_new_step_starts (kv s)\<rparr>) (sched_step_init s)" by (rule place_inv_same) simp_all
    then show "place_inv ?Q s1 t1" by (rule running_places [OF r])
    show "queue_mset (step_skipped_waiting t1) = {#}"
      using running_step_skipped [OF r] by (simp add: sched_step_init_def)
  qed
  show ?thesis
    using run
  proof (cases rule: schedule_requests_cases)
    case (1 t1)
    then show ?thesis using P by (fastforce simp: place_inv_def)
  next
    case (2 s1 t1 s2)
    have "place_inv ?Q s1 (t1\<lparr>scheduled_loras := scheduled_loras_of s1 t1\<rparr>)"
      by (rule place_inv_step) (use P [OF 2(1)] in simp_all)
    then have "place_inv ?Q s2 t"
      by (rule waiting_rule [where I = "place_inv ?Q", OF 2(3)]) (rule waiting_step_places)
    then show ?thesis using requeue_places [OF _ 2(4)] by blast
  qed
qed

lemma phase_inv_loras: "phase_inv Q B c s (t\<lparr>scheduled_loras := x\<rparr>) = phase_inv Q B c s t"
  by (simp add: phase_inv_def step_ok_def scheduled_reqs_def total_scheduled_def)

lemma schedule_requests_inv:
  assumes run: "schedule_requests env s = Inr (s', t)"
    and ok: "sched_ok s {#}" and fits: "fits_budget B s"
    and lim: "length (running s) \<le> max_num_running_reqs (cfg s)"
  shows "cfg s' = cfg s" "length (running s') \<le> max_num_running_reqs (cfg s)" "step_ok B s' t"
proof -
  let ?Q = "all_reqs s {#}" and ?s0 = "s\<lparr>kv := kv_new_step_starts (kv s)\<rparr>"
  have "run_inv ?Q B s (sched_step_init s) 0"
    using ok fits step_ok_init [OF fits] by (auto simp: run_inv_def sched_step_init_def fits_budget_def)
  then have I: "run_inv ?Q B ?s0 (sched_step_init s) 0" by (rule run_inv_queues) (simp_all add: same_queues_def)
  have P: "phase_inv ?Q B (cfg s) s1 (t1\<lparr>scheduled_loras := x\<rparr>)"
    if "running_loop env ?s0 (sched_step_init s) 0 = Inr (s1, t1)" for s1 t1 x
    using running_phase [OF that I, of "cfg s"] lim by (simp add: phase_inv_loras)
  have "cfg s' = cfg s \<and> length (running s') \<le> max_num_running_reqs (cfg s) \<and> step_ok B s' t"
    using run
  proof (cases rule: schedule_requests_cases)
    case (1 t1)
    show ?thesis
      using P [OF 1(1), of "scheduled_loras_of s' t1"] unfolding 1(2) [symmetric] phase_inv_def by blast
  next
    case (2 s1 t1 s2)
    have W: "wait_inv ?Q B (cfg s) s2 t"
    proof (rule waiting_rule [where I = "wait_inv ?Q B (cfg s)", OF 2(3)])
      show "wait_inv ?Q B (cfg s) s1 (t1\<lparr>scheduled_loras := scheduled_loras_of s1 t1\<rparr>)"
        using P [OF 2(1)] 2(2) by (simp add: wait_inv_def)
    qed (rule waiting_step_inv)
    then show ?thesis using 2(4) by (simp add: wait_inv_def phase_inv_def step_ok_def)
  qed
  then show "cfg s' = cfg s" "length (running s') \<le> max_num_running_reqs (cfg s)" "step_ok B s' t" by simp_all
qed

lemma max_by_max: "\<forall>a \<in> set (best # xs). key a \<le> key (max_by key best xs)"
  by (induction key best xs rule: max_by.induct) (auto intro: order.trans split: if_splits)

lemma step_ok_checks:
  assumes "step_ok (Some (token_budget (sched_step_init s))) s' t" "cfg s' = cfg s" "0 \<le> max_num_scheduled_tokens (cfg s)"
    "length (running s') \<le> max_num_running_reqs (cfg s)"
  shows "schedule_checks s' t"
proof -
  have d: "distinct (scheduled_reqs t)" "set (scheduled_reqs t) \<subseteq> set (running s')" using assms(1) by (simp_all add: step_ok_def)
  have "length (scheduled_reqs t) = card (set (scheduled_reqs t))" using distinct_card [OF d(1)] by simp
  also have "\<dots> \<le> card (set (running s'))" by (rule card_mono [OF _ d(2)]) simp
  also have "\<dots> \<le> length (running s')" by (rule card_length)
  finally have len: "length (scheduled_new_reqs t) + length (scheduled_resumed_reqs t) + length (scheduled_running_reqs t)
    \<le> length (running s')" by (simp add: scheduled_reqs_def)
  have "token_budget (sched_step_init s) \<le> max_num_scheduled_tokens (cfg s)" using assms(3) by (simp add: sched_step_init_def)
  moreover have "token_budget t + total_scheduled t = token_budget (sched_step_init s)" "0 \<le> token_budget t"
    using assms(1) by (simp_all add: step_ok_def)
  ultimately show ?thesis using assms(2,4) len by (simp add: schedule_checks_def)
qed

text \<open>The output and the bookkeeping after the step leave the queues alone.\<close>

lemma make_output_frame:
  assumes "make_output s t = Inr (s', out)"
  shows "same_queues s s'" "objs s' = objs s" "so_num_scheduled_tokens out = num_scheduled_tokens t"
    "so_total_num_scheduled_tokens out = total_scheduled t"
    "so_preempted_req_ids out = (\<lambda>a. request_id (objs s a)) ` set (preempted_reqs t)"
  using assms by (auto simp: make_output_def Let_def rbind_Inr_iff same_queues_def case_prod_unfold)

definition same_ids :: "scheduler \<Rightarrow> scheduler \<Rightarrow> bool" where
  "same_ids s s' \<longleftrightarrow> same_queues s s' \<and> (\<forall>x. request_id (objs s' x) = request_id (objs s x) \<and> status (objs s' x) = status (objs s x))"

lemma same_ids_upd:
  "same_ids s s' \<Longrightarrow> request_id (f (objs s' a)) = request_id (objs s' a) \<Longrightarrow> status (f (objs s' a)) = status (objs s' a) \<Longrightarrow>
    same_ids s (upd_req a f s')"
  by (simp add: same_ids_def upd_req_def same_queues_def)

lemma same_ids_trans: "same_ids s s1 \<Longrightarrow> same_ids s1 s2 \<Longrightarrow> same_ids s s2"
  by (auto simp: same_ids_def dest: same_queues_trans)

lemma advance_loop_frame: "advance_loop ns s b = Inr (s', b') \<Longrightarrow> same_ids s s'"
proof (induction ns arbitrary: s b)
  case (Cons x ns)
  obtain rid n where x: "x = (rid, n)" by (cases x)
  obtain a where a: "dict_get (requests s) rid = Inr a" using Cons.prems unfolding x by (auto simp: rbind_Inr_iff)
  let ?s1 = "upd_req a (\<lambda>r. let nc = nat (int (num_computed_tokens r) + n)
                  in r\<lparr>num_computed_tokens := nc, is_prefill_chunk := nc < num_tokens r + num_output_placeholders r\<rparr>) s"
  have "same_ids s ?s1" by (rule same_ids_upd) (simp_all add: same_ids_def Let_def)
  moreover have "same_ids ?s1 s'" using Cons.prems a unfolding x by (auto simp: Let_def intro: Cons.IH)
  ultimately show ?case by (rule same_ids_trans)
qed (simp add: same_ids_def)

lemma placeholder_loop_frame: "placeholder_loop out ns s b = Inr (s', b') \<Longrightarrow> same_ids s s'"
proof (induction ns arbitrary: s b)
  case (Cons x ns)
  obtain rid n where x: "x = (rid, n)" by (cases x)
  obtain a where a: "dict_get (requests s) rid = Inr a" using Cons.prems unfolding x by (auto simp: rbind_Inr_iff)
  show ?case
  proof (cases "is_prefill_chunk (objs s a)")
    case True
    then show ?thesis using Cons.prems Cons.IH a unfolding x by (auto simp: Let_def)
  next
    case False
    let ?k = "case map_of (so_scheduled_spec_decode_tokens out) rid of None \<Rightarrow> 0 | Some ts \<Rightarrow> length ts"
    let ?s1 = "upd_req a (\<lambda>r. r\<lparr>num_output_placeholders := num_output_placeholders r + 1 + ?k,
                                 spec_token_ids := replicate (num_spec_tokens (cfg s)) (-1)\<rparr>) s"
    have "same_ids s ?s1" by (rule same_ids_upd) (simp_all add: same_ids_def)
    moreover have "same_ids ?s1 s'" using Cons.prems a False unfolding x by (auto simp: Let_def intro: Cons.IH)
    ultimately show ?thesis by (rule same_ids_trans)
  qed
qed (simp add: same_ids_def)

lemma after_schedule_frame:
  assumes "(if async then async_update_after_schedule out s else update_after_schedule out s) = Inr (s', out')"
  shows "same_ids s s'" "so_num_scheduled_tokens out' = so_num_scheduled_tokens out"
    "so_total_num_scheduled_tokens out' = so_total_num_scheduled_tokens out"
    "so_preempted_req_ids out' = so_preempted_req_ids out"
proof -
  have U: "same_ids s s1 \<and> so_num_scheduled_tokens out1 = so_num_scheduled_tokens out \<and>
      so_total_num_scheduled_tokens out1 = so_total_num_scheduled_tokens out \<and> so_preempted_req_ids out1 = so_preempted_req_ids out"
    if u: "update_after_schedule out s = Inr (s1, out1)" for s1 out1
  proof -
    obtain s2 b where "advance_loop (so_num_scheduled_tokens out) s (so_has_structured_output_requests out) = Inr (s2, b)"
      "s1 = s2\<lparr>finished_req_ids := {}\<rparr>" "out1 = out\<lparr>so_has_structured_output_requests := b\<rparr>"
      using u by (auto simp: update_after_schedule_def rbind_Inr_iff)
    then show ?thesis using advance_loop_frame by (force simp: same_ids_def same_queues_def)
  qed
  have "same_ids s s' \<and> so_num_scheduled_tokens out' = so_num_scheduled_tokens out \<and>
      so_total_num_scheduled_tokens out' = so_total_num_scheduled_tokens out \<and> so_preempted_req_ids out' = so_preempted_req_ids out"
  proof (cases async)
    case False
    then show ?thesis using U assms by simp
  next
    case True
    then obtain s1 out1 s2 b where u: "update_after_schedule out s = Inr (s1, out1)"
      "placeholder_loop out1 (so_num_scheduled_tokens out1) s1 (so_pending_structured_output_tokens out1) = Inr (s2, b)"
      "s' = s2" "out' = out1\<lparr>so_pending_structured_output_tokens := b\<rparr>"
      using assms by (auto simp: async_update_after_schedule_def rbind_Inr_iff)
    show ?thesis using U [OF u(1)] same_ids_trans placeholder_loop_frame [OF u(2)] u(3,4) by auto
  qed
  then show "same_ids s s'" "so_num_scheduled_tokens out' = so_num_scheduled_tokens out"
    "so_total_num_scheduled_tokens out' = so_total_num_scheduled_tokens out"
    "so_preempted_req_ids out' = so_preempted_req_ids out" by simp_all
qed

lemma same_ids_ok:
  assumes "same_ids s s'"
  shows "all_reqs s' extra = all_reqs s extra" "sched_ok s' extra = sched_ok s extra" "step_ok B s' t = step_ok B s t"
proof -
  have q: "waiting s' = waiting s" "skipped_waiting s' = skipped_waiting s" "running s' = running s" "requests s' = requests s"
    and i: "\<And>x. request_id (objs s' x) = request_id (objs s x)" "\<And>x. status (objs s' x) = status (objs s x)"
    using assms by (auto simp: same_ids_def same_queues_def)
  show "all_reqs s' extra = all_reqs s extra" "sched_ok s' extra = sched_ok s extra"
    using sched_ok_same [of s s'] assms by (simp_all add: same_ids_def)
  show "step_ok B s' t = step_ok B s t" by (simp add: step_ok_def q i)
qed

lemma schedule_cases:
  assumes "schedule env s = Inr (s', out)"
  obtains s1 t s2 out1 where "schedule_requests env s = Inr (s1, t)" "make_output s1 t = Inr (s2, out1)"
    "(if async_scheduling (cfg s) then async_update_after_schedule out1 s2 else update_after_schedule out1 s2) = Inr (s', out)"
proof -
  obtain s1 t where run: "schedule_requests env s = Inr (s1, t)" "schedule_checks s1 t"
    and rest: "rbind (make_output s1 t) (\<lambda>(s2, out1).
       if async_scheduling (cfg s) then async_update_after_schedule out1 s2 else update_after_schedule out1 s2) = Inr (s', out)"
    using assms unfolding schedule_def by (auto simp: rbind_Inr_iff)
  then obtain s2 out1 where m: "make_output s1 t = Inr (s2, out1)"
    and u: "(if async_scheduling (cfg s) then async_update_after_schedule out1 s2 else update_after_schedule out1 s2) = Inr (s', out)"
    by (auto simp: rbind_Inr_iff)
  show thesis using that run(1) m u by simp
qed

subsection \<open>First come, first served\<close>

definition fcfs_order :: "nat list \<Rightarrow> request_queue \<Rightarrow> scheduler \<Rightarrow> bool" where
  "fcfs_order os k s \<longleftrightarrow> policy (cfg s) = FCFS \<and> skipped_waiting s = k \<and>
     (\<exists>ws. waiting s = FCFSRequestQueue ws \<and> running s @ ws = os)"

lemma fcfs_order_same: "fcfs_order os k s \<Longrightarrow> same_queues s s' \<Longrightarrow> fcfs_order os k s'"
  by (simp add: fcfs_order_def same_queues_def)

lemma fcfs_order_kv: "fcfs_order os k s \<Longrightarrow> fcfs_order os k (s\<lparr>kv := x\<rparr>)"
  by (simp add: fcfs_order_def)

lemma fcfs_order_preempt:
  assumes "fcfs_order os k s" "pick_victim s t i = Inr (v, s2, t2, i2)" "preempt_request v s2 = Inr s3"
  shows "fcfs_order os k s3"
proof -
  obtain ws where o: "policy (cfg s) = FCFS" "skipped_waiting s = k" "waiting s = FCFSRequestQueue ws" "running s @ ws = os"
    using assms(1) by (auto simp: fcfs_order_def)
  have p: "running s \<noteq> []" "v = last (running s)" "s2 = s\<lparr>running := butlast (running s)\<rparr>"
    using assms(2) o(1) by (auto simp: pick_victim_def split: if_splits)
  let ?pre = "\<lambda>r. r\<lparr>status := PREEMPTED, num_computed_tokens := 0, spec_token_ids := [], num_preemptions := num_preemptions r + 1\<rparr>"
  obtain k' m where s3: "s3 = (let s1 = upd_req v ?pre (s2\<lparr>kv := k', encoder_mgr := m\<rparr>)
      in s1\<lparr>waiting := queue_prepend (objs s1) v (waiting s1)\<rparr>)"
    using assms(3) unfolding preempt_request_def Let_def rbind_Inr_iff guard_err_Inr_iff by blast
  have "running s3 = butlast (running s)" "waiting s3 = FCFSRequestQueue (v # ws)" "skipped_waiting s3 = k" "cfg s3 = cfg s"
    using s3 p(3) o by (simp_all add: Let_def upd_req_def fcfs_prepend_def)
  moreover have "butlast (running s) @ [v] = running s" using p by simp
  ultimately show ?thesis using o by (metis append.assoc append_Cons append_Nil fcfs_order_def)
qed

lemma running_phase_order:
  assumes "running_loop env s t i = Inr (s', t')" "fcfs_order os k s"
  shows "fcfs_order os k s'"
proof (rule running_rule [where I = "\<lambda>s t i. fcfs_order os k s" and J = "\<lambda>a n s t i. fcfs_order os k s"
      and F = "\<lambda>s t. fcfs_order os k s", OF assms], goal_cases)
  case (2 s t i p s1)
  then show ?case using plan_running_frame fcfs_order_same by blast
next
  case (3 s t i n p s1)
  then show ?case using plan_running_frame fcfs_order_same by blast
next
  case (7 a n p bs s t i s3 t3)
  then show ?case using commit_running_cases(1) fcfs_order_same by blast
qed (blast intro: fcfs_order_preempt fcfs_order_kv)+

definition waiting_order :: "nat list \<Rightarrow> scheduler \<Rightarrow> sched_step \<Rightarrow> bool" where
  "waiting_order os s t \<longleftrightarrow> policy (cfg s) = FCFS \<and> skipped_waiting s = FCFSRequestQueue [] \<and>
     (\<exists>ws ks. waiting s = FCFSRequestQueue ws \<and> step_skipped_waiting t = FCFSRequestQueue ks \<and>
       (ks = [] \<longrightarrow> running s @ ws = os))"

lemma waiting_order_pop:
  assumes o: "waiting_order os s t" and sel: "select_waiting_queue_for_scheduling s = Inr (Some sel)"
    and s1: "same_queues s s1" and pop: "queue_pop rs (sel_queue sel s1) = Inr (a, q)"
  obtains ws where "waiting s = FCFSRequestQueue (a # ws)" "sel = Waiting" "q = FCFSRequestQueue ws"
proof -
  obtain xs where xs: "policy (cfg s) = FCFS" "skipped_waiting s = FCFSRequestQueue []" "waiting s = FCFSRequestQueue xs"
    using o by (auto simp: waiting_order_def)
  have "sel = Waiting"
    using sel xs by (auto simp: select_waiting_queue_for_scheduling_def queue_bool_def queue_len_def split: if_splits)
  moreover have "waiting s1 = FCFSRequestQueue xs" using s1 xs by (simp add: same_queues_def)
  ultimately show thesis using pop xs that by (auto simp: fcfs_pop_def split: list.splits)
qed

lemma waiting_step_order:
  assumes o: "waiting_order os s t" and step: "waiting_step env s t = Inr (continues, s', t')"
  shows "waiting_order os s' t'"
proof -
  obtain ws0 ks where w: "policy (cfg s) = FCFS" "skipped_waiting s = FCFSRequestQueue []" "waiting s = FCFSRequestQueue ws0"
    "step_skipped_waiting t = FCFSRequestQueue ks" "ks = [] \<Longrightarrow> running s @ ws0 = os"
    using o by (auto simp: waiting_order_def)
  have same: "same_queues s s1" if "s1 = s \<or> (\<exists>b. try_promote_blocked_waiting_request env a s = Inr (b, s1))" for a s1
    using that try_promote_queues by auto
  have selq: "sel_queue sel s1 = sel_queue sel s" if "same_queues s s1" for s1 sel
    using that by (cases sel) (simp_all add: same_queues_def)
  show ?thesis
    using step
  proof (cases rule: waiting_step_cases)
    case (1 sel a s1)
    have S: "same_queues s s1" using same 1(3) by blast
    obtain x q where k: "queue_pop (objs s1) (sel_queue sel s1) = Inr (x, q)" "s' = set_queue sel q s1"
      "t' = t\<lparr>step_skipped_waiting := queue_prepend (objs s1) a (step_skipped_waiting t)\<rparr>"
      using 1(5) by (auto simp: skip_request_def rbind_Inr_iff)
    obtain ws where "sel = Waiting" "q = FCFSRequestQueue ws" by (rule waiting_order_pop [OF o 1(1) S k(1)])
    then show ?thesis using k S w by (simp add: waiting_order_def same_queues_def fcfs_prepend_def)
  next
    case (2 sel a s1 comput s2 n p enc new k)
    have "same_queues s s1" using same 2(3) by blast
    then have S: "same_queues s (s2\<lparr>kv := k\<rparr>)" using plan_waiting_queues [OF 2(6)] same_queues_trans by simp
    obtain nb nl ne la nc where co: "comput = (nb, nl, ne, la, nc)" by (cases comput) auto
    have peek: "queue_peek (sel_queue sel (s2\<lparr>kv := k\<rparr>)) = Inr a" using selq [OF S] 2(2) by simp
    from 2(8) [unfolded co] peek show ?thesis
    proof (cases rule: commit_waiting_cases)
      case c: (1 q)
      obtain ws where "sel = Waiting" "q = FCFSRequestQueue ws" by (rule waiting_order_pop [OF o 2(1) S c(2)])
      then show ?thesis using c(3,4) S w by (simp add: waiting_order_def same_queues_def upd_req_def fcfs_prepend_def)
    next
      case c: (2 q bs)
      obtain ws where "waiting s = FCFSRequestQueue (a # ws)" "sel = Waiting" "q = FCFSRequestQueue ws"
        by (rule waiting_order_pop [OF o 2(1) S c(2)])
      then show ?thesis using c(3,4,11) S w by (simp add: waiting_order_def same_queues_def)
    qed
  next
    case (3 sel a s1)
    have "same_queues s s1" using same 3(3) by blast
    then have "same_queues s s'" using 3(6) same_queues_trans by blast
    then show ?thesis using 3(5) o by (simp add: waiting_order_def same_queues_def)
  qed
qed

lemma commit_waiting_preempted:
  assumes c: "commit_waiting env sel rid comput n p s t = Inr (s', t')"
  shows "preempted_reqs t' = preempted_reqs t"
proof -
  obtain nb nl ne la nc where co: "comput = (nb, nl, ne, la, nc)" by (cases comput) auto
  obtain b q where "queue_pop (objs s) (sel_queue sel s) = Inr (b, q)"
    using c by (auto simp: commit_waiting_def rbind_Inr_iff split: prod.splits)
  then have "queue_peek (sel_queue sel s) = Inr b" using queue_pop_mset by blast
  from c [unfolded co] this show ?thesis by (cases rule: commit_waiting_cases) simp_all
qed

lemma waiting_preempted:
  assumes "waiting_loop env s t = Inr (s', t')"
  shows "preempted_reqs t' = preempted_reqs t"
proof (rule waiting_rule [where I = "\<lambda>s u. preempted_reqs u = preempted_reqs t", OF assms])
  fix s u b s2 u2 assume u: "preempted_reqs u = preempted_reqs t" and step: "waiting_step env s u = Inr (b, s2, u2)"
  show "preempted_reqs u2 = preempted_reqs t"
    using step
  proof (cases rule: waiting_step_cases)
    case 1
    then show ?thesis using u by (auto simp: skip_request_def rbind_Inr_iff)
  next
    case (2 sel a s1 comput s3 n p enc new k)
    then show ?thesis using u commit_waiting_preempted by metis
  qed (use u in simp)
qed simp

lemma schedule_requests_order:
  assumes run: "schedule_requests env s = Inr (s', t)" and p: "policy (cfg s) = FCFS" and ws: "waiting s = FCFSRequestQueue ws"
    and c: "preempted_reqs t \<noteq> [] \<or> skipped_waiting s = FCFSRequestQueue [] \<and> skipped_waiting s' = FCFSRequestQueue []"
  shows "\<exists>ws'. waiting s' = FCFSRequestQueue ws' \<and> running s' @ ws' = running s @ ws"
proof -
  let ?s0 = "s\<lparr>kv := kv_new_step_starts (kv s)\<rparr>" and ?os = "running s @ ws"
  have first: "fcfs_order ?os (skipped_waiting s) s1" if "running_loop env ?s0 (sched_step_init s) 0 = Inr (s1, t1)" for s1 t1
    by (rule running_phase_order [OF that]) (simp add: fcfs_order_def p ws)
  show ?thesis
    using run
  proof (cases rule: schedule_requests_cases)
    case (1 t1)
    then show ?thesis using first by (auto simp: fcfs_order_def)
  next
    case (2 s1 t1 s2)
    let ?t2 = "t1\<lparr>scheduled_loras := scheduled_loras_of s1 t1\<rparr>"
    have o1: "fcfs_order ?os (skipped_waiting s) s1" using first 2(1) by blast
    have step0: "step_skipped_waiting t1 = FCFSRequestQueue []" using running_step_skipped [OF 2(1)] p
      by (simp add: sched_step_init_def create_request_queue_def)
    have "preempted_reqs t = []" using waiting_preempted [OF 2(3)] 2(2) by simp
    then have k: "skipped_waiting s = FCFSRequestQueue []" "skipped_waiting s' = FCFSRequestQueue []" using c by simp_all
    have "waiting_order ?os s2 t"
    proof (rule waiting_rule [where I = "waiting_order ?os", OF 2(3)])
      show "waiting_order ?os s1 ?t2" using o1 k(1) step0 by (auto simp: waiting_order_def fcfs_order_def)
    qed (rule waiting_step_order)
    then obtain ws2 ks where W: "waiting s2 = FCFSRequestQueue ws2" "step_skipped_waiting t = FCFSRequestQueue ks"
      "skipped_waiting s2 = FCFSRequestQueue []" "ks = [] \<Longrightarrow> running s2 @ ws2 = ?os"
      by (auto simp: waiting_order_def)
    have "queue_mset (skipped_waiting s') = queue_mset (step_skipped_waiting t) + queue_mset (skipped_waiting s2)"
      by (rule requeue_skipped [OF 2(4)])
    then have "ks = []" using k(2) W(2,3) by (simp add: queue_mset_def)
    then show ?thesis using 2(4) W by (simp add: queue_bool_def queue_len_def)
  qed
qed

subsection \<open>Well-formed schedulers\<close>

text \<open>Every queued or running request is in one place only, known by its id, with the status of
  its place, and every request that is known and not finished is in some place.\<close>

definition sched_wf :: "scheduler \<Rightarrow> bool" where
  "sched_wf s \<longleftrightarrow>
     (let queued_reqs = queue_refs (waiting s) @ queue_refs (skipped_waiting s); refs = running s @ queued_reqs
      in distinct refs \<and>
         list_all (\<lambda>a. map_of (requests s) (request_id (objs s a)) = Some a) refs \<and>
         distinct (map fst (requests s)) \<and>
         list_all (\<lambda>(rid, a). request_id (objs s a) = rid) (requests s) \<and>
         list_all (\<lambda>(rid, a). is_finished (objs s a) \<or> a \<in> set refs) (requests s) \<and>
         list_all (\<lambda>a. status (objs s a) = RUNNING) (running s) \<and>
         list_all (\<lambda>a. status (objs s a) \<noteq> RUNNING \<and> \<not> is_finished (objs s a)) queued_reqs)"

definition places :: "scheduler \<Rightarrow> nat multiset" where
  "places s = mset (running s @ queue_refs (waiting s) @ queue_refs (skipped_waiting s))"

text \<open>The limits of the configuration hold and no running request has computed more tokens than it has.\<close>

definition sched_ready :: "scheduler \<Rightarrow> bool" where
  "sched_ready s \<longleftrightarrow> 0 \<le> max_num_scheduled_tokens (cfg s) \<and> length (running s) \<le> max_num_running_reqs (cfg s) \<and>
     list_all (\<lambda>a. req_fits (cfg s) (objs s a)) (running s)"

lemma all_reqs_places: "all_reqs s {#} = places s"
  by (simp add: all_reqs_def places_def queue_mset_def)

lemma sched_wf_ok: "sched_wf s \<longleftrightarrow> sched_ok s {#}"
proof -
  let ?refs = "running s @ queue_refs (waiting s) @ queue_refs (skipped_waiting s)"
  have d: "distinct ?refs \<longleftrightarrow> (\<forall>a. count (places s) a \<le> 1)"
    unfolding places_def distinct_count_atmost_1 by (auto simp: le_Suc_eq)
  have q: "a \<in># queue_mset (waiting s) + queue_mset (skipped_waiting s) + {#} \<longleftrightarrow>
      a \<in> set (queue_refs (waiting s) @ queue_refs (skipped_waiting s))" for a
    by (simp add: queue_mset_def)
  have p: "a \<in># places s \<longleftrightarrow> a \<in> set ?refs" for a by (simp add: places_def)
  show ?thesis
    unfolding sched_wf_def sched_ok_def Let_def all_reqs_places d q p list_all_iff by blast
qed

text \<open>
  C3.  A successful call of \<open>schedule\<close> keeps the scheduler well-formed and neither loses nor
  duplicates a request: the running list and the two waiting queues together hold the same
  requests as before, each once and with the status of its place, whatever was scheduled, resumed,
  skipped, promoted or preempted.  This holds for both policies and both schedulers (synchronous
  and asynchronous).
\<close>

theorem schedule_keeps_requests:
  assumes "schedule env s = Inr (s', out)" "sched_wf s"
  shows "sched_wf s' \<and> places s' = places s"
proof -
  obtain s1 t s2 out1 where run: "schedule_requests env s = Inr (s1, t)" and out: "make_output s1 t = Inr (s2, out1)"
    and upd: "(if async_scheduling (cfg s) then async_update_after_schedule out1 s2 else update_after_schedule out1 s2) = Inr (s', out)"
    by (rule schedule_cases [OF assms(1)])
  note R = schedule_requests_places [OF run assms(2) [unfolded sched_wf_ok]]
  have "same_ids s1 s2" using make_output_frame [OF out] by (simp add: same_ids_def)
  then have S: "same_ids s1 s'" using after_schedule_frame(1) [OF upd] by (rule same_ids_trans)
  show ?thesis
    using R same_ids_ok [OF S] unfolding sched_wf_ok all_reqs_places [symmetric] by simp
qed

text \<open>
  C2.  What a step schedules is within the limits: every entry of the output gives a positive
  number of tokens to a request that is running afterwards, no request has two entries, the total
  is the sum of the entries and at most the token budget, no more requests run than allowed, and a
  preempted request has no entry.
\<close>

theorem schedule_within_limits:
  assumes "schedule env s = Inr (s', out)" "sched_wf s" "sched_ready s"
  shows "distinct (map fst (so_num_scheduled_tokens out)) \<and> list_all (\<lambda>(rid, n). 0 < n) (so_num_scheduled_tokens out) \<and>
    so_total_num_scheduled_tokens out = sum_list (map snd (so_num_scheduled_tokens out)) \<and>
    so_total_num_scheduled_tokens out \<le> max_num_scheduled_tokens (cfg s) \<and>
    length (running s') \<le> max_num_running_reqs (cfg s) \<and>
    fst ` set (so_num_scheduled_tokens out) \<subseteq> (\<lambda>a. request_id (objs s' a)) ` set (running s') \<and>
    so_preempted_req_ids out \<inter> fst ` set (so_num_scheduled_tokens out) = {}"
proof -
  obtain s1 t s2 out1 where run: "schedule_requests env s = Inr (s1, t)" and out: "make_output s1 t = Inr (s2, out1)"
    and upd: "(if async_scheduling (cfg s) then async_update_after_schedule out1 s2 else update_after_schedule out1 s2) = Inr (s', out)"
    by (rule schedule_cases [OF assms(1)])
  have lim: "\<forall>a \<in> set (running s). req_fits (cfg s) (objs s a)" "length (running s) \<le> max_num_running_reqs (cfg s)"
    "0 \<le> max_num_scheduled_tokens (cfg s)"
    using assms(3) by (simp_all add: sched_ready_def list_all_iff)
  have ok: "sched_ok s1 {#}" using schedule_requests_places [OF run assms(2) [unfolded sched_wf_ok]] by simp
  have fit: "fits_budget (Some (token_budget (sched_step_init s))) s" using lim by (simp add: fits_budget_def)
  note R = schedule_requests_inv [OF run assms(2) [unfolded sched_wf_ok] fit lim(2)]
  note M = make_output_frame [OF out] and U = after_schedule_frame [OF upd]
  have "same_ids s1 s2" using M by (simp add: same_ids_def)
  then have S: "same_ids s1 s'" using U(1) by (rule same_ids_trans)
  have ids: "\<And>x. request_id (objs s' x) = request_id (objs s1 x)" "running s' = running s1"
    using S by (simp_all add: same_ids_def same_queues_def)
  let ?rid = "\<lambda>a. request_id (objs s1 a)"
  have t: "distinct (map fst (num_scheduled_tokens t))" "fst ` set (num_scheduled_tokens t) = ?rid ` set (scheduled_reqs t)"
    "set (scheduled_reqs t) \<subseteq> set (running s1)" "\<forall>(rid, n) \<in> set (num_scheduled_tokens t). 0 < n"
    "\<forall>a \<in> set (preempted_reqs t). a \<in># queue_mset (waiting s1)"
    using R(3) by (simp_all add: step_ok_def)
  have "schedule_checks s1 t" by (rule step_ok_checks [OF R(3,1) lim(3) R(2)])
  then have tot: "total_scheduled t \<le> max_num_scheduled_tokens (cfg s)" using R(1) by (simp add: schedule_checks_def)
  have sub: "?rid ` set (scheduled_reqs t) \<subseteq> ?rid ` set (running s1)" by (rule image_mono [OF t(3)])
  have disj: "?rid ` set (preempted_reqs t) \<inter> ?rid ` set (scheduled_reqs t) = {}"
  proof -
    have "set (preempted_reqs t) \<inter> set (scheduled_reqs t) = {}"
      using t(3,5) sched_okD(3) [OF ok] by auto
    moreover have "inj_on ?rid (set (preempted_reqs t) \<union> set (scheduled_reqs t))"
      by (rule inj_on_subset [OF sched_ok_ids [OF ok]]) (use t(3,5) in \<open>auto simp: all_reqs_def\<close>)
    ultimately show ?thesis by (metis inf_sup_ord(3,4) inj_on_image_Int image_empty)
  qed
  show ?thesis
    using t(1,4) tot sub disj R(2) unfolding M(3,4,5) U(2,3,4) ids t(2)
    by (simp add: total_scheduled_def list_all_iff)
qed

text \<open>
  C35.  The four assertions at the end of \<open>schedule\<close> never fail.
\<close>

theorem schedule_asserts_hold:
  assumes "schedule_requests env s = Inr (s', t)" "sched_wf s" "sched_ready s"
  shows "schedule_checks s' t"
proof -
  have lim: "\<forall>a \<in> set (running s). req_fits (cfg s) (objs s a)" "length (running s) \<le> max_num_running_reqs (cfg s)"
    "0 \<le> max_num_scheduled_tokens (cfg s)"
    using assms(3) by (simp_all add: sched_ready_def list_all_iff)
  have fit: "fits_budget (Some (token_budget (sched_step_init s))) s" using lim by (simp add: fits_budget_def)
  note R = schedule_requests_inv [OF assms(1) assms(2) [unfolded sched_wf_ok] fit lim(2)]
  show ?thesis by (rule step_ok_checks [OF R(3,1) lim(3) R(2)])
qed

text \<open>
  C8.  First come, first served: under the FCFS policy a step that preempts, or one that skips no
  request, keeps the order of requests.  The running list followed by the waiting queue is the same
  sequence before and after, so requests start in order of arrival and preempted ones
  come back in front of everybody who arrived after them.
\<close>

theorem schedule_fcfs_order:
  assumes "schedule env s = Inr (s', out)" "policy (cfg s) = FCFS" "waiting s = FCFSRequestQueue ws"
    and "so_preempted_req_ids out \<noteq> {} \<or> skipped_waiting s = FCFSRequestQueue [] \<and> skipped_waiting s' = FCFSRequestQueue []"
  shows "\<exists>ws'. waiting s' = FCFSRequestQueue ws' \<and> running s' @ ws' = running s @ ws"
proof -
  obtain s1 t s2 out1 where run: "schedule_requests env s = Inr (s1, t)" and out: "make_output s1 t = Inr (s2, out1)"
    and upd: "(if async_scheduling (cfg s) then async_update_after_schedule out1 s2 else update_after_schedule out1 s2) = Inr (s', out)"
    by (rule schedule_cases [OF assms(1)])
  note M = make_output_frame [OF out] and U = after_schedule_frame [OF upd]
  have same: "same_queues s1 s'" using M(1) U(1) same_queues_trans by (auto simp: same_ids_def)
  have "preempted_reqs t \<noteq> [] \<or> skipped_waiting s = FCFSRequestQueue [] \<and> skipped_waiting s1 = FCFSRequestQueue []"
    using assms(4) M(5) U(4) same by (auto simp: same_queues_def)
  from schedule_requests_order [OF run assms(2,3) this] show ?thesis using same by (simp add: same_queues_def)
qed

text \<open>
  Under the PRIORITY policy the preempted request is a running one that no running request
  comes after in the order of priority and arrival, and only it leaves the running list.
\<close>

theorem priority_victim_is_last:
  assumes "pick_victim s t i = Inr (v, s2, t2, i2)" "policy (cfg s) = PRIORITY"
  shows "v \<in> set (running s) \<and> running s2 = remove1 v (running s) \<and>
    list_all (\<lambda>a. victim_key (objs s a) \<le> victim_key (objs s v)) (running s)"
proof -
  obtain x xs where r: "running s = x # xs" using assms by (cases "running s") (auto simp: pick_victim_def)
  let ?v = "max_by (\<lambda>a. victim_key (objs s a)) x xs"
  have v: "v = ?v \<and> running s2 = remove1 ?v (running s)"
    using assms r by (auto simp: pick_victim_def Let_def rbind_Inr_iff split: if_splits)
  have "\<forall>a \<in> set (running s). victim_key (objs s a) \<le> victim_key (objs s v)"
    unfolding r using max_by_max [where key = "\<lambda>a. victim_key (objs s a)" and best = x and xs = xs] v by simp
  then show ?thesis using v pick_victim_running(1) [OF assms(1)] by (simp add: list_all_iff)
qed

subsection \<open>A pool that is too small\<close>

text \<open>Two requests of four tokens fill a pool of four blocks of two; after one sampled token each,
  the next step must preempt one of them.\<close>

definition small_cfg :: "scheduling_policy \<Rightarrow> sched_config" where
  "small_cfg p = \<lparr>policy = p, max_num_running_reqs = 3, max_num_scheduled_tokens = 8, max_model_len = 8,
     long_prefill_token_threshold = 0, enable_chunked_prefill = True, disable_chunked_mm_input = False,
     is_encoder_decoder = False, max_num_encoder_input_tokens = 0, num_spec_tokens = 0, num_lookahead_tokens = 0,
     use_eagle = False, reserve_full_isl = False, max_loras = None, need_mamba_block_aligned_split = False,
     cfg_block_size = 2, sched_block_size = 2, needs_kv_cache_zeroing = False, use_pp = False, async_scheduling = False,
     use_v2_model_runner = False, recompute_kv_load_failures = True\<rparr>"

definition plain_env :: sched_env where
  "plain_env = \<lparr>env_hasher = (\<lambda>_. Inr []), env_sha256 = id, env_connector = None, env_ec_has_cache_item = None,
     grammar_ready = (\<lambda>_. True), should_advance = (\<lambda>_. False), accept_tokens = (\<lambda>_ _. True), validate_tokens = (\<lambda>_ ts. ts)\<rparr>"

definition plain_sampling :: sampling_params where
  "plain_sampling = \<lparr>sp_max_tokens = None, sp_structured_outputs = False, sp_skip_reading_prefix_cache = None,
     sp_min_tokens = 0, sp_eos_token_id = None, sp_stop_token_ids = [], sp_repetition_detection = None\<rparr>"

definition text_request :: "nat \<Rightarrow> string \<Rightarrow> nat list \<Rightarrow> request" where
  "text_request a rid ts = (plain_request rid ts)\<lparr>obj_id := a, req_sampling_params := Some plain_sampling\<rparr>"

definition small_scheduler :: "scheduling_policy \<Rightarrow> request list \<Rightarrow> scheduler res" where
  "small_scheduler p rs = rbind (kv_cache_manager_init small_config 8 2 None False False False 1 1 False) (\<lambda>k.
     foldr (\<lambda>r k s. rbind (sched_add_request plain_env (obj_id r) r s) k) rs Inr
       (scheduler_init (small_cfg p) (\<lambda>_. text_request 9 ''z'' []) k 0 False))"

definition grow :: "nat \<Rightarrow> scheduler \<Rightarrow> scheduler" where
  "grow x s = fold (\<lambda>a. upd_req a (\<lambda>r. r\<lparr>output_token_ids := [x], all_token_ids := all_token_ids r @ [x]\<rparr>)) (running s) s"

definition short_of_blocks :: "scheduling_policy \<Rightarrow> scheduler res" where
  "short_of_blocks p = rbind (small_scheduler p [text_request 0 ''a'' [1,2,3,4], text_request 1 ''b'' [1,2,3,5]]) (\<lambda>s.
     rbind (schedule plain_env s) (\<lambda>(s1, _). Inr (grow 7 s1)))"

lemma short_of_blocks_state: "case short_of_blocks FCFS of Inl _ \<Rightarrow> False | Inr s \<Rightarrow>
    sched_wf s \<and> sched_ready s \<and> policy (cfg s) = FCFS \<and> waiting s = FCFSRequestQueue [] \<and> running s = [0, 1]"
  by code_simp

lemma short_of_blocks_step: "case rbind (short_of_blocks FCFS) (schedule plain_env) of Inl _ \<Rightarrow> False | Inr (s', out) \<Rightarrow>
    so_preempted_req_ids out = {''b''} \<and> so_num_scheduled_tokens out = [(''a'', 1)]"
  by code_simp

lemma short_of_blocks_victim: "case short_of_blocks PRIORITY of Inl _ \<Rightarrow> False | Inr s \<Rightarrow> policy (cfg s) = PRIORITY \<and>
    (case pick_victim s (sched_step_init s) 0 of Inl _ \<Rightarrow> False | Inr (v, _) \<Rightarrow> v = 0)"
  by code_simp

lemma short_of_blocks_run:
  obtains s s' out s1 t where "short_of_blocks FCFS = Inr s" "schedule plain_env s = Inr (s', out)" "sched_wf s" "sched_ready s"
    "schedule_requests plain_env s = Inr (s1, t)"
    "policy (cfg s) = FCFS" "waiting s = FCFSRequestQueue []" "running s = [0, 1]"
    "so_preempted_req_ids out = {''b''}" "so_num_scheduled_tokens out = [(''a'', 1)]"
proof -
  obtain s where s: "short_of_blocks FCFS = Inr s" using short_of_blocks_state by (cases "short_of_blocks FCFS") auto
  obtain s' out where o: "schedule plain_env s = Inr (s', out)" "so_preempted_req_ids out = {''b''}" "so_num_scheduled_tokens out = [(''a'', 1)]"
    using short_of_blocks_step s by (cases "schedule plain_env s") auto
  obtain s1 t where "schedule_requests plain_env s = Inr (s1, t)" by (rule schedule_cases [OF o(1)])
  then show thesis using that s o short_of_blocks_state by simp
qed

theorem schedule_keeps_requests_witness:
  "\<exists>s s' out. short_of_blocks FCFS = Inr s \<and> schedule plain_env s = Inr (s', out) \<and> so_preempted_req_ids out = {''b''} \<and>
    sched_wf s' \<and> places s' = places s"
proof (rule short_of_blocks_run)
  fix s s' out s1 t
  assume "short_of_blocks FCFS = Inr s" "so_preempted_req_ids out = {''b''}"
    and *: "schedule plain_env s = Inr (s', out)" "sched_wf s"
  then show ?thesis using schedule_keeps_requests [OF *] by blast
qed

theorem schedule_within_limits_witness:
  "\<exists>s s' out. short_of_blocks FCFS = Inr s \<and> schedule plain_env s = Inr (s', out) \<and> so_num_scheduled_tokens out = [(''a'', 1)] \<and>
    so_total_num_scheduled_tokens out = sum_list (map snd (so_num_scheduled_tokens out)) \<and>
    so_preempted_req_ids out = {''b''} \<and> so_preempted_req_ids out \<inter> fst ` set (so_num_scheduled_tokens out) = {}"
proof (rule short_of_blocks_run)
  fix s s' out s1 t
  assume "short_of_blocks FCFS = Inr s" "so_preempted_req_ids out = {''b''}" "so_num_scheduled_tokens out = [(''a'', 1)]"
    and *: "schedule plain_env s = Inr (s', out)" "sched_wf s" "sched_ready s"
  then show ?thesis using schedule_within_limits [OF *] by blast
qed

theorem schedule_asserts_hold_witness:
  "\<exists>s s1 t. short_of_blocks FCFS = Inr s \<and> schedule_requests plain_env s = Inr (s1, t) \<and> schedule_checks s1 t"
proof (rule short_of_blocks_run)
  fix s s' out s1 t
  assume "short_of_blocks FCFS = Inr s" and *: "schedule_requests plain_env s = Inr (s1, t)" "sched_wf s" "sched_ready s"
  then show ?thesis using schedule_asserts_hold [OF *] by blast
qed

theorem schedule_fcfs_order_witness:
  "\<exists>s s' out ws'. short_of_blocks FCFS = Inr s \<and> schedule plain_env s = Inr (s', out) \<and> so_preempted_req_ids out = {''b''} \<and>
    waiting s' = FCFSRequestQueue ws' \<and> running s' @ ws' = [0, 1]"
proof (rule short_of_blocks_run)
  fix s s' out s1 t
  assume s: "short_of_blocks FCFS = Inr s" "so_preempted_req_ids out = {''b''}" "running s = [0, 1]"
    and *: "schedule plain_env s = Inr (s', out)" "policy (cfg s) = FCFS" "waiting s = FCFSRequestQueue []"
  have "\<exists>ws'. waiting s' = FCFSRequestQueue ws' \<and> running s' @ ws' = running s @ []"
    by (rule schedule_fcfs_order [OF *]) (simp add: s(2))
  then show ?thesis using s * by auto
qed

theorem priority_victim_is_last_witness:
  "\<exists>s v s2 t2 i2. short_of_blocks PRIORITY = Inr s \<and> pick_victim s (sched_step_init s) 0 = Inr (v, s2, t2, i2) \<and> v = 0 \<and>
    list_all (\<lambda>a. victim_key (objs s a) \<le> victim_key (objs s v)) (running s)"
proof -
  obtain s where s: "short_of_blocks PRIORITY = Inr s" "policy (cfg s) = PRIORITY"
    using short_of_blocks_victim by (cases "short_of_blocks PRIORITY") auto
  obtain v s2 t2 i2 where v: "pick_victim s (sched_step_init s) 0 = Inr (v, s2, t2, i2)" "v = 0"
    using short_of_blocks_victim s(1) by (cases "pick_victim s (sched_step_init s) 0") auto
  then show ?thesis using priority_victim_is_last [OF v(1) s(2)] s(1) by blast
qed

end
