(* ===== verification/VL_SchedFindings.thy ===== *)
theory VL_SchedFindings
  imports VL_SchedProofs
begin

text \<open>
  Behaviour of the scheduler that its comments and names do not promise, each as a theorem about
  the model: what happens when a request stops after it was preempted, when a streaming session
  continues after a preemption or inside a heap, and when a priority preemption removes a request
  in front of the current one.
\<close>

subsection \<open>Stopping after a preemption\<close>

text \<open>A request is scheduled, then preempted while the step is executed, and something else happens
  before the output arrives, which ends with the stop token.  The result is the state before and
  after the output is processed.\<close>

definition eos_sampling :: "nat \<Rightarrow> sampling_params" where
  "eos_sampling x = plain_sampling\<lparr>sp_eos_token_id := Some x\<rparr>"

definition eos_request :: "nat \<Rightarrow> string \<Rightarrow> nat list \<Rightarrow> int \<Rightarrow> request" where
  "eos_request a rid ts t = (text_request a rid ts)\<lparr>arrival_time := t, req_sampling_params := Some (eos_sampling 0)\<rparr>"

definition session_request :: "nat \<Rightarrow> string \<Rightarrow> nat list \<Rightarrow> int \<Rightarrow> request" where
  "session_request a rid ts t = (eos_request a rid ts t)\<lparr>resumable := True\<rparr>"

definition sampled :: "scheduler_output \<Rightarrow> nat list \<Rightarrow> model_runner_output" where
  "sampled out xs = (let ids = map fst (so_num_scheduled_tokens out) in
     \<lparr>req_id_to_index = zip ids [0..<length ids], sampled_token_ids = map (\<lambda>_. xs) ids, pooler_output = [],
      mr_kv_connector_output = None\<rparr>)"

definition stop_after_preemption :: "request \<Rightarrow> (scheduler \<Rightarrow> scheduler res) \<Rightarrow> (scheduler \<times> scheduler) res" where
  "stop_after_preemption r f =
     rbind (small_scheduler FCFS [r]) (\<lambda>s0.
     rbind (schedule plain_env s0) (\<lambda>(s1, out).
     rbind (sched_reset_prefix_cache True s1) (\<lambda>(_, s2).
     rbind (f s2) (\<lambda>s3.
     rbind (update_from_output plain_env out (sampled out [0]) s3) (\<lambda>(_, _, _, s4). Inr (s3, s4))))))"

definition lost_session :: "(scheduler \<times> scheduler) res" where
  "lost_session = stop_after_preemption (session_request 1 ''b'' [1, 2, 7] 0)
     (sched_add_request plain_env 2 (session_request 2 ''b'' [8] 1))"

lemma lost_session_eval:
  "case lost_session of Inl _ \<Rightarrow> False | Inr (s, s') \<Rightarrow> sched_wf s \<and> map_of (requests s') ''b'' = Some 1 \<and>
     status (objs s' 1) = WAITING \<and> running s' @ queue_refs (waiting s') @ queue_refs (skipped_waiting s') = []"
  by code_simp

text \<open>
  C36.  A streaming session that stops while it is preempted and has its next input queued is lost:
  \<open>_handle_stopped_request\<close> continues the session and puts it into the waiting queue, and
  \<open>update_from_output\<close> then removes it from that queue because it is among the stopped preempted
  requests.  The session stays in \<open>requests\<close> as WAITING but in no queue, so it is never scheduled
  again, although the scheduler was well-formed before.
\<close>

theorem preempted_session_lost:
  "\<exists>s s'. lost_session = Inr (s, s') \<and> sched_wf s \<and> map_of (requests s') ''b'' = Some 1 \<and>
     status (objs s' 1) = WAITING \<and> places s' = {#} \<and> \<not> sched_wf s'"
proof -
  obtain s s' where s: "lost_session = Inr (s, s')" "sched_wf s" "map_of (requests s') ''b'' = Some 1"
    "status (objs s' 1) = WAITING" "running s' @ queue_refs (waiting s') @ queue_refs (skipped_waiting s') = []"
    using lost_session_eval by (auto split: sum.splits)
  then have p: "places s' = {#}" by (simp add: places_def)
  have "\<not> is_finished (objs s' 1)" using s(4) by (simp add: is_finished_def is_finished_status_def less_request_status_def)
  then have "\<not> sched_wf s'" using map_of_SomeD [OF s(3)] s(5) by (auto simp: sched_wf_def list_all_iff)
  then show ?thesis using s p by blast
qed

text \<open>A connector that cannot tell the number of matched tokens makes the scheduler skip the request.\<close>

definition undecided :: "bool \<Rightarrow> sched_env" where
  "undecided b = plain_env\<lparr>env_connector := Some \<lparr>get_num_new_matched_tokens = (\<lambda>_ _. (if b then None else Some 0, False)),
     supports_hma = True, request_finished = (\<lambda>_ _. False), request_finished_all_groups = (\<lambda>_ _. False)\<rparr>\<rparr>"

definition stale_stop :: "(scheduler \<times> scheduler) res" where
  "stale_stop = stop_after_preemption (eos_request 1 ''b'' [1, 2, 7] 0)
     (\<lambda>s. rbind (schedule (undecided True) s) (\<lambda>(s', _). Inr s'))"

lemma stale_stop_eval:
  "case stale_stop of Inl _ \<Rightarrow> False | Inr (s, s') \<Rightarrow> sched_wf s \<and> skipped_waiting s' = FCFSRequestQueue [1] \<and>
     status (objs s' 1) = FINISHED_STOPPED \<and> requests s' = []"
  by code_simp

lemma stale_stop_schedule:
  "case rbind stale_stop (\<lambda>(s, s'). schedule (undecided False) s') of Inl e \<Rightarrow> e = RuntimeError | Inr _ \<Rightarrow> False"
  by code_simp

text \<open>
  C37.  A request that was preempted and then skipped by the scheduler waits in \<open>skipped_waiting\<close>.
  When its last output stops it, \<open>update_from_output\<close> frees it but removes stopped preempted
  requests from \<open>waiting\<close> only: the finished request stays queued, and the next call of \<open>schedule\<close>
  that takes it raises RuntimeError.
\<close>

theorem stopped_request_stays_queued:
  "\<exists>s s'. stale_stop = Inr (s, s') \<and> sched_wf s \<and> requests s' = [] \<and> status (objs s' 1) = FINISHED_STOPPED \<and>
     1 \<in># places s' \<and> schedule (undecided False) s' = Inl RuntimeError"
proof -
  obtain s s' where s: "stale_stop = Inr (s, s')" "sched_wf s" "skipped_waiting s' = FCFSRequestQueue [1]"
    "status (objs s' 1) = FINISHED_STOPPED" "requests s' = []"
    using stale_stop_eval by (auto split: sum.splits)
  have "schedule (undecided False) s' = Inl RuntimeError"
    using stale_stop_schedule unfolding s(1) by (auto split: sum.splits)
  then show ?thesis using s by (intro exI [of _ s] exI [of _ s']) (simp add: places_def)
qed

subsection \<open>Streaming sessions\<close>

text \<open>Two sessions end their first turn; the input of \<open>y\<close> arrives before the input of \<open>x\<close>.\<close>

definition two_sessions :: "scheduler res" where
  "two_sessions =
     rbind (small_scheduler PRIORITY [session_request 0 ''x'' [1, 2] 1, session_request 1 ''y'' [1, 2] 2]) (\<lambda>s0.
     rbind (schedule plain_env s0) (\<lambda>(s1, out).
     rbind (update_from_output plain_env out (sampled out [0]) s1) (\<lambda>(_, _, _, s2).
     rbind (sched_add_request plain_env 2 (session_request 2 ''y'' [8] 5) s2) (\<lambda>s3.
     sched_add_request plain_env 3 (session_request 3 ''x'' [8] 9) s3))))"

lemma two_sessions_eval:
  "case two_sessions of Inl _ \<Rightarrow> False | Inr s \<Rightarrow> skipped_waiting s = PriorityRequestQueue [0, 1] \<and> ref_lt (objs s) 1 0"
  by code_simp

text \<open>
  Continuing a session changes its arrival time, which is part of the key of the heap it waits in,
  and the heap is not rebuilt: the queue then serves a request although another one comes before it.
\<close>

theorem session_update_breaks_heap:
  "\<exists>s. two_sessions = Inr s \<and> queue_peek (skipped_waiting s) = Inr 0 \<and> 1 \<in># queue_mset (skipped_waiting s) \<and>
     ref_lt (objs s) 1 0"
proof -
  obtain s where "two_sessions = Inr s" "skipped_waiting s = PriorityRequestQueue [0, 1]" "ref_lt (objs s) 1 0"
    using two_sessions_eval by (auto split: sum.splits)
  then show ?thesis by (intro exI [of _ s]) (simp add: prio_peek_def queue_mset_def)
qed

lemma map_sum_id_Inr: "map_sum id f z = Inr y \<longleftrightarrow> (\<exists>w. z = Inr w \<and> y = f w)"
  by (cases z) auto

lemma update_block_hashes_frame:
  assumes "update_block_hashes h r = Some (Inr r')"
  shows "all_token_ids r' = all_token_ids r \<and> max_tokens r' = max_tokens r \<and> prompt_token_ids r' = prompt_token_ids r"
  using assms by (auto simp: update_block_hashes_def map_sum_id_Inr split: option.splits)

text \<open>
  C38.  A session that continues after a preemption forgets its context.  A preempted request has no
  computed tokens, and continuing a session keeps only the computed ones: all tokens of the prompt
  and the outputs so far are dropped, while \<open>prompt_token_ids\<close> and \<open>num_prompt_tokens\<close> still count
  them.  The output limit of the new input is ignored as well: \<open>max_tokens\<close> stays what it was.
\<close>

theorem session_update_forgets_context:
  assumes "update_request_as_session h r u n = Some (Inr (r', n'))" "num_computed_tokens r = 0"
    and "prompt_token_ids r = Some prompt" "u_prompt_token_ids u = Some new"
  shows "all_token_ids r' = new \<and> prompt_token_ids r' = Some (prompt @ new) \<and>
    num_prompt_tokens r' = length prompt + length new \<and> max_tokens r' = max_tokens r"
proof -
  have S: "slice (num_prompt_tokens r) 0 (all_token_ids r) = []" by (simp add: slice_def)
  obtain s1 s2 where s2: "update_block_hashes h s1 = Some (Inr s2)"
    and s1: "all_token_ids s1 = new" "prompt_token_ids s1 = Some (prompt @ new)" "max_tokens s1 = max_tokens r"
    and r': "all_token_ids r' = all_token_ids s2" "prompt_token_ids r' = prompt_token_ids s2"
      "num_prompt_tokens r' = length prompt + length new" "max_tokens r' = max_tokens s2"
    using assms by (auto simp: update_request_as_session_def Let_def S map_sum_id_Inr)
  then show ?thesis using update_block_hashes_frame [OF s2] by simp
qed

theorem session_update_forgets_context_witness:
  "\<exists>r' n'. update_request_as_session None (plain_request ''b'' [1, 2, 7])
      \<lparr>u_mm_features = None, u_prompt_token_ids = Some [8], u_max_tokens = 3, u_arrival_time = 1, u_sampling_params = None\<rparr> 0
      = Some (Inr (r', n')) \<and>
    all_token_ids r' = [8] \<and> prompt_token_ids r' = Some [1, 2, 7, 8] \<and> num_prompt_tokens r' = 4 \<and> max_tokens r' = 16"
proof -
  let ?u = "\<lparr>u_mm_features = None, u_prompt_token_ids = Some [8], u_max_tokens = 3, u_arrival_time = 1, u_sampling_params = None\<rparr>"
  obtain r' n' where u: "update_request_as_session None (plain_request ''b'' [1, 2, 7]) ?u 0 = Some (Inr (r', n'))"
    by (simp add: update_request_as_session_def update_block_hashes_def plain_request_def Let_def)
  have "all_token_ids r' = [8] \<and> prompt_token_ids r' = Some ([1, 2, 7] @ [8]) \<and>
    num_prompt_tokens r' = length [1, 2, 7 :: nat] + length [8 :: nat] \<and> max_tokens r' = max_tokens (plain_request ''b'' [1, 2, 7])"
    by (rule session_update_forgets_context [OF u]) (simp_all add: plain_request_def)
  then show ?thesis using u by (simp add: plain_request_def)
qed

subsection \<open>Preemption by priority\<close>

lemma nth_remove1_after:
  "distinct xs \<Longrightarrow> j < length xs \<Longrightarrow> j \<le> k \<Longrightarrow> Suc k < length xs \<Longrightarrow> remove1 (xs ! j) xs ! k = xs ! Suc k"
proof (induction xs arbitrary: j k)
  case (Cons x xs)
  then show ?case by (cases j; cases k) auto
qed simp

text \<open>
  Under the PRIORITY policy, when the victim is a running request in front of the current one that
  was not scheduled in this step, the list shifts but the index does not: the request after the
  current one is skipped by the loop.
\<close>

theorem preemption_skips_request:
  assumes "pick_victim s t (int i) = Inr (running s ! j, s2, t2, i2)" "policy (cfg s) = PRIORITY"
    and "distinct (running s)" "j < i" "i + 2 < length (running s)" "running s ! j \<notin> set (scheduled_running_reqs t)"
  shows "running s2 ! nat (i2 + 1) = running s ! (i + 2)"
proof -
  have "i2 = int i" "running s2 = remove1 (running s ! j) (running s)"
    using pick_victim_cases [OF assms(1,3)] assms(6) by auto
  then show ?thesis using nth_remove1_after [OF assms(3), of j "i + 1"] assms(4,5) by (simp add: nat_add_distrib)
qed

end
