(* ===== verification/VL_SchedMoves.thy ===== *)
theory VL_SchedMoves
  imports VL_SchedFindings
begin

text \<open>
  What the operations of the scheduler other than \<open>schedule\<close> do to the places of requests: finishing
  and freeing requests (\<open>retires\<close>), continuing a session (\<open>requeued\<close>), processing the output of one
  request and of a whole step, transfers that finish (\<open>forgets\<close>).
\<close>

subsection \<open>Requests that leave and requests that arrive\<close>

text \<open>A set of requests finishes: they leave their places, and some of their entries are deleted.\<close>

lemma sched_ok_drop:
  assumes ok: "sched_ok s {#}"
    and q: "running s' = filter (\<lambda>a. a \<notin> V) (running s)"
      "queue_mset (waiting s') + queue_mset (skipped_waiting s') =
        filter_mset (\<lambda>a. a \<notin> V) (queue_mset (waiting s) + queue_mset (skipped_waiting s))"
    and r: "requests s' = filter P (requests s)" "\<And>rid a. (rid, a) \<in> set (requests s) \<Longrightarrow> \<not> P (rid, a) \<Longrightarrow> a \<in> V"
    and o: "\<And>a. request_id (objs s' a) = request_id (objs s a)" "\<And>a. a \<notin> V \<Longrightarrow> status (objs s' a) = status (objs s a)"
      "\<And>a. a \<in> V \<Longrightarrow> is_finished (objs s' a)"
  shows "sched_ok s' {#}" "all_reqs s' {#} = filter_mset (\<lambda>a. a \<notin> V) (all_reqs s {#})"
proof -
  show all: "all_reqs s' {#} = filter_mset (\<lambda>a. a \<notin> V) (all_reqs s {#})"
    using q by (simp add: all_reqs_def add.assoc)
  have d: "distinct (map fst (requests s))" using ok by (simp add: sched_ok_def)
  have d': "distinct (map fst (requests s'))" unfolding r(1) by (rule distinct_map_filter [OF d])
  have keep: "map_of (requests s') (request_id (objs s a)) = Some a" if "a \<in># all_reqs s {#}" "a \<notin> V" for a
  proof -
    have "(request_id (objs s a), a) \<in> set (requests s)" using sched_okD(4) [OF ok that(1)] by (rule map_of_SomeD)
    then have "(request_id (objs s a), a) \<in> set (requests s')" using r that(2) by auto
    then show ?thesis using d' by simp
  qed
  have fin: "is_finished (objs s' a) \<longleftrightarrow> is_finished (objs s a)" if "a \<notin> V" for a using o(2) [OF that] by (simp add: is_finished_def)
  show "sched_ok s' {#}"
    unfolding sched_ok_def all o(1)
  proof (intro conjI allI impI ballI)
    fix a assume "a \<in> set (running s')"
    then show "status (objs s' a) = RUNNING" using sched_okD(2) [OF ok, of a] q(1) o(2) by simp
  next
    fix a assume "a \<in># queue_mset (waiting s') + queue_mset (skipped_waiting s') + {#}"
    then have "a \<notin> V" "a \<in># queue_mset (waiting s) + queue_mset (skipped_waiting s) + {#}" using q(2) by auto
    then show "status (objs s' a) \<noteq> RUNNING" "\<not> is_finished (objs s' a)"
      using ok fin o(2) unfolding sched_ok_def by auto
  next
    fix x assume x: "x \<in> set (requests s')"
    obtain rid a where xa: "x = (rid, a)" by (cases x)
    have "(rid, a) \<in> set (requests s)" using x r(1) xa by simp
    then have *: "request_id (objs s a) = rid" "is_finished (objs s a) \<or> a \<in># all_reqs s {#}" using ok by (auto simp: sched_ok_def)
    show "case x of (rid, a) \<Rightarrow> request_id (objs s a) = rid" using * xa by simp
    show "case x of (rid, a) \<Rightarrow> is_finished (objs s' a) \<or> a \<in># filter_mset (\<lambda>a. a \<notin> V) (all_reqs s {#})"
      using * xa fin o(3) by (cases "a \<in> V") auto
  next
    fix a have "count (all_reqs s {#}) a \<le> 1" using ok by (simp add: sched_ok_def)
    then show "count (filter_mset (\<lambda>a. a \<notin> V) (all_reqs s {#})) a \<le> 1" by simp
  qed (use d' keep in auto)
qed

text \<open>A new request object enters one of the queues.\<close>

lemma sched_ok_arrive:
  assumes ok: "sched_ok s {#}" and new: "request_id r \<notin> fst ` set (requests s)" "a \<notin> snd ` set (requests s)"
    and s': "running s' = running s"
      "queue_mset (waiting s') + queue_mset (skipped_waiting s') = add_mset a (queue_mset (waiting s) + queue_mset (skipped_waiting s))"
      "requests s' = AList.update (request_id r) a (requests s)" "objs s' = (objs s)(a := r)"
      "status r \<noteq> RUNNING" "\<not> is_finished r"
  shows "sched_ok s' {#}" "all_reqs s' {#} = add_mset a (all_reqs s {#})"
proof -
  show all: "all_reqs s' {#} = add_mset a (all_reqs s {#})" using s'(1,2) by (simp add: all_reqs_def add.assoc)
  have known: "x \<in># all_reqs s {#} \<Longrightarrow> (request_id (objs s x), x) \<in> set (requests s)" for x
    using sched_okD(4) [OF ok] by (rule map_of_SomeD)
  then have a: "a \<notin># all_reqs s {#}" using new(2) by force
  have ids: "request_id (objs s x) \<noteq> request_id r" if "x \<in># all_reqs s {#}" for x
    using known [OF that] new(1) by force
  have R: "set (requests s') = insert (request_id r, a) (set (requests s))"
    using new(1) s'(3) set_update_new by metis
  have "a \<notin> set (running s)" using a by (simp add: all_reqs_def)
  have other: "x \<noteq> a" if "x \<in> snd ` set (requests s)" for x using that new(2) by blast
  show "sched_ok s' {#}"
    unfolding sched_ok_def all
  proof (intro conjI allI impI ballI)
    fix x
    have "count (all_reqs s {#}) x \<le> 1" using ok by (simp add: sched_ok_def)
    then show "count (add_mset a (all_reqs s {#})) x \<le> 1" using a by (cases "x = a") (simp_all add: not_in_iff)
  next
    fix x assume x: "x \<in># add_mset a (all_reqs s {#})"
    have m: "map_of (requests s') = (map_of (requests s))(request_id r \<mapsto> a)" unfolding s'(3) by (rule update_conv')
    show "map_of (requests s') (request_id (objs s' x)) = Some x"
    proof (cases "x = a")
      case False
      then have "x \<in># all_reqs s {#}" using x by simp
      then show ?thesis using sched_okD(4) [OF ok, of x] ids [of x] False unfolding m s'(4) by simp
    qed (simp add: m s'(4))
  next
    show "distinct (map fst (requests s'))" using ok s'(3) by (simp add: sched_ok_def distinct_update)
  next
    fix x assume x: "x \<in> set (requests s')"
    obtain rid b where xb: "x = (rid, b)" by (cases x)
    have *: "(rid, b) = (request_id r, a) \<or> (rid, b) \<in> set (requests s)" using x R xb by auto
    have **: "b \<noteq> a \<and> request_id (objs s b) = rid \<and> (is_finished (objs s b) \<or> b \<in># all_reqs s {#})" if "(rid, b) \<in> set (requests s)"
    proof -
      have "b \<in> snd ` set (requests s)" using that by force
      moreover have "request_id (objs s b) = rid" "is_finished (objs s b) \<or> b \<in># all_reqs s {#}"
        using that ok unfolding sched_ok_def by blast+
      ultimately show ?thesis using other by blast
    qed
    show "case x of (rid, a) \<Rightarrow> request_id (objs s' a) = rid" using * ** s'(4) xb by auto
    show "case x of (rid, x) \<Rightarrow> is_finished (objs s' x) \<or> x \<in># add_mset a (all_reqs s {#})" using * ** s'(4) xb by auto
  next
    fix x assume x: "x \<in> set (running s')"
    then have "x \<noteq> a" using \<open>a \<notin> set (running s)\<close> s'(1) by auto
    then show "status (objs s' x) = RUNNING" using x sched_okD(2) [OF ok, of x] s'(1,4) by simp
  next
    fix x assume "x \<in># queue_mset (waiting s') + queue_mset (skipped_waiting s') + {#}"
    then have "x = a \<or> x \<in># queue_mset (waiting s) + queue_mset (skipped_waiting s) + {#}" using s'(2) by auto
    then show "status (objs s' x) \<noteq> RUNNING" "\<not> is_finished (objs s' x)"
      using ok s'(4-6) by (auto simp: sched_ok_def)
  qed
qed

text \<open>A request that waits is continued: only its status changes, to one that still waits.\<close>

lemma sched_ok_waits:
  assumes ok: "sched_ok s {#}" and a: "a \<in># queue_mset (waiting s) + queue_mset (skipped_waiting s)"
    and s': "same_queues s s'" "objs s' = (objs s)(a := r)" "request_id r = request_id (objs s a)"
      "status r \<noteq> RUNNING" "\<not> is_finished r"
  shows "sched_ok s' {#}" "all_reqs s' {#} = all_reqs s {#}"
proof -
  show all: "all_reqs s' {#} = all_reqs s {#}" using s'(1) by (simp add: all_reqs_def same_queues_def)
  have "a \<notin> set (running s)" "a \<in># all_reqs s {#}" using a sched_okD(3) [OF ok, of a] by (auto simp: all_reqs_def)
  then show "sched_ok s' {#}"
    by (intro sched_ok_cong [OF ok all]) (use s' in \<open>auto simp: same_queues_def\<close>)
qed

subsection \<open>Finishing requests\<close>

lemma remove_all_filter: "distinct xs \<Longrightarrow> finite A \<Longrightarrow> remove_all xs A = filter (\<lambda>x. x \<notin> A) xs"
proof -
  assume d: "distinct xs" "finite A"
  show ?thesis
  proof (cases "card A = 1")
    case True
    then obtain a where "A = {a}" by (rule card_1_singletonE)
    then show ?thesis using d by (simp add: remove_all_def distinct_remove1_removeAll removeAll_filter_not_eq) metis
  next
    case False
    then show ?thesis by (simp add: remove_all_def)
  qed
qed

lemma delete_filter_keys: "AList.delete k (filter (\<lambda>(k, _). k \<notin> D) al) = filter (\<lambda>(k', _). k' \<notin> insert k D) al"
  by (induction al) (auto split: if_splits)

text \<open>Freeing a request touches neither the queues nor the request objects.\<close>

lemma sched_free_blocks_frame:
  assumes "sched_free_blocks a s = Inr s'"
  shows "is_finished (objs s a) \<and> objs s' = objs s \<and> requests s' = AList.delete (request_id (objs s a)) (requests s) \<and>
    same_queues (s\<lparr>requests := requests s'\<rparr>) s'"
  using assms by (auto simp: sched_free_blocks_def Let_def rbind_Inr_iff same_queues_def split: if_splits)

lemma connector_finished_frame:
  assumes "connector_finished env r s = Inr (b, s')"
  shows "objs s' = objs s \<and> same_queues s s'"
  using assms by (auto simp: connector_finished_def Let_def rbind_Inr_iff same_queues_def split: option.splits if_splits)

lemma sched_free_request_frame:
  assumes "sched_free_request env a d s = Inr s'"
  shows "is_finished (objs s a) \<and> objs s' = objs s \<and> same_queues (s\<lparr>requests := requests s'\<rparr>) s' \<and>
    (requests s' = requests s \<or> requests s' = AList.delete (request_id (objs s a)) (requests s))"
proof -
  obtain b s1 m where fin: "is_finished (objs s a)" and c: "connector_finished env (objs s a) s = Inr (b, s1)"
    and rest: "(let s2 = s1\<lparr>encoder_mgr := m, finished_req_ids := insert (request_id (objs s a)) (finished_req_ids s1),
                    finished_req_ids_dict := map_option
                      (\<lambda>f. f(client_index (objs s a) := insert (request_id (objs s a)) (f (client_index (objs s a))))) (finished_req_ids_dict s1)\<rparr>
        in if d \<or> b then Inr s2 else sched_free_blocks a s2) = Inr s'"
    using assms by (auto simp: sched_free_request_def Let_def rbind_Inr_iff)
  note C = connector_finished_frame [OF c]
  show ?thesis
  proof (cases "d \<or> b")
    case True
    then show ?thesis using rest fin C by (auto simp: same_queues_def)
  next
    case False
    then show ?thesis using rest fin C by (auto simp: same_queues_def Let_def dest!: sched_free_blocks_frame)
  qed
qed

definition retires :: "nat set \<Rightarrow> scheduler \<Rightarrow> scheduler \<Rightarrow> bool" where
  "retires V s s' \<longleftrightarrow> same_queues (s\<lparr>requests := requests s'\<rparr>) s' \<and> (\<forall>x. request_id (objs s' x) = request_id (objs s x)) \<and>
     (\<forall>x. x \<notin> V \<longrightarrow> status (objs s' x) = status (objs s x)) \<and> (\<forall>x \<in> V. is_finished (objs s' x)) \<and>
     (\<exists>D. D \<subseteq> (\<lambda>x. request_id (objs s x)) ` V \<and> requests s' = filter (\<lambda>(k, _). k \<notin> D) (requests s))"

lemma retires_empty: "retires {} s s"
  by (auto simp: retires_def same_queues_def intro: exI [of _ "{}"])

lemma retires_step:
  assumes V: "retires V s s1" and q: "same_queues (s1\<lparr>requests := requests s2\<rparr>) s2"
    and o: "\<forall>x. request_id (objs s2 x) = request_id (objs s1 x)" "\<forall>x. x \<noteq> a \<longrightarrow> status (objs s2 x) = status (objs s1 x)"
      "is_finished (objs s2 a)"
    and r: "requests s2 = requests s1 \<or> requests s2 = AList.delete (request_id (objs s1 a)) (requests s1)"
  shows "retires (insert a V) s s2"
proof -
  obtain D where D: "D \<subseteq> (\<lambda>x. request_id (objs s x)) ` V" "requests s1 = filter (\<lambda>(k, _). k \<notin> D) (requests s)"
    using V by (auto simp: retires_def)
  have ids: "request_id (objs s1 a) = request_id (objs s a)" using V by (simp add: retires_def)
  have "\<exists>D. D \<subseteq> (\<lambda>x. request_id (objs s x)) ` insert a V \<and> requests s2 = filter (\<lambda>(k, _). k \<notin> D) (requests s)"
    using r
  proof
    assume "requests s2 = requests s1"
    then have "D \<subseteq> (\<lambda>x. request_id (objs s x)) ` insert a V" "requests s2 = filter (\<lambda>(k, _). k \<notin> D) (requests s)"
      using D by auto
    then show ?thesis by (intro exI conjI)
  next
    assume "requests s2 = AList.delete (request_id (objs s1 a)) (requests s1)"
    then have "requests s2 = filter (\<lambda>(k, _). k \<notin> insert (request_id (objs s a)) D) (requests s)"
      unfolding ids D(2) delete_filter_keys .
    moreover have "insert (request_id (objs s a)) D \<subseteq> (\<lambda>x. request_id (objs s x)) ` insert a V" using D(1) by auto
    ultimately show ?thesis by (intro exI conjI)
  qed
  moreover have "status (objs s2 x) = status (objs s x)" if "x \<notin> insert a V" for x
    using that V o(2) by (simp add: retires_def)
  moreover have "is_finished (objs s2 x)" if "x \<in> insert a V" for x
    using that V o(2,3) by (cases "x = a") (auto simp: retires_def is_finished_def)
  moreover have "same_queues (s\<lparr>requests := requests s2\<rparr>) s2" using V q by (auto simp: retires_def same_queues_def)
  moreover have "request_id (objs s2 x) = request_id (objs s x)" for x using V o(1) by (simp add: retires_def)
  ultimately show ?thesis unfolding retires_def by blast
qed

lemma finish_loop_retires:
  assumes "finish_loop env st as s1 = Inr s'" "retires V s s1" "is_finished_status st"
  shows "retires (V \<union> set as) s s'"
  using assms
proof (induction as arbitrary: s1 V)
  case (Cons a as)
  let ?rid = "request_id (objs s1 a)" and ?remote = "status (objs s1 a) = WAITING_FOR_REMOTE_KVS"
  define s2 where "s2 = upd_req a (\<lambda>r. r\<lparr>status := st\<rparr>) (if ?remote
    then s1\<lparr>finished_recving_kv_req_ids := finished_recving_kv_req_ids s1 - {?rid}, failed_recving_kv_req_ids := failed_recving_kv_req_ids s1 - {?rid}\<rparr>
    else s1)"
  obtain d s3 where f: "sched_free_request env a d s2 = Inr s3" and rest: "finish_loop env st as s3 = Inr s'"
    using Cons.prems(1) by (auto simp: Let_def rbind_Inr_iff s2_def)
  note F = sched_free_request_frame [OF f]
  have s2: "objs s2 = (objs s1)(a := (objs s1 a)\<lparr>status := st\<rparr>)" "requests s2 = requests s1" "same_queues s1 s2"
    by (simp_all add: s2_def upd_req_def same_queues_def)
  have "retires (insert a V) s s3"
  proof (rule retires_step [OF Cons.prems(2)])
    show "same_queues (s1\<lparr>requests := requests s3\<rparr>) s3" using F s2(3) by (auto simp: same_queues_def)
    show "requests s3 = requests s1 \<or> requests s3 = AList.delete (request_id (objs s1 a)) (requests s1)" using F s2 by simp
  qed (use F s2 Cons.prems(3) in \<open>simp_all add: is_finished_def\<close>)
  from Cons.IH [OF rest this Cons.prems(3)] show ?case by simp
qed simp

lemma retires_ok:
  assumes ok: "sched_ok s {#}" and ret: "retires V s0 s'"
    and s0: "objs s0 = objs s" "requests s0 = requests s" "running s0 = filter (\<lambda>a. a \<notin> V) (running s)"
      "queue_mset (waiting s0) + queue_mset (skipped_waiting s0) =
        filter_mset (\<lambda>a. a \<notin> V) (queue_mset (waiting s) + queue_mset (skipped_waiting s))"
    and V: "\<And>a. a \<in> V \<Longrightarrow> map_of (requests s) (request_id (objs s a)) = Some a"
  shows "sched_ok s' {#} \<and> all_reqs s' {#} = filter_mset (\<lambda>a. a \<notin> V) (all_reqs s {#})"
proof -
  have q: "running s' = running s0" "waiting s' = waiting s0" "skipped_waiting s' = skipped_waiting s0"
    and o: "\<And>x. request_id (objs s' x) = request_id (objs s x)" "\<And>x. x \<notin> V \<Longrightarrow> status (objs s' x) = status (objs s x)"
      "\<And>x. x \<in> V \<Longrightarrow> is_finished (objs s' x)"
    using ret s0(1) by (auto simp: retires_def same_queues_def)
  obtain D where D: "D \<subseteq> (\<lambda>x. request_id (objs s x)) ` V" "requests s' = filter (\<lambda>(k, _). k \<notin> D) (requests s)"
    using ret s0(1,2) by (auto simp: retires_def)
  have del: "a \<in> V" if "(rid, a) \<in> set (requests s)" "\<not> (case (rid, a) of (k, _) \<Rightarrow> k \<notin> D)" for rid a
  proof -
    note H = that
    obtain v where v: "v \<in> V" "rid = request_id (objs s v)" using H(2) D(1) by auto
    have "map_of (requests s) rid = Some a" using H(1) ok by (simp add: sched_ok_def)
    then show ?thesis using V [OF v(1)] v by simp
  qed
  have R: "running s' = filter (\<lambda>a. a \<notin> V) (running s)" using q(1) s0(3) by simp
  have Q: "queue_mset (waiting s') + queue_mset (skipped_waiting s') =
      filter_mset (\<lambda>a. a \<notin> V) (queue_mset (waiting s) + queue_mset (skipped_waiting s))" unfolding q(2,3) by (rule s0(4))
  show ?thesis
  proof
    show "sched_ok s' {#}" by (rule sched_ok_drop(1) [OF ok R Q D(2)]) (use del o in blast)+
    show "all_reqs s' {#} = filter_mset (\<lambda>a. a \<notin> V) (all_reqs s {#})"
      by (rule sched_ok_drop(2) [OF ok R Q D(2)]) (use del o in blast)+
  qed
qed

text \<open>What a finished request was given up by: the requests to finish are known and live.\<close>

lemma in_map_filter: "y \<in> set (List.map_filter f xs) \<longleftrightarrow> (\<exists>x \<in> set xs. f x = Some y)"
  by (force simp: List.map_filter_def)

lemma valid_requests_iff:
  assumes "sched_ok s {#}"
  shows "set (valid_requests s ids) = {a. request_id (objs s a) \<in> set ids \<and>
    map_of (requests s) (request_id (objs s a)) = Some a \<and> \<not> is_finished (objs s a)}"
proof -
  have id: "request_id (objs s a) = rid" if "map_of (requests s) rid = Some a" for rid a
    using map_of_SomeD [OF that] assms by (auto simp: sched_ok_def)
  show ?thesis
  proof (intro set_eqI iffI)
    fix a assume "a \<in> set (valid_requests s ids)"
    then obtain rid where "rid \<in> set ids" "map_of (requests s) rid = Some a" "\<not> is_finished (objs s a)"
      unfolding valid_requests_def in_map_filter by (auto split: option.splits if_splits)
    then show "a \<in> {a. request_id (objs s a) \<in> set ids \<and> map_of (requests s) (request_id (objs s a)) = Some a \<and> \<not> is_finished (objs s a)}"
      using id by auto
  next
    fix a assume "a \<in> {a. request_id (objs s a) \<in> set ids \<and> map_of (requests s) (request_id (objs s a)) = Some a \<and> \<not> is_finished (objs s a)}"
    then show "a \<in> set (valid_requests s ids)"
      unfolding valid_requests_def in_map_filter by (intro bexI [of _ "request_id (objs s a)"]) auto
  qed
qed

definition ids_of :: "string list option \<Rightarrow> scheduler \<Rightarrow> string list" where
  "ids_of request_ids s = (case request_ids of None \<Rightarrow> map fst (requests s) | Some l \<Rightarrow> remdups l)"

lemma finish_requests_retires:
  assumes f: "finish_requests env request_ids st s = Inr (l, s')" and ok: "sched_ok s {#}"
  defines "V \<equiv> set (valid_requests s (ids_of request_ids s))"
  shows "sched_ok s' {#} \<and> all_reqs s' {#} = filter_mset (\<lambda>a. a \<notin> V) (all_reqs s {#}) \<and>
    (\<exists>s0. retires V s0 s' \<and> objs s0 = objs s \<and> requests s0 = requests s \<and> cfg s0 = cfg s \<and> running s0 = filter (\<lambda>a. a \<notin> V) (running s))"
proof -
  let ?valid = "valid_requests s (ids_of request_ids s)"
  let ?run = "filter (\<lambda>a. status (objs s a) = RUNNING) ?valid" and ?wait = "filter (\<lambda>a. status (objs s a) \<noteq> RUNNING) ?valid"
  define s1 where "s1 = s\<lparr>num_waiting_for_streaming_input := num_waiting_for_streaming_input s
      - int (length (filter (\<lambda>a. status (objs s a) = WAITING_FOR_STREAMING_REQ) ?valid)),
    running := remove_all (running s) (set ?run)\<rparr>"
  define s2 where "s2 = (if ?wait = [] then s1
    else s1\<lparr>waiting := queue_remove_requests (objs s1) ?wait (waiting s1),
            skipped_waiting := queue_remove_requests (objs s1) ?wait (skipped_waiting s1)\<rparr>)"
  have st: "is_finished_status st" and loop: "finish_loop env st ?valid s2 = Inr s'"
    using f unfolding finish_requests_def Let_def ids_of_def [symmetric] s1_def [symmetric] s2_def [symmetric]
    by (auto simp: rbind_Inr_iff)
  have same: "objs s2 = objs s" "requests s2 = requests s" "cfg s2 = cfg s" by (simp_all add: s1_def s2_def)
  have "running s2 = filter (\<lambda>a. a \<notin> set ?run) (running s)"
    unfolding s2_def s1_def using remove_all_filter [OF sched_okD(1) [OF ok], of "set ?run"] by simp
  also have "\<dots> = filter (\<lambda>a. a \<notin> V) (running s)"
    by (rule filter_cong) (use sched_okD(2) [OF ok] in \<open>auto simp: V_def\<close>)
  finally have run: "running s2 = filter (\<lambda>a. a \<notin> V) (running s)" .
  have notrun: "status (objs s a) \<noteq> RUNNING" if "a \<in># queue_mset (waiting s) + queue_mset (skipped_waiting s)" for a
    using that ok by (auto simp: sched_ok_def)
  have q: "filter_mset (\<lambda>a. a \<notin> set ?wait) M = filter_mset (\<lambda>a. a \<notin> V) M"
    if "M = queue_mset (waiting s) \<or> M = queue_mset (skipped_waiting s)" for M
    by (rule filter_mset_cong) (use that notrun in \<open>auto simp: V_def\<close>)
  have wait: "queue_mset (waiting s2) + queue_mset (skipped_waiting s2) =
      filter_mset (\<lambda>a. a \<notin> V) (queue_mset (waiting s) + queue_mset (skipped_waiting s))"
  proof (cases "?wait = []")
    case True
    have "filter_mset (\<lambda>a. a \<notin> V) M = M" if "M = queue_mset (waiting s) \<or> M = queue_mset (skipped_waiting s)" for M
      using q [OF that] unfolding True by simp
    then show ?thesis using True by (simp add: s2_def s1_def)
  next
    case False
    then show ?thesis using q by (simp add: s2_def s1_def)
  qed
  have ret: "retires V s2 s'" using finish_loop_retires [OF loop retires_empty st] by (simp add: V_def)
  have V: "map_of (requests s) (request_id (objs s a)) = Some a" if "a \<in> V" for a
    using that valid_requests_iff [OF ok] by (simp add: V_def)
  show ?thesis
    using retires_ok [OF ok ret same(1,2) run wait V] ret same run by blast
qed

subsection \<open>Processing the output for one request\<close>

text \<open>Only the object of \<open>a\<close> changes, and not its id.\<close>

definition only :: "nat \<Rightarrow> scheduler \<Rightarrow> scheduler \<Rightarrow> bool" where
  "only a s s' \<longleftrightarrow> (\<forall>x. x \<noteq> a \<longrightarrow> objs s' x = objs s x) \<and> request_id (objs s' a) = request_id (objs s a)"

lemma only_trans: "only a s s1 \<Longrightarrow> only a s1 s2 \<Longrightarrow> only a s s2"
  by (simp add: only_def)

lemma only_upd: "request_id r = request_id (objs s a) \<Longrightarrow> only a s (upd_req a (\<lambda>_. r) s)"
  by (simp add: only_def upd_req_def)

lemma only_objs: "only a s s' \<Longrightarrow> objs s' = (objs s)(a := objs s' a)"
  by (auto simp: only_def)

lemma only_ids: "only a s s' \<Longrightarrow> request_id (objs s' x) = request_id (objs s x)"
  by (cases "x = a") (simp_all add: only_def)

lemma same_queues_upd [simp]: "same_queues s (upd_req a f s)"
  by (simp add: same_queues_def upd_req_def)

lemma append_tokens_frame:
  assumes "append_tokens env ts r = Inr r'"
  shows "request_id r' = request_id r \<and> status r' = status r"
  using assms by (auto simp: append_tokens_def append_output_token_ids_def update_block_hashes_def map_sum_id_Inr)

lemma check_stop_frame:
  assumes "check_stop r n = Inr (stopped, r')"
  shows "request_id r' = request_id r \<and> (if stopped then is_finished r' else r' = r)"
  using assms
  by (auto simp: check_stop_def rbind_Inr_iff Let_def is_finished_def is_finished_status_def less_request_status_def
      split: option.splits if_splits)

lemma output_token_loop_frame:
  assumes "output_token_loop env n acc ts r = Inr (acc', stopped, r')"
  shows "request_id r' = request_id r \<and> (if stopped then is_finished r' else status r' = status r)"
  using assms
proof (induction ts arbitrary: acc r)
  case (Cons x ts)
  obtain r1 b r2 where a: "append_tokens env [x] r = Inr r1" and c: "check_stop r1 n = Inr (b, r2)"
    and rest: "(if b then Inr (acc @ [x], True, r2) else output_token_loop env n (acc @ [x]) ts r2) = Inr (acc', stopped, r')"
    using Cons.prems by (auto simp: rbind_Inr_iff)
  note A = append_tokens_frame [OF a] and C = check_stop_frame [OF c]
  show ?case
  proof (cases b)
    case False
    then show ?thesis using Cons.IH rest A C by fastforce
  qed (use rest A C in auto)
qed simp

definition stop_effect :: "nat \<Rightarrow> bool \<Rightarrow> scheduler \<Rightarrow> scheduler \<Rightarrow> bool" where
  "stop_effect a stopped s s' \<longleftrightarrow> same_queues s s' \<and> only a s s' \<and>
     (if stopped then is_finished (objs s' a) else status (objs s' a) = status (objs s a))"

lemma update_request_with_output_effect:
  assumes "update_request_with_output env a ts s = Inr (ts', stopped, s')"
  shows "stop_effect a stopped s s'"
proof -
  obtain r where "output_token_loop env (max_model_len (cfg s)) [] ts (objs s a) = Inr (ts', stopped, r)" "s' = upd_req a (\<lambda>_. r) s"
    using assms by (auto simp: update_request_with_output_def rbind_Inr_iff)
  then show ?thesis
    using output_token_loop_frame only_upd [of r s a] by (fastforce simp: stop_effect_def upd_req_def same_queues_def)
qed

lemma async_update_request_with_output_effect:
  assumes "async_update_request_with_output env a ts s = Inr (ts', stopped, s')"
  shows "stop_effect a stopped s s'"
proof (cases "async_tokens_to_discard (objs s a) > 0")
  case True
  then show ?thesis using assms
    by (auto simp: async_update_request_with_output_def Let_def stop_effect_def only_def upd_req_def same_queues_def)
next
  case False
  then obtain s1 where u: "update_request_with_output env a ts s = Inr (ts', stopped, s1)"
    and s': "objs s' = (objs s1)(a := (objs s1 a)\<lparr>num_output_placeholders := num_output_placeholders (objs s1 a) - length ts'\<rparr>)"
      "same_queues s1 s'"
    using assms
    by (auto simp: async_update_request_with_output_def Let_def rbind_Inr_iff upd_req_def same_queues_def split: if_splits)
  then show ?thesis
    using update_request_with_output_effect [OF u] same_queues_trans by (auto simp: stop_effect_def only_def is_finished_def)
qed

lemma process_tokens_effect:
  assumes "process_tokens env a generated pooled s = Inr (ts, stopped, s')"
  shows "stop_effect a stopped s s'"
proof -
  let ?first = "if generated \<noteq> [] then
              (if async_scheduling (cfg s) then async_update_request_with_output env a generated s
               else update_request_with_output env a generated s)
            else if req_pooling_params (objs s a) \<noteq> None \<and> pooled
            then Inr ([], True, upd_req a (\<lambda>r. r\<lparr>status := FINISHED_STOPPED\<rparr>) s)
            else Inr ([], False, s)"
  obtain ts1 st1 s1 where u: "?first = Inr (ts1, st1, s1)"
    using assms unfolding process_tokens_def by (cases ?first) auto
  have rest: "(ts, stopped, s') = (if ts1 \<noteq> [] \<and> should_advance env (objs s1 a) \<and> \<not> accept_tokens env (request_id (objs s1 a)) ts1
       then (ts1, True, upd_req a (\<lambda>r. r\<lparr>status := FINISHED_ERROR, resumable := False\<rparr>) s1)
       else (ts1, st1, s1))"
    using assms unfolding process_tokens_def u by (auto simp: Let_def split: if_splits)
  have "stop_effect a st1 s s1"
  proof (cases "generated \<noteq> []")
    case True
    then show ?thesis
      using u update_request_with_output_effect async_update_request_with_output_effect by (auto split: if_splits)
  next
    case False
    then show ?thesis using u
      by (auto simp: stop_effect_def only_def upd_req_def same_queues_def is_finished_def is_finished_status_def
          less_request_status_def split: if_splits)
  qed
  then show ?thesis using rest
    by (auto simp: stop_effect_def only_def upd_req_def same_queues_def is_finished_def is_finished_status_def
        less_request_status_def split: if_splits)
qed

text \<open>A stopped request is finished, or it is a session that goes back to a queue.\<close>

definition requeued :: "nat \<Rightarrow> scheduler \<Rightarrow> scheduler \<Rightarrow> bool" where
  "requeued a s s' \<longleftrightarrow> only a s s' \<and> running s' = running s \<and> requests s' = requests s \<and> cfg s' = cfg s \<and>
     queue_mset (waiting s') + queue_mset (skipped_waiting s') = add_mset a (queue_mset (waiting s) + queue_mset (skipped_waiting s)) \<and>
     status (objs s' a) \<noteq> RUNNING \<and> \<not> is_finished (objs s' a)"

lemma enqueue_requeued:
  assumes "only a s s1" "same_queues s s1" "status (objs s1 a) = WAITING \<or> status (objs s1 a) = WAITING_FOR_STREAMING_REQ"
  shows "requeued a s (enqueue_waiting_request a s1)"
  using assms
  by (auto simp: requeued_def enqueue_waiting_request_def only_def same_queues_def 
      is_finished_def is_finished_status_def less_request_status_def)

lemma session_update_frame:
  assumes "session_update env r u n = Inr (r', n')"
  shows "request_id r' = request_id r \<and> status r' = WAITING"
  using assms
  by (auto simp: session_update_def update_request_as_session_def Let_def update_block_hashes_def map_sum_id_Inr
      split: option.splits)

lemma update_session_frame:
  assumes "update_session env a u s = Inr s'"
  shows "only a s s' \<and> same_queues s s' \<and> status (objs s' a) = WAITING"
  using assms
  by (auto simp: update_session_def rbind_Inr_iff only_def upd_req_def same_queues_def dest!: session_update_frame)

lemma handle_stopped_request_cases:
  assumes "handle_stopped_request env a s = Inr (finished, s')"
  shows "if finished then only a s s' \<and> same_queues s s' \<and> status (objs s' a) = status (objs s a) else requeued a s s'"
proof -
  let ?s1 = "upd_req a (\<lambda>r. r\<lparr>status := WAITING_FOR_STREAMING_REQ\<rparr>)
      (s\<lparr>num_waiting_for_streaming_input := num_waiting_for_streaming_input s + 1\<rparr>)"
  consider (fin) "finished" "s' = s \<or> (\<exists>us. s' = upd_req a (\<lambda>r. r\<lparr>streaming_queue := us\<rparr>) s)"
    | (cont) u us s1 where "\<not> finished" "update_session env a u (upd_req a (\<lambda>r. r\<lparr>streaming_queue := us\<rparr>) s) = Inr s1"
        "s' = enqueue_waiting_request a s1"
    | (wait) "\<not> finished" "s' = enqueue_waiting_request a ?s1"
    using assms by (auto simp: handle_stopped_request_def Let_def rbind_Inr_iff split: if_splits option.splits list.splits)
  then show ?thesis
  proof cases
    case fin
    then show ?thesis by (auto simp: only_def upd_req_def same_queues_def)
  next
    case (cont u us s1)
    have "only a s s1" "same_queues s s1" "status (objs s1 a) = WAITING"
      using update_session_frame [OF cont(2)] by (auto simp: only_def upd_req_def same_queues_def)
    then show ?thesis using cont(1,3) enqueue_requeued [of a s s1] by simp
  next
    case wait
    have "only a s ?s1" "same_queues s ?s1" "status (objs ?s1 a) = WAITING_FOR_STREAMING_REQ"
      by (simp_all add: only_def upd_req_def same_queues_def)
    then show ?thesis using wait enqueue_requeued [of a s ?s1] by simp
  qed
qed

lemma retires_only:
  assumes "only a s s1" "same_queues s s1" "sched_free_request env a d s1 = Inr s2"
  shows "retires {a} s s2"
proof -
  note F = sched_free_request_frame [OF assms(3)]
  have "retires (insert a {}) s s2"
    by (rule retires_step [OF retires_empty])
      (use F assms(1,2) only_ids [OF assms(1)] in \<open>auto simp: same_queues_def only_def\<close>)
  then show ?thesis by simp
qed

text \<open>What processing one request does: nothing that matters, or the request finishes, or it goes back to a queue.\<close>

lemma process_request_cases:
  assumes p: "process_request env out mr rid a s u = Inr (s', u')" and run: "status (objs s a) = RUNNING"
  obtains "same_ids s s'" "stopped_running u' = stopped_running u" "stopped_preempted u' = stopped_preempted u"
  | "retires {a} s s'" "stopped_running u' = insert a (stopped_running u)" "stopped_preempted u' = stopped_preempted u"
  | "requeued a s s'" "stopped_running u' = insert a (stopped_running u)" "stopped_preempted u' = stopped_preempted u"
proof -
  obtain idx where "dict_get (req_id_to_index mr) rid = Inr idx"
    using p unfolding process_request_def by (auto simp: rbind_Inr_iff)
  note p = p [unfolded process_request_def this rbind_simps]
  obtain generated where "(if sampled_token_ids mr = [] then Inr [] else list_get (sampled_token_ids mr) idx) = Inr generated"
    using p by (cases "if sampled_token_ids mr = [] then Inr [] else list_get (sampled_token_ids mr) idx") auto
  note p = p [unfolded this rbind_simps]
  define drafts where "drafts = (case map_of (so_scheduled_spec_decode_tokens out) rid of None \<Rightarrow> [] | Some ts \<Rightarrow> ts)"
  define s1 where "s1 = (if drafts \<noteq> [] \<and> generated \<noteq> []
    then upd_req a (apply_rejections (int (length drafts) - (int (length generated) - 1))) s else s)"
  have s1: "only a s s1" "same_queues s s1" "status (objs s1 a) = status (objs s a)"
    by (simp_all add: s1_def only_def upd_req_def same_queues_def apply_rejections_def)
  let ?free = "if has_encoder_inputs (objs s1 a)
                 then rbind (free_encoder_inputs (objs s1 a) (encoder_mgr s1)) (\<lambda>m. Inr (s1\<lparr>encoder_mgr := m\<rparr>))
                 else Inr s1"
  note p = p [unfolded Let_def, folded drafts_def, folded s1_def]
  obtain s2 where s2: "?free = Inr s2" using p by (cases ?free) simp_all
  note p = p [unfolded s2 rbind_simps]
  have S2: "objs s2 = objs s1" "same_queues s1 s2" using s2 by (auto simp: rbind_Inr_iff same_queues_def split: if_splits)
  obtain pooled where "(if pooler_output mr = [] then Inr False else list_get (pooler_output mr) idx) = Inr pooled"
    using p by (cases "if pooler_output mr = [] then Inr False else list_get (pooler_output mr) idx") auto
  note p = p [unfolded this rbind_simps]
  obtain ts stopped s3 where t: "process_tokens env a generated pooled s2 = Inr (ts, stopped, s3)"
    using p by (cases "process_tokens env a generated pooled s2") auto
  note p = p [unfolded t rbind_simps prod.case]
  let ?stop = "if stopped then rbind (handle_stopped_request env a s3) (\<lambda>(finished, s4).
                      if finished then sched_free_request env a False s4 else Inr s4)
                 else Inr s3"
  obtain s5 where s5: "?stop = Inr s5" using p by (cases ?stop) simp_all
  note p = p [unfolded s5 rbind_simps]
  have st2: "status (objs s2 a) = RUNNING" using run s1(3) S2(1) by simp
  have s': "s' = s5 \<or> s' = upd_req a (\<lambda>r. r\<lparr>has_prefill_stats := False\<rparr>) s5"
    using p by (auto split: if_splits)
  have u': "stopped_running u' = (if stopped then insert a (stopped_running u) else stopped_running u)"
    "stopped_preempted u' = stopped_preempted u"
    using p st2 by (auto split: if_splits)
  have T: "stop_effect a stopped s2 s3" by (rule process_tokens_effect [OF t])
  have O3: "only a s s3" "same_queues s s3"
    using s1 S2 T by (auto simp: stop_effect_def only_def same_queues_def)
  have fin: "same_ids s5 s'" "only a s5 s'" using s' by (auto simp: same_ids_def only_def upd_req_def same_queues_def)
  show thesis
  proof (cases stopped)
    case False
    then have "s5 = s3" using s5 by simp
    moreover have "status (objs s3 a) = status (objs s a)" using False T S2 s1 by (simp add: stop_effect_def)
    ultimately have "same_ids s s5" using O3 only_ids [OF O3(1)] by (auto simp: same_ids_def only_def) metis
    then show thesis using that(1) False u' same_ids_trans fin(1) by simp
  next
    case True
    then obtain finished s4 where h: "handle_stopped_request env a s3 = Inr (finished, s4)"
      and f: "(if finished then sched_free_request env a False s4 else Inr s4) = Inr s5"
      using s5 by (auto simp: rbind_Inr_iff)
    note H = handle_stopped_request_cases [OF h]
    show thesis
    proof (cases finished)
      case fd: True
      then have "only a s s4" "same_queues s s4" using H O3 same_queues_trans by (auto simp: only_def)
      then have "retires {a} s s5" using retires_only f fd by simp
      then have "retires {a} s s'" using fin by (auto simp: retires_def same_ids_def same_queues_def is_finished_def)
      then show thesis using that(2) True u' by simp
    next
      case fd: False
      then have "requeued a s3 s5" using H f by simp
      then have "requeued a s s'" using O3 fin by (auto simp: requeued_def same_ids_def only_def same_queues_def is_finished_def)
      then show thesis using that(3) True u' by simp
    qed
  qed
qed

subsection \<open>The loop over the scheduled requests\<close>

text \<open>Stopped requests are removed from the running list after the loop only: \<open>still\<close> is the state with
  them removed.\<close>

definition still :: "update_state \<Rightarrow> scheduler \<Rightarrow> scheduler" where
  "still u s = s\<lparr>running := filter (\<lambda>a. a \<notin> stopped_running u) (running s)\<rparr>"

lemma still_simps [simp]:
  "objs (still u s) = objs s" "requests (still u s) = requests s" "waiting (still u s) = waiting s"
  "skipped_waiting (still u s) = skipped_waiting s" "cfg (still u s) = cfg s"
  "running (still u s) = filter (\<lambda>a. a \<notin> stopped_running u) (running s)"
  by (simp_all add: still_def)

text \<open>The ids still to be processed belong to running requests, or to finished or unknown ones.\<close>

definition served :: "scheduler \<Rightarrow> string set \<Rightarrow> bool" where
  "served s ids \<longleftrightarrow> (\<forall>rid \<in> ids. \<forall>a. map_of (requests s) rid = Some a \<longrightarrow> is_finished (objs s a) \<or> status (objs s a) = RUNNING)"

definition upd_inv :: "nat multiset \<Rightarrow> nat list \<Rightarrow> sched_config \<Rightarrow> string set \<Rightarrow> scheduler \<Rightarrow> update_state \<Rightarrow> bool" where
  "upd_inv Q R c ids s u \<longleftrightarrow> sched_ok (still u s) {#} \<and> all_reqs (still u s) {#} = filter_mset (\<lambda>a. \<not> is_finished (objs s a)) Q \<and>
     distinct (running s) \<and> finite (stopped_running u) \<and> stopped_preempted u = {} \<and> served s ids \<and>
     running s = R \<and> cfg s = c"

lemma remove1_filter_insert: "distinct xs \<Longrightarrow> remove1 a (filter (\<lambda>x. x \<notin> A) xs) = filter (\<lambda>x. x \<notin> insert a A) xs"
  by (simp add: distinct_remove1_removeAll removeAll_filter_not_eq conj_commute) metis

lemma filter_mset_absent: "a \<notin># M \<Longrightarrow> filter_mset (\<lambda>x. x \<noteq> a) M = M"
  by (rule multiset_eqI) (auto simp: not_in_iff)

lemma served_step:
  assumes "served s ids" "rid \<notin> ids" and ok: "sched_ok s0 {#}" "requests s0 = requests s" "objs s0 = objs s" and a: "request_id (objs s a) = rid"
    and r: "set (requests s') \<subseteq> set (requests s)" "distinct (map fst (requests s'))"
    and st: "\<forall>x. x \<noteq> a \<longrightarrow> status (objs s' x) = status (objs s x)"
  shows "served s' ids"
proof -
  have "is_finished (objs s' b) \<or> status (objs s' b) = RUNNING" if "k \<in> ids" "map_of (requests s') k = Some b" for k b
  proof -
    have kb: "(k, b) \<in> set (requests s)" using map_of_SomeD [OF that(2)] r(1) by blast
    then have "request_id (objs s b) = k" "map_of (requests s) k = Some b" using ok by (auto simp: sched_ok_def)
    then have "b \<noteq> a" "is_finished (objs s b) \<or> status (objs s b) = RUNNING"
      using a that(1) assms(1,2) by (auto simp: served_def)
    then show ?thesis using st by (simp add: is_finished_def)
  qed
  then show ?thesis by (simp add: served_def)
qed

lemma process_upd_inv:
  assumes p: "process_request env out mr rid a s u = Inr (s', u')" and inv: "upd_inv Q R c (insert rid ids) s u" and new: "rid \<notin> ids"
    and a: "map_of (requests s) rid = Some a" "\<not> is_finished (objs s a)"
  shows "upd_inv Q R c ids s' u'"
proof -
  have ok: "sched_ok (still u s) {#}" and all: "all_reqs (still u s) {#} = filter_mset (\<lambda>a. \<not> is_finished (objs s a)) Q"
    and d: "distinct (running s)" and u: "finite (stopped_running u)" "stopped_preempted u = {}" and sv: "served s (insert rid ids)"
    and rc: "running s = R" "cfg s = c"
    using inv by (auto simp: upd_inv_def)
  have run: "status (objs s a) = RUNNING" using sv a by (auto simp: served_def)
  have "(rid, a) \<in> set (requests s)" by (rule map_of_SomeD [OF a(1)])
  then have "request_id (objs s a) = rid" "a \<in># all_reqs (still u s) {#}"
    using ok a(2) by (auto simp: sched_ok_def)
  moreover have "a \<notin># queue_mset (waiting s) + queue_mset (skipped_waiting s)" using ok run by (auto simp: sched_ok_def)
  ultimately have ida: "request_id (objs s a) = rid" and arun: "a \<in> set (running (still u s))"
    by (auto simp: all_reqs_def)
  have mapa: "map_of (requests s) (request_id (objs s a)) = Some a" using a(1) ida by simp
  have sv': "served s ids" using sv by (auto simp: served_def)
  note SV = served_step [OF sv' new ok still_simps(2,1) ida]
  have dk: "distinct (map fst (requests s))" using ok by (simp add: sched_ok_def)
  from p run show ?thesis
  proof (cases rule: process_request_cases)
    case 1
    have S: "same_queues (still u s) (still u' s')" "\<And>x. request_id (objs s' x) = request_id (objs s x)"
      "\<And>x. status (objs s' x) = status (objs s x)" "requests s' = requests s" "running s' = running s" "cfg s' = cfg s"
      using 1 by (auto simp: same_ids_def same_queues_def)
    have fin: "is_finished (objs s' x) = is_finished (objs s x)" for x using S(3) by (simp add: is_finished_def)
    have "sched_ok (still u' s') {#}" "all_reqs (still u' s') {#} = all_reqs (still u s) {#}"
      using sched_ok_same [OF S(1)] S(2,3) ok by simp_all
    moreover have "served s' ids" by (rule SV) (use S dk in auto)
    ultimately show ?thesis using all d u rc 1(2,3) S(5,6) fin by (simp add: upd_inv_def)
  next
    case 2
    let ?s0 = "(still u s)\<lparr>running := filter (\<lambda>x. x \<notin> {a}) (running (still u s))\<rparr>"
    have r: "running s' = running s" "waiting s' = waiting s" "skipped_waiting s' = skipped_waiting s" "cfg s' = cfg s"
      and st: "\<forall>x. x \<noteq> a \<longrightarrow> status (objs s' x) = status (objs s x)" "is_finished (objs s' a)"
      and sub: "set (requests s') \<subseteq> set (requests s)" "distinct (map fst (requests s'))"
      using 2(1) dk by (auto simp: retires_def same_queues_def intro: distinct_map_filter)
    have "running (still u' s') = filter (\<lambda>x. x \<notin> {a}) (running (still u s))"
      using r(1) 2(2) by (simp add: conj_commute)
    then have ret: "retires {a} ?s0 (still u' s')"
      using 2(1) by (simp add: retires_def same_queues_def)
    have notq: "filter_mset (\<lambda>x. x \<notin> {a}) (queue_mset (waiting s) + queue_mset (skipped_waiting s)) = queue_mset (waiting s) + queue_mset (skipped_waiting s)"
      using \<open>a \<notin># queue_mset (waiting s) + queue_mset (skipped_waiting s)\<close> by (auto simp: filter_mset_absent)
    have "sched_ok (still u' s') {#} \<and> all_reqs (still u' s') {#} = filter_mset (\<lambda>x. x \<notin> {a}) (all_reqs (still u s) {#})"
      by (rule retires_ok [OF ok ret]) (use mapa notq in simp_all)
    moreover have "filter_mset (\<lambda>x. x \<notin> {a}) (filter_mset (\<lambda>a. \<not> is_finished (objs s a)) Q) = filter_mset (\<lambda>a. \<not> is_finished (objs s' a)) Q"
      unfolding filter_filter_mset by (rule filter_mset_cong) (use st in \<open>auto simp: is_finished_def\<close>)
    moreover have "served s' ids" by (rule SV [OF sub st(1)])
    ultimately show ?thesis using all d u rc 2(2,3) r(1,4) by (simp add: upd_inv_def)
  next
    case 3
    have r: "running s' = running s" "requests s' = requests s" "only a s s'" "cfg s' = cfg s"
      and q: "queue_mset (waiting s') + queue_mset (skipped_waiting s') = add_mset a (queue_mset (waiting s) + queue_mset (skipped_waiting s))"
      and st: "status (objs s' a) \<noteq> RUNNING" "\<not> is_finished (objs s' a)"
      using 3(1) by (auto simp: requeued_def)
    have "running (still u' s') = remove1 a (running (still u s))"
      using remove1_filter_insert [OF d] 3(2) r(1) by simp
    note K = sched_ok_requeue [OF ok arun this, of "objs s' a"]
    have "sched_ok (still u' s') {#}" "all_reqs (still u' s') {#} = all_reqs (still u s) {#}"
      by (rule K; use q r only_objs [OF r(3)] st in \<open>simp add: only_def\<close>)+
    moreover have "is_finished (objs s' x) = is_finished (objs s x)" for x
      using st(2) a(2) r(3) by (cases "x = a") (simp_all add: only_def)
    moreover have "served s' ids" by (rule SV) (use r dk in \<open>auto simp: only_def\<close>)
    ultimately show ?thesis using all d u rc 3(2,3) r(1,4) by (simp add: upd_inv_def)
  qed
qed

lemma update_loop_inv:
  assumes "update_loop env out mr failed ns s u = Inr (s', u')" "upd_inv Q R c (fst ` set ns) s u" "distinct (map fst ns)"
  shows "upd_inv Q R c {} s' u'"
  using assms
proof (induction ns arbitrary: s u)
  case (Cons x ns)
  obtain rid n where x: "x = (rid, n)" by (cases x)
  have inv: "upd_inv Q R c (insert rid (fst ` set ns)) s u" and new: "rid \<notin> fst ` set ns" using Cons.prems(2,3) by (auto simp: x)
  have skip: "upd_inv Q R c (fst ` set ns) s u" using inv by (auto simp: upd_inv_def served_def)
  have d: "distinct (map fst ns)" using Cons.prems(3) by simp
  consider "update_loop env out mr failed ns s u = Inr (s', u')"
    | a s1 u1 where "map_of (requests s) rid = Some a" "\<not> is_finished (objs s a)"
        "process_request env out mr rid a s u = Inr (s1, u1)" "update_loop env out mr failed ns s1 u1 = Inr (s', u')"
    using Cons.prems(1) by (auto simp: x rbind_Inr_iff split: if_splits option.splits)
  then show ?case
  proof cases
    case 1
    then show ?thesis using Cons.IH [OF _ skip d] by simp
  next
    case (2 a s1 u1)
    then show ?thesis using Cons.IH [OF 2(4) process_upd_inv [OF 2(3) inv new 2(1,2)] d] by simp
  qed
qed (auto simp: upd_inv_def served_def)

subsection \<open>The whole update\<close>

lemma invalid_loop_frame:
  assumes "invalid_loop bs invalid sched evict as s affected tot marked to_evict = Inr (aff, t, ev, s')"
  shows "same_ids s s'"
  using assms
proof (induction as arbitrary: s affected tot marked to_evict)
  case (Cons a as)
  obtain ids where ids: "kv_get_block_ids (request_id (objs s a)) (kv s) = [ids]"
    using Cons.prems by (auto simp: Let_def split: list.splits)
  obtain f aff2 tot2 m2 e2 b where rest: "invalid_loop bs invalid sched evict as (if b then upd_req a f s else s) aff2 tot2 m2 e2 = Inr (aff, t, ev, s')"
    and f: "request_id (f (objs s a)) = request_id (objs s a)" "status (f (objs s a)) = status (objs s a)"
    using Cons.prems unfolding invalid_loop.simps Let_def ids list.case
    by (rule that [rotated 0]) simp_all
  have "same_ids s (if b then upd_req a f s else s)"
    using f by (auto simp: same_ids_def upd_req_def same_queues_def)
  then show ?case using Cons.IH [OF rest] by (rule same_ids_trans)
qed (simp add: same_ids_def)

lemma rbind_InrE: "rbind m f = Inr y \<Longrightarrow> (\<And>x. m = Inr x \<Longrightarrow> thesis) \<Longrightarrow> thesis"
  by (cases m) simp_all

lemma handle_invalid_blocks_frame:
  assumes "handle_invalid_blocks invalid sched s = Inr (failed, s')"
  shows "same_ids s s'"
proof -
  let ?as = "filter (\<lambda>a. status (objs s a) = WAITING_FOR_REMOTE_KVS) (queue_iter (objs s) (skipped_waiting s))"
  note H = assms [unfolded handle_invalid_blocks_def update_requests_with_invalid_blocks_def Let_def]
  from H obtain y1 where y1: "invalid_loop (sched_block_size (cfg s)) invalid sched False ?as s {} 0 {} {} = Inr y1" by (rule rbind_InrE)
  obtain aff1 t1 e1 s1 where "y1 = (aff1, t1, e1, s1)" by (cases y1)
  note l1 = y1 [unfolded this]
  note H = H [unfolded l1 rbind_simps prod.case]
  from H obtain y2 where y2: "invalid_loop (sched_block_size (cfg s1)) invalid sched True (running s1) s1 {} 0 {} {} = Inr y2" by (rule rbind_InrE)
  obtain aff2 t2 e2 s2 where "y2 = (aff2, t2, e2, s2)" by (cases y2)
  note l2 = y2 [unfolded this]
  note H = H [unfolded l2 rbind_simps prod.case]
  have rest: "same_queues s2 s' \<and> objs s' = objs s2"
  proof (cases "aff1 = {} \<and> aff2 = {}")
    case True
    then show ?thesis using H by simp
  next
    case False
    note H = H [unfolded if_not_P [OF False]]
    from H obtain s3 where s3: "(if e2 \<noteq> {} \<and> \<not> recompute_kv_load_failures (cfg s2)
        then rbind (kv_evict_blocks (sorted_list_of_set e2) (kv s2)) (\<lambda>k. Inr (s2\<lparr>kv := k\<rparr>)) else Inr s2) = Inr s3"
      by (rule rbind_InrE)
    then have "same_queues s2 s3 \<and> objs s3 = objs s2" by (auto simp: rbind_Inr_iff same_queues_def split: if_splits)
    moreover have "same_queues s3 s' \<and> objs s' = objs s3"
      using H unfolding s3 rbind_simps by (simp add: same_queues_def split: if_splits) auto
    ultimately show ?thesis by (auto simp: same_queues_def)
  qed
  have "same_ids s s2" using invalid_loop_frame [OF l1] invalid_loop_frame [OF l2] by (rule same_ids_trans)
  then show ?thesis using rest by (auto simp: same_ids_def same_queues_def)
qed

text \<open>Transfers that finish: entries of finished requests are deleted.\<close>

definition forgets :: "scheduler \<Rightarrow> scheduler \<Rightarrow> bool" where
  "forgets s s' \<longleftrightarrow> objs s' = objs s \<and> same_queues (s\<lparr>requests := requests s'\<rparr>) s' \<and>
     set (requests s') \<subseteq> set (requests s) \<and> (sched_ok s {#} \<longrightarrow> sched_ok s' {#} \<and> all_reqs s' {#} = all_reqs s {#})"

lemma forgets_trans: "forgets s s1 \<Longrightarrow> forgets s1 s2 \<Longrightarrow> forgets s s2"
  by (auto simp: forgets_def same_queues_def)

lemma forgets_same: "objs s' = objs s \<Longrightarrow> same_queues s s' \<Longrightarrow> forgets s s'"
  using sched_ok_same [of s s' "{#}"] by (auto simp: forgets_def same_queues_def)

lemma sched_free_blocks_forgets:
  assumes f: "sched_free_blocks a s = Inr s'" and m: "map_of (requests s) rid = Some a"
  shows "forgets s s'"
proof -
  note F = sched_free_blocks_frame [OF f]
  have o: "objs s' = objs s" and q: "running s' = running s" "waiting s' = waiting s" "skipped_waiting s' = skipped_waiting s"
    and fin: "is_finished (objs s a)" and r: "requests s' = AList.delete (request_id (objs s a)) (requests s)"
    using F by (auto simp: same_queues_def)
  have main: "sched_ok s {#} \<longrightarrow> sched_ok s' {#} \<and> all_reqs s' {#} = all_reqs s {#}"
  proof
    assume ok: "sched_ok s {#}"
    have id: "request_id (objs s a) = rid" using map_of_SomeD [OF m] ok by (auto simp: sched_ok_def)
    have ret: "retires {a} s s'"
      using retires_step [OF retires_empty [of s], of s' a] F by auto
    have "a \<notin># queue_mset (waiting s) + queue_mset (skipped_waiting s)" using ok fin by (auto simp: sched_ok_def)
    moreover have run: "a \<notin> set (running s)"
    proof
      assume "a \<in> set (running s)"
      then have "status (objs s a) = RUNNING" by (rule sched_okD(2) [OF ok])
      then show False using fin by (simp add: is_finished_def is_finished_status_def less_request_status_def)
    qed
    moreover have "filter (\<lambda>x. x \<noteq> a) (running s) = running s" using run by (intro filter_True) auto
    ultimately have "sched_ok s' {#} \<and> all_reqs s' {#} = filter_mset (\<lambda>x. x \<notin> {a}) (all_reqs s {#})"
      by (intro retires_ok [OF ok ret]) (use m id in \<open>simp_all add: filter_mset_absent\<close>)
    moreover have "a \<notin># all_reqs s {#}"
      using run \<open>a \<notin># queue_mset (waiting s) + queue_mset (skipped_waiting s)\<close> by (simp add: all_reqs_def)
    ultimately show "sched_ok s' {#} \<and> all_reqs s' {#} = all_reqs s {#}" by (simp add: filter_mset_absent)
  qed
  have "set (requests s') \<subseteq> set (requests s)" unfolding r by (auto simp: AList.delete_eq)
  then show ?thesis using F main unfolding forgets_def by blast
qed

lemma kv_xfer_forgets:
  assumes "update_from_kv_xfer_finished out s = Inr s'"
  shows "forgets s s'"
proof -
  have R: "forgets s1 s2" if "finished_recving_loop rids s1 = Inr s2" for rids s1 s2
    using that
  proof (induction rids arbitrary: s1)
    case (Cons rid rids)
    then obtain a where a: "map_of (requests s1) rid = Some a" by (auto split: option.splits)
    consider "finished_recving_loop rids (s1\<lparr>finished_recving_kv_req_ids := insert rid (finished_recving_kv_req_ids s1)\<rparr>) = Inr s2"
      | s3 where "sched_free_blocks a s1 = Inr s3" "finished_recving_loop rids s3 = Inr s2"
      using Cons.prems a by (auto simp: rbind_Inr_iff split: if_splits)
    then show ?case
    proof cases
      case 1
      show ?thesis by (rule forgets_trans [OF forgets_same Cons.IH [OF 1]]) (simp_all add: same_queues_def)
    next
      case 2
      show ?thesis by (rule forgets_trans [OF sched_free_blocks_forgets [OF 2(1) a] Cons.IH [OF 2(2)]])
    qed
  qed (simp add: forgets_same)
  have S: "forgets s1 s2" if "finished_sending_loop rids s1 = Inr s2" for rids s1 s2
    using that
  proof (induction rids arbitrary: s1)
    case (Cons rid rids)
    then obtain a s3 where "map_of (requests s1) rid = Some a" "sched_free_blocks a s1 = Inr s3" "finished_sending_loop rids s3 = Inr s2"
      by (auto simp: rbind_Inr_iff split: option.splits)
    then show ?case using forgets_trans sched_free_blocks_forgets Cons.IH by blast
  qed (simp add: forgets_same)
  obtain s1 where "finished_recving_loop (finished_recving out) s = Inr s1" "finished_sending_loop (finished_sending out) s1 = Inr s'"
    using assms by (auto simp: update_from_kv_xfer_finished_def rbind_Inr_iff)
  then show ?thesis using forgets_trans [OF R S] by blast
qed

lemma update_from_output_ok:
  assumes upd: "update_from_output env out mr s = Inr (outs, d, ev, s')" and ok: "sched_ok s {#}"
    and sv: "served s (fst ` set (so_num_scheduled_tokens out))" and dk: "distinct (map fst (so_num_scheduled_tokens out))"
  shows "sched_ok s' {#} \<and> all_reqs s' {#} = filter_mset (\<lambda>a. \<not> is_finished (objs s' a)) (all_reqs s {#}) \<and>
    cfg s' = cfg s \<and> length (running s') \<le> length (running s)"
proof -
  let ?Q = "all_reqs s {#}" and ?ns = "so_num_scheduled_tokens out"
  let ?inv = "case mr_kv_connector_output mr of
              Some x \<Rightarrow> if invalid_block_ids x = {} then Inr ({}, s) else handle_invalid_blocks (invalid_block_ids x) ?ns s
            | None \<Rightarrow> Inr ({}, s)"
  obtain failed s1 where s1: "?inv = Inr (failed, s1)" using upd unfolding update_from_output_def by (cases ?inv) auto
  note upd = upd [unfolded update_from_output_def s1 rbind_simps prod.case]
  let ?u0 = "\<lparr>stopped_running = {}, stopped_preempted = {}, us_outputs = []\<rparr>"
  obtain s2 u where l: "update_loop env out mr failed ?ns s1 ?u0 = Inr (s2, u)"
    using upd by (cases "update_loop env out mr failed ?ns s1 ?u0") auto
  note upd = upd [unfolded l rbind_simps prod.case]
  have S1: "same_ids s s1"
    using s1 handle_invalid_blocks_frame by (auto simp: same_ids_def split: option.splits if_splits)
  have ok1: "sched_ok s1 {#}" "all_reqs s1 {#} = ?Q" using same_ids_ok [OF S1] ok by simp_all
  have fin1: "is_finished (objs s1 a) = is_finished (objs s a)" for a using S1 by (simp add: same_ids_def is_finished_def)
  have live: "\<not> is_finished (objs s1 a)" if "a \<in># ?Q" for a
    using that ok1(1) unfolding ok1(2) [symmetric]
    by (auto simp: sched_ok_def all_reqs_def is_finished_def is_finished_status_def less_request_status_def)
  have "upd_inv ?Q (running s) (cfg s) (fst ` set ?ns) s1 ?u0"
  proof -
    have "served s1 (fst ` set ?ns)" using sv S1 by (auto simp: served_def same_ids_def same_queues_def is_finished_def)
    moreover have "filter_mset (\<lambda>a. \<not> is_finished (objs s1 a)) ?Q = ?Q" using live by (simp add: filter_mset_eq_conv)
    moreover have "still ?u0 s1 = s1" by (simp add: still_def)
    moreover have "running s1 = running s" "cfg s1 = cfg s" using S1 by (auto simp: same_ids_def same_queues_def)
    ultimately show ?thesis using ok1 sched_okD(1) [OF ok1(1)] by (simp add: upd_inv_def)
  qed
  from update_loop_inv [OF l this dk] have U: "sched_ok (still u s2) {#}"
    "all_reqs (still u s2) {#} = filter_mset (\<lambda>a. \<not> is_finished (objs s2 a)) ?Q"
    "distinct (running s2)" "finite (stopped_running u)" "stopped_preempted u = {}"
    "running s2 = running s" "cfg s2 = cfg s"
    unfolding upd_inv_def by blast+
  have s3: "s2\<lparr>running := remove_all (running s2) (stopped_running u)\<rparr> = still u s2"
    using remove_all_filter [OF U(3,4)] by (simp add: still_def)
  note upd = upd [unfolded Let_def s3 U(5) simp_thms if_True]
  let ?s3 = "still u s2"
  obtain s5 o5 where s5: "s5 = ?s3 \<or> (\<exists>ids l. finish_requests env ids FINISHED_ERROR ?s3 = Inr (l, s5))"
    and rest: "rbind (case mr_kv_connector_output mr of None \<Rightarrow> Inr s5 | Some x \<Rightarrow> update_from_kv_xfer_finished x s5) (\<lambda>s6.
            let (events, p) = take_events (c_pool (coordinator (kv s6)));
                s7 = s6\<lparr>kv := (kv s6)\<lparr>coordinator := (coordinator (kv s6))\<lparr>c_pool := p\<rparr>\<rparr>,
                        finished_req_ids_dict := map_option (\<lambda>_ _. {}) (finished_req_ids_dict s6)\<rparr>
            in Inr (o5, finished_req_ids_dict s6, events, s7)) = Inr (outs, d, ev, s')"
  proof -
    note T = that
    let ?f = "if failed \<noteq> {} \<and> \<not> recompute_kv_load_failures (cfg ?s3)
                 then rbind (get_all (requests ?s3) (sorted_list_of_set failed)) (\<lambda>as.
                      rbind (finish_requests env (Some (sorted_list_of_set failed)) FINISHED_ERROR ?s3) (\<lambda>(_, s5).
                        Inr (s5, error_outputs s5 as (us_outputs u))))
                 else Inr (?s3, us_outputs u)"
    obtain s5 o5 where f: "?f = Inr (s5, o5)" using upd by (cases ?f) auto
    have "s5 = ?s3 \<or> (\<exists>ids l. finish_requests env ids FINISHED_ERROR ?s3 = Inr (l, s5))"
      using f by (auto simp: rbind_Inr_iff split: if_splits)
    then show thesis by (rule T) (use upd f in \<open>simp add: Let_def\<close>)
  qed
  have len3: "cfg ?s3 = cfg s" "length (running ?s3) \<le> length (running s)" using U(6,7) by simp_all
  have K: "sched_ok s5 {#} \<and> all_reqs s5 {#} = filter_mset (\<lambda>a. \<not> is_finished (objs s5 a)) ?Q \<and>
      cfg s5 = cfg s \<and> length (running s5) \<le> length (running s)"
    using s5
  proof (elim disjE exE)
    fix ids l assume f: "finish_requests env ids FINISHED_ERROR ?s3 = Inr (l, s5)"
    let ?V = "set (valid_requests ?s3 (ids_of ids ?s3))"
    obtain s0 where F: "sched_ok s5 {#}" "all_reqs s5 {#} = filter_mset (\<lambda>a. a \<notin> ?V) (all_reqs ?s3 {#})" "retires ?V s0 s5" "objs s0 = objs ?s3"
      "cfg s0 = cfg ?s3" "running s0 = filter (\<lambda>a. a \<notin> ?V) (running ?s3)"
      using finish_requests_retires [OF f U(1)] by blast
    have st: "status (objs s5 a) = status (objs s2 a)" if "a \<notin> ?V" for a using F(3,4) that by (simp add: retires_def)
    have fin: "is_finished (objs s5 a)" if "a \<in> ?V" for a using F(3) that by (simp add: retires_def)
    have "(\<not> is_finished (objs s2 a) \<and> a \<notin> ?V) = (\<not> is_finished (objs s5 a))" for a
      by (cases "a \<in> ?V") (use st [of a] fin [of a] in \<open>simp_all add: is_finished_def\<close>)
    then have "filter_mset (\<lambda>a. a \<notin> ?V) (filter_mset (\<lambda>a. \<not> is_finished (objs s2 a)) ?Q) = filter_mset (\<lambda>a. \<not> is_finished (objs s5 a)) ?Q"
      unfolding filter_filter_mset by simp
    moreover have "cfg s5 = cfg s" "length (running s5) \<le> length (running s)"
      using F(3,5,6) len3 length_filter_le [of "\<lambda>a. a \<notin> ?V" "running ?s3"] by (auto simp: retires_def same_queues_def)
    ultimately show ?thesis using F(1,2) U(2) by simp
  qed (use U len3 in simp)
  obtain s6 where s6: "(case mr_kv_connector_output mr of None \<Rightarrow> Inr s5 | Some x \<Rightarrow> update_from_kv_xfer_finished x s5) = Inr s6"
    using rest by (cases "case mr_kv_connector_output mr of None \<Rightarrow> Inr s5 | Some x \<Rightarrow> update_from_kv_xfer_finished x s5") auto
  then have "forgets s5 s6" using kv_xfer_forgets by (auto simp: forgets_same split: option.splits)
  then have K6: "sched_ok s6 {#} \<and> all_reqs s6 {#} = filter_mset (\<lambda>a. \<not> is_finished (objs s6 a)) ?Q \<and>
      cfg s6 = cfg s \<and> length (running s6) \<le> length (running s)"
    using K by (simp add: forgets_def same_queues_def)
  have "objs s' = objs s6" "same_queues s6 s'"
    using rest unfolding s6 by (auto simp: Let_def same_queues_def case_prod_unfold)
  then show ?thesis using K6 sched_ok_same [of s6 s' "{#}"] by (simp add: same_queues_def)
qed

end
