(* ===== verification/VL_SchedLife.thy ===== *)
theory VL_SchedLife
  imports VL_SchedMoves
begin

text \<open>
  The scheduler over its whole life: a step relation for the synchronous engine loop, the invariant
  of its reachable states, and when generation stops.
\<close>

subsection \<open>The other operations\<close>

lemma enqueue_moves:
  "queue_mset (waiting (enqueue_waiting_request a s)) + queue_mset (skipped_waiting (enqueue_waiting_request a s)) =
     add_mset a (queue_mset (waiting s) + queue_mset (skipped_waiting s))"
  "running (enqueue_waiting_request a s) = running s" "requests (enqueue_waiting_request a s) = requests s"
  "objs (enqueue_waiting_request a s) = objs s" "cfg (enqueue_waiting_request a s) = cfg s"
  by (simp_all add: enqueue_waiting_request_def)

lemma add_new_ok:
  assumes add: "sched_add_request env a r s = Inr s'" and ok: "sched_ok s {#}"
    and new: "request_id r \<notin> fst ` set (requests s)" "a \<notin> snd ` set (requests s)" "status r \<noteq> RUNNING" "\<not> is_finished r"
  shows "sched_ok s' {#} \<and> all_reqs s' {#} = add_mset a (all_reqs s {#}) \<and> running s' = running s \<and> cfg s' = cfg s \<and>
    requests s' = AList.update (request_id r) a (requests s) \<and> (\<forall>x. x \<noteq> a \<longrightarrow> objs s' x = objs s x)"
proof -
  have none: "map_of (requests s) (request_id r) = None" using new(1) by (simp add: map_of_eq_None_iff)
  let ?r1 = "if resumable r then r\<lparr>streaming_queue := Some []\<rparr> else r"
  let ?s1 = "enqueue_waiting_request a (upd_req a (\<lambda>_. ?r1) s)"
  have s': "s' = ?s1\<lparr>requests := AList.update (request_id r) a (requests ?s1)\<rparr>"
    using add none by (simp add: sched_add_request_def Let_def)
  have r1: "request_id ?r1 = request_id r" "status ?r1 = status r" by simp_all
  have E: "running s' = running s" "cfg s' = cfg s" "requests s' = AList.update (request_id r) a (requests s)"
    "objs s' = (objs s)(a := ?r1)"
    "queue_mset (waiting s') + queue_mset (skipped_waiting s') = add_mset a (queue_mset (waiting s) + queue_mset (skipped_waiting s))"
    unfolding s' using enqueue_moves(1) [of a "upd_req a (\<lambda>_. ?r1) s"] by (simp_all add: enqueue_moves upd_req_def)
  have "sched_ok s' {#}" "all_reqs s' {#} = add_mset a (all_reqs s {#})"
    by (rule sched_ok_arrive [OF ok, of ?r1 a]; use E new r1 in \<open>simp add: is_finished_def\<close>)+
  then show ?thesis using E by simp
qed

text \<open>More input for a known session, or its end.\<close>

lemma add_known_cases:
  assumes add: "sched_add_request env a r s = Inr s'" and known: "map_of (requests s) (request_id r) = Some b"
  obtains "same_ids s s'"
  | "status (objs s b) = WAITING_FOR_STREAMING_REQ" "only b s s'" "same_queues s s'" "status (objs s' b) = WAITING"
  | l where "finish_requests env (Some [request_id r]) FINISHED_ABORTED s = Inr (l, s')"
proof -
  have "same_ids s s' \<or> status (objs s b) = WAITING_FOR_STREAMING_REQ \<and> only b s s' \<and> same_queues s s' \<and> status (objs s' b) = WAITING \<or>
    (\<exists>l. finish_requests env (Some [request_id r]) FINISHED_ABORTED s = Inr (l, s'))"
  proof (cases "status (objs s b) = WAITING_FOR_STREAMING_REQ")
    case False
    then show ?thesis using add known
      by (auto simp: sched_add_request_def Let_def same_ids_def upd_req_def same_queues_def split: option.splits)
  next
    case True
    then show ?thesis using add known
      by (auto simp: sched_add_request_def Let_def rbind_Inr_iff dest!: update_session_frame split: option.splits)
  qed
  then show thesis using that by blast
qed

lemma add_known_ok:
  assumes add: "sched_add_request env a r s = Inr s'" and known: "map_of (requests s) (request_id r) = Some b" and ok: "sched_ok s {#}"
  shows "sched_ok s' {#}"
  using add known
proof (cases rule: add_known_cases)
  case 1
  then show ?thesis using same_ids_ok(2) ok by simp
next
  case 2
  have "(request_id r, b) \<in> set (requests s)" by (rule map_of_SomeD [OF known])
  then have "b \<in># all_reqs s {#}" using ok 2(1)
    by (auto simp: sched_ok_def is_finished_def is_finished_status_def less_request_status_def)
  moreover have "b \<notin> set (running s)" using sched_okD(2) [OF ok, of b] 2(1) by auto
  ultimately have "b \<in># queue_mset (waiting s) + queue_mset (skipped_waiting s)" by (auto simp: all_reqs_def)
  then show ?thesis
    by (rule sched_ok_waits(1) [OF ok _ 2(3) only_objs [OF 2(2)]])
      (use 2 in \<open>simp_all add: only_def is_finished_def is_finished_status_def less_request_status_def\<close>)
next
  case (3 l)
  then show ?thesis using finish_requests_retires ok by blast
qed

lemma preempt_all_ok:
  assumes "preempt_all s = Inr s'" "sched_ok s {#}"
  shows "sched_ok s' {#} \<and> all_reqs s' {#} = all_reqs s {#} \<and> running s' = [] \<and> cfg s' = cfg s"
  using assms
proof (induction s rule: preempt_all.induct)
  case (1 s)
  show ?case
  proof (cases "running s = []")
    case True
    then show ?thesis using "1.prems" by (simp add: preempt_all.simps [of s])
  next
    case False
    let ?a = "last (running s)" and ?s0 = "s\<lparr>running := butlast (running s)\<rparr>"
    let ?f = "\<lambda>r. r\<lparr>async_tokens_to_discard := num_output_placeholders r, num_output_placeholders := 0\<rparr>"
    obtain s1 where p: "preempt_request ?a ?s0 = Inr s1" and rest: "preempt_all (upd_req ?a ?f s1) = Inr s'"
      using "1.prems"(1) False by (auto simp: preempt_all.simps [of s] Let_def rbind_Inr_iff)
    note ok = "1.prems"(2)
    have d: "distinct (running s)" by (rule sched_okD(1) [OF ok])
    obtain r where R: "objs s1 = (objs ?s0)(?a := r)" "request_id r = request_id (objs ?s0 ?a)" "status r = PREEMPTED"
      "queue_mset (waiting s1) = add_mset ?a (queue_mset (waiting ?s0))" "same_queues ?s0 (s1\<lparr>waiting := waiting ?s0\<rparr>)"
      by (rule preempt_request_cases [OF p])
    have q: "running s1 = remove1 ?a (running s)" "queue_mset (waiting s1) = add_mset ?a (queue_mset (waiting s))"
      "skipped_waiting s1 = skipped_waiting s" "requests s1 = requests s" "objs s1 = (objs s)(?a := r)"
      "request_id r = request_id (objs s ?a)" "cfg s1 = cfg s"
      using R remove1_last [OF d False] by (simp_all add: same_queues_def)
    have a: "?a \<in> set (running s)" using False by simp
    have "sched_ok s1 {#}" "all_reqs s1 {#} = all_reqs s {#}"
      by (rule sched_ok_preempt [OF ok a q(1-6) R(3)])+
    moreover have S: "same_ids s1 (upd_req ?a ?f s1)" by (simp add: same_ids_def upd_req_def same_queues_def)
    ultimately have ok2: "sched_ok (upd_req ?a ?f s1) {#}" "all_reqs (upd_req ?a ?f s1) {#} = all_reqs s {#}"
      using same_ids_ok [OF S] by simp_all
    have "sched_ok s' {#} \<and> all_reqs s' {#} = all_reqs (upd_req ?a ?f s1) {#} \<and> running s' = [] \<and> cfg s' = cfg (upd_req ?a ?f s1)"
      by (rule "1.IH" [OF False refl p rest ok2(1)])
    then show ?thesis using ok2(2) q(7) by (simp add: upd_req_def)
  qed
qed

lemma reset_prefix_cache_ok:
  assumes "sched_reset_prefix_cache b s = Inr (c, s')" "sched_ok s {#}"
  shows "sched_ok s' {#} \<and> all_reqs s' {#} = all_reqs s {#} \<and> length (running s') \<le> length (running s) \<and> cfg s' = cfg s \<and>
    (\<not> b \<longrightarrow> same_ids s s')"
proof -
  obtain s1 k where s1: "(if b then rbind (preempt_all s) (\<lambda>s1. Inr (s1\<lparr>prev_step_scheduled_req_ids := {}\<rparr>)) else Inr s) = Inr s1"
    and s': "s' = s1\<lparr>kv := k\<rparr>"
    using assms(1) by (auto simp: sched_reset_prefix_cache_def rbind_Inr_iff Let_def case_prod_unfold split: if_splits)
  have S: "same_ids s1 s'" unfolding s' by (simp add: same_ids_def same_queues_def)
  show ?thesis
  proof (cases b)
    case True
    then obtain s0 where p: "preempt_all s = Inr s0" and "s1 = s0\<lparr>prev_step_scheduled_req_ids := {}\<rparr>"
      using s1 by (auto simp: rbind_Inr_iff)
    then have S0: "same_ids s0 s'" using S by (simp add: same_ids_def same_queues_def)
    show ?thesis using preempt_all_ok [OF p assms(2)] same_ids_ok [OF S0] S0 True by (simp add: same_ids_def same_queues_def)
  next
    case False
    then have "s1 = s" using s1 by simp
    then show ?thesis using same_ids_ok [OF S] assms(2) S by (simp add: same_ids_def same_queues_def)
  qed
qed

lemma update_draft_token_ids_frame: "same_ids s (update_draft_token_ids env ds s)"
proof (induction ds arbitrary: s)
  case (Cons x ds)
  obtain rid ts where x: "x = (rid, ts)" by (cases x)
  let ?s1 = "case map_of (requests s) rid of
          None \<Rightarrow> s
        | Some a \<Rightarrow>
            let r = objs s a in
            if is_finished r then s
            else if is_prefill_chunk r then upd_req a (\<lambda>r. r\<lparr>spec_token_ids := []\<rparr>) s
            else upd_req a (\<lambda>r. r\<lparr>spec_token_ids := (if should_advance env r then validate_tokens env rid ts else ts)\<rparr>) s"
  have "same_ids s ?s1"
    by (auto simp: same_ids_def upd_req_def same_queues_def Let_def split: option.splits)
  then show ?case using Cons.IH [of ?s1] by (simp add: x same_ids_trans)
qed (simp add: same_ids_def)

text \<open>After a step the ids in its output belong to running requests.\<close>

lemma schedule_served:
  assumes run: "schedule env s = Inr (s', out)" and ok: "sched_ok s {#}" and lim: "length (running s) \<le> max_num_running_reqs (cfg s)"
  shows "served s' (fst ` set (so_num_scheduled_tokens out)) \<and> distinct (map fst (so_num_scheduled_tokens out)) \<and>
    cfg s' = cfg s \<and> length (running s') \<le> max_num_running_reqs (cfg s) \<and> sched_ok s' {#} \<and> all_reqs s' {#} = all_reqs s {#}"
proof -
  obtain s1 t s2 out1 where r: "schedule_requests env s = Inr (s1, t)" and out: "make_output s1 t = Inr (s2, out1)"
    and upd: "(if async_scheduling (cfg s) then async_update_after_schedule out1 s2 else update_after_schedule out1 s2) = Inr (s', out)"
    by (rule schedule_cases [OF run])
  have fit: "fits_budget None s" by (simp add: fits_budget_def)
  note R = schedule_requests_inv [OF r ok fit lim]
  note P = schedule_requests_places [OF r ok]
  note M = make_output_frame [OF out] and U = after_schedule_frame [OF upd]
  have "same_ids s1 s2" using M by (simp add: same_ids_def)
  then have S: "same_ids s1 s'" using U(1) by (rule same_ids_trans)
  have ok': "sched_ok s' {#}" "step_ok None s' t" "all_reqs s' {#} = all_reqs s {#}" using same_ids_ok [OF S] P R(3) by simp_all
  have keys: "so_num_scheduled_tokens out = num_scheduled_tokens t" using M(3) U(2) by simp
  have "is_finished (objs s' a) \<or> status (objs s' a) = RUNNING"
    if "rid \<in> fst ` set (num_scheduled_tokens t)" "map_of (requests s') rid = Some a" for rid a
  proof -
    have "rid \<in> (\<lambda>a. request_id (objs s' a)) ` set (scheduled_reqs t)" "set (scheduled_reqs t) \<subseteq> set (running s')"
      using that(1) ok'(2) unfolding step_ok_def by simp_all
    then obtain b where b: "b \<in> set (running s')" "rid = request_id (objs s' b)" by auto
    then have "map_of (requests s') rid = Some b" using sched_okD(4) [OF ok'(1), of b] by (simp add: all_reqs_def)
    then show ?thesis using sched_okD(2) [OF ok'(1) b(1)] that(2) by simp
  qed
  then show ?thesis using ok' R(1,2) S unfolding keys by (auto simp: served_def step_ok_def same_ids_def same_queues_def)
qed

subsection \<open>The life of a scheduler\<close>

text \<open>The synchronous engine loop: a step is scheduled, executed and its output processed before the
  next one; requests may be added, and aborted, at any time.  The second component is the output of
  the step in flight.  Every call may see another environment.  New requests come with a fresh
  object, an id that is not in use and one of the two initial statuses; only when no step is in
  flight may the running requests be reset.\<close>

definition output_ids :: "scheduler_output option \<Rightarrow> string set" where
  "output_ids p = (case p of None \<Rightarrow> {} | Some out \<Rightarrow> fst ` set (so_num_scheduled_tokens out))"

definition arrives_fresh :: "nat \<Rightarrow> request \<Rightarrow> scheduler \<Rightarrow> scheduler_output option \<Rightarrow> bool" where
  "arrives_fresh a r s p \<longleftrightarrow> request_id r \<notin> fst ` set (requests s) \<and> request_id r \<notin> output_ids p \<and> a \<notin> snd ` set (requests s) \<and>
     (status r = WAITING \<or> status r = WAITING_FOR_STRUCTURED_OUTPUT_GRAMMAR)"

inductive engine_step :: "scheduler \<times> scheduler_output option \<Rightarrow> scheduler \<times> scheduler_output option \<Rightarrow> bool" where
  add_new: "arrives_fresh a r s p \<Longrightarrow> sched_add_request env a r s = Inr s' \<Longrightarrow> engine_step (s, p) (s', p)"
| add_input: "request_id r \<in> fst ` set (requests s) \<Longrightarrow> sched_add_request env a r s = Inr s' \<Longrightarrow> engine_step (s, p) (s', p)"
| do_schedule: "schedule env s = Inr (s', out) \<Longrightarrow> engine_step (s, None) (s', Some out)"
| do_update: "update_from_output env out mr s = Inr (outs, d, ev, s') \<Longrightarrow> engine_step (s, Some out) (s', None)"
| do_finish: "finish_requests env ids st s = Inr (l, s') \<Longrightarrow> engine_step (s, p) (s', p)"
| do_drafts: "engine_step (s, p) (update_draft_token_ids env ds s, p)"
| do_reset: "sched_reset_prefix_cache b s = Inr (c, s') \<Longrightarrow> b \<longrightarrow> p = None \<Longrightarrow> engine_step (s, p) (s', p)"
| do_reset_encoder: "engine_step (s, p) (reset_encoder_cache s, p)"
| do_pause: "engine_step (s, p) (set_pause_state st s, p)"

definition engine_inv :: "sched_config \<Rightarrow> scheduler \<times> scheduler_output option \<Rightarrow> bool" where
  "engine_inv c x \<longleftrightarrow> (let (s, p) = x in sched_ok s {#} \<and> cfg s = c \<and> length (running s) \<le> max_num_running_reqs c \<and>
     served s (output_ids p) \<and> (case p of None \<Rightarrow> True | Some out \<Rightarrow> distinct (map fst (so_num_scheduled_tokens out))))"

lemma served_same: "served s ids \<Longrightarrow> same_ids s s' \<Longrightarrow> served s' ids"
  by (simp add: served_def same_ids_def same_queues_def is_finished_def)

lemma engine_inv_same: "engine_inv c (s, p) \<Longrightarrow> same_ids s s' \<Longrightarrow> engine_inv c (s', p)"
  using same_ids_ok(2) [of s s' "{#}"] served_same [of s _ s'] by (simp add: engine_inv_def same_ids_def same_queues_def)

lemma served_retires:
  assumes "served s ids" "retires V s0 s'" "objs s0 = objs s" "requests s0 = requests s" "sched_ok s {#}"
  shows "served s' ids"
proof -
  have st: "\<forall>x. status (objs s' x) = status (objs s x) \<or> is_finished (objs s' x)"
    using assms(2,3) by (auto simp: retires_def)
  have "set (requests s') \<subseteq> set (requests s)" using assms(2,4) by (auto simp: retires_def)
  then have m: "map_of (requests s) rid = Some a" if "map_of (requests s') rid = Some a" for rid a
    using map_of_SomeD [OF that] assms(5) by (auto simp: sched_ok_def)
  have "is_finished (objs s' a) \<or> status (objs s' a) = RUNNING" if "rid \<in> ids" "map_of (requests s') rid = Some a" for rid a
    using assms(1) m [OF that(2)] that(1) st by (auto simp: served_def is_finished_def) metis
  then show ?thesis by (simp add: served_def)
qed

lemma finish_inv:
  assumes inv: "engine_inv c (s, p)" and f: "finish_requests env ids st s = Inr (l, s')"
  shows "engine_inv c (s', p)"
proof -
  have ok: "sched_ok s {#}" "served s (output_ids p)" using inv by (auto simp: engine_inv_def)
  let ?V = "set (valid_requests s (ids_of ids s))"
  obtain s0 where F: "sched_ok s' {#}" "retires ?V s0 s'" "objs s0 = objs s" "requests s0 = requests s" "cfg s0 = cfg s"
      "running s0 = filter (\<lambda>a. a \<notin> ?V) (running s)"
    using finish_requests_retires [OF f ok(1)] by blast
  have "served s' (output_ids p)" by (rule served_retires [OF ok(2) F(2-4) ok(1)])
  moreover have "cfg s' = cfg s" "length (running s') \<le> length (running s)"
    using F(2,5,6) length_filter_le [of "\<lambda>a. a \<notin> ?V" "running s"] by (auto simp: retires_def same_queues_def)
  ultimately show ?thesis using inv F(1) by (auto simp: engine_inv_def)
qed

lemma add_new_inv:
  assumes inv: "engine_inv c (s, p)" and new: "arrives_fresh a r s p" and add: "sched_add_request env a r s = Inr s'"
  shows "engine_inv c (s', p)"
proof -
  have r: "status r \<noteq> RUNNING" "\<not> is_finished r"
    using new by (auto simp: arrives_fresh_def is_finished_def is_finished_status_def less_request_status_def)
  have ok: "sched_ok s {#}" "served s (output_ids p)" using inv by (auto simp: engine_inv_def)
  have A: "sched_ok s' {#} \<and> all_reqs s' {#} = add_mset a (all_reqs s {#}) \<and> running s' = running s \<and> cfg s' = cfg s \<and>
      requests s' = AList.update (request_id r) a (requests s) \<and> (\<forall>x. x \<noteq> a \<longrightarrow> objs s' x = objs s x)"
    by (rule add_new_ok [OF add ok(1)]) (use new r in \<open>simp_all add: arrives_fresh_def\<close>)
  have "is_finished (objs s' b) \<or> status (objs s' b) = RUNNING"
    if rid: "rid \<in> output_ids p" "map_of (requests s') rid = Some b" for rid b
  proof -
    have "rid \<noteq> request_id r" using new rid(1) by (auto simp: arrives_fresh_def)
    then have m: "map_of (requests s) rid = Some b" using rid(2) A by (simp add: update_conv')
    then have "b \<noteq> a" using new map_of_SomeD [OF m] by (force simp: arrives_fresh_def)
    then show ?thesis using ok(2) m rid(1) A by (simp add: served_def)
  qed
  then show ?thesis using inv A by (simp add: engine_inv_def served_def)
qed

lemma add_input_inv:
  assumes inv: "engine_inv c (s, p)" and known: "request_id r \<in> fst ` set (requests s)" and add: "sched_add_request env a r s = Inr s'"
  shows "engine_inv c (s', p)"
proof -
  have ok: "sched_ok s {#}" "served s (output_ids p)" using inv by (auto simp: engine_inv_def)
  obtain b where b: "map_of (requests s) (request_id r) = Some b"
    using known by (metis map_of_eq_None_iff option.exhaust)
  note ok' = add_known_ok [OF add b ok(1)]
  from add b show ?thesis
  proof (cases rule: add_known_cases)
    case 1
    then show ?thesis by (rule engine_inv_same [OF inv])
  next
    case 2
    have id: "request_id (objs s b) = request_id r" using map_of_SomeD [OF b] ok(1) by (auto simp: sched_ok_def)
    have "is_finished (objs s' x) \<or> status (objs s' x) = RUNNING"
      if rid: "rid \<in> output_ids p" "map_of (requests s') rid = Some x" for rid x
    proof -
      have m: "map_of (requests s) rid = Some x" using rid(2) 2(3) by (simp add: same_queues_def)
      then have st: "is_finished (objs s x) \<or> status (objs s x) = RUNNING" using ok(2) rid(1) by (simp add: served_def)
      then have "x \<noteq> b" using 2(1) by (auto simp: is_finished_def is_finished_status_def less_request_status_def)
      then show ?thesis using st 2(2) by (simp add: only_def)
    qed
    then show ?thesis using inv ok' 2(3) by (simp add: engine_inv_def served_def same_queues_def)
  next
    case (3 l)
    then show ?thesis by (rule finish_inv [OF inv])
  qed
qed

lemma engine_step_inv:
  assumes "engine_step x y" "engine_inv c x"
  shows "engine_inv c y"
  using assms(1)
proof (cases rule: engine_step.cases)
  case (add_new a r s p env s')
  then show ?thesis using assms(2) add_new_inv by simp
next
  case (add_input r s env a s' p)
  then show ?thesis using assms(2) add_input_inv by simp
next
  case (do_schedule env s s' out)
  have i: "sched_ok s {#}" "length (running s) \<le> max_num_running_reqs (cfg s)" "cfg s = c"
    using assms(2) do_schedule(1) by (auto simp: engine_inv_def)
  show ?thesis using schedule_served [OF do_schedule(3) i(1,2)] i(3) do_schedule(2) by (simp add: engine_inv_def output_ids_def)
next
  case (do_update env out mr s outs d ev s')
  have i: "sched_ok s {#}" "served s (fst ` set (so_num_scheduled_tokens out))" "distinct (map fst (so_num_scheduled_tokens out))"
    "cfg s = c" "length (running s) \<le> max_num_running_reqs c"
    using assms(2) do_update(1) by (auto simp: engine_inv_def output_ids_def)
  show ?thesis using update_from_output_ok [OF do_update(3) i(1-3)] i(4,5) do_update(2) by (auto simp: engine_inv_def output_ids_def served_def)
next
  case (do_finish env ids st s l s' p)
  then show ?thesis using assms(2) finish_inv by simp
next
  case (do_drafts s p env ds)
  then show ?thesis using assms(2) engine_inv_same update_draft_token_ids_frame by simp
next
  case (do_reset b s cc s' p)
  have i: "sched_ok s {#}" "cfg s = c" "length (running s) \<le> max_num_running_reqs c" "served s (output_ids p)"
    using assms(2) do_reset(1) by (auto simp: engine_inv_def)
  note R = reset_prefix_cache_ok [OF do_reset(3) i(1)]
  show ?thesis
  proof (cases b)
    case True
    then show ?thesis using R i do_reset(2,4) by (auto simp: engine_inv_def output_ids_def served_def)
  next
    case False
    then show ?thesis using R engine_inv_same [of c s p s'] assms(2) do_reset(1,2) by simp
  qed
next
  case (do_reset_encoder s p)
  have "same_ids s (reset_encoder_cache s)" by (simp add: reset_encoder_cache_def same_ids_def same_queues_def)
  then show ?thesis using engine_inv_same assms(2) do_reset_encoder by blast
next
  case (do_pause s p st)
  have "same_ids s (set_pause_state st s)" by (simp add: set_pause_state_def same_ids_def same_queues_def)
  then show ?thesis using engine_inv_same assms(2) do_pause by blast
qed

lemma engine_reachable_inv: "engine_step\<^sup>*\<^sup>* x y \<Longrightarrow> engine_inv c x \<Longrightarrow> engine_inv c y"
  by (induction rule: rtranclp_induct) (auto intro: engine_step_inv)

lemma scheduler_init_inv: "engine_inv c (scheduler_init c rs k n b, None)"
  by (simp add: engine_inv_def scheduler_init_def sched_ok_def all_reqs_def output_ids_def served_def)

subsection \<open>What the engine can rely on\<close>

text \<open>
  C1.  In every state the synchronous engine loop can reach from a new scheduler, whatever requests
  are added, continued, aborted or failed and whatever the model returns, the scheduler is
  well-formed: each known request that is not finished is in exactly one place (the running list or
  one of the two queues), with the status of that place, at most the configured number of requests
  run, and every request with tokens in flight is running, finished or gone.
\<close>

theorem engine_reachable_wf:
  assumes "engine_step\<^sup>*\<^sup>* (scheduler_init c rs k n b, None) (s, p)"
  shows "sched_wf s \<and> length (running s) \<le> max_num_running_reqs c \<and>
    list_all (\<lambda>(rid, a). is_finished (objs s a) \<or> count (places s) a = 1) (requests s) \<and>
    (\<forall>rid a. rid \<in> output_ids p \<longrightarrow> map_of (requests s) rid = Some a \<longrightarrow> is_finished (objs s a) \<or> a \<in> set (running s))"
proof -
  have inv: "engine_inv c (s, p)" by (rule engine_reachable_inv [OF assms scheduler_init_inv])
  then have ok: "sched_ok s {#}" and sv: "served s (output_ids p)" by (auto simp: engine_inv_def)
  have one: "is_finished (objs s a) \<or> count (places s) a = 1" if "(rid, a) \<in> set (requests s)" for rid a
  proof -
    have "is_finished (objs s a) \<or> a \<in># places s" "count (places s) a \<le> 1"
      using that ok unfolding all_reqs_places [symmetric] sched_ok_def by blast+
    then show ?thesis by (metis One_nat_def Suc_leI count_greater_zero_iff le_antisym)
  qed
  have run: "a \<in> set (running s)" if "(rid, a) \<in> set (requests s)" "status (objs s a) = RUNNING" for rid a
  proof -
    have "a \<in># all_reqs s {#}" using that ok
      by (auto simp: sched_ok_def is_finished_def is_finished_status_def less_request_status_def)
    moreover have "a \<notin># queue_mset (waiting s) + queue_mset (skipped_waiting s)" using ok that(2) by (auto simp: sched_ok_def)
    ultimately show ?thesis by (auto simp: all_reqs_def)
  qed
  have "is_finished (objs s a) \<or> a \<in> set (running s)" if "rid \<in> output_ids p" "map_of (requests s) rid = Some a" for rid a
    using sv that run [OF map_of_SomeD [OF that(2)]] by (auto simp: served_def)
  then show ?thesis using inv one ok by (auto simp: engine_inv_def sched_wf_ok list_all_iff)
qed


subsection \<open>Generation stops\<close>

lemma append_tokens_output:
  assumes "append_tokens env ts r = Inr r'"
  shows "output_token_ids r' = output_token_ids r @ ts \<and> all_token_ids r' = all_token_ids r @ ts \<and>
    max_tokens r' = max_tokens r \<and> req_sampling_params r' = req_sampling_params r"
  using assms by (auto simp: append_tokens_def append_output_token_ids_def update_block_hashes_def map_sum_id_Inr)

lemma check_stop_output:
  assumes "check_stop r n = Inr (stopped, r')"
  shows "output_token_ids r' = output_token_ids r \<and> all_token_ids r' = all_token_ids r \<and>
    max_tokens r' = max_tokens r \<and> req_sampling_params r' = req_sampling_params r \<and>
    (\<not> stopped \<longrightarrow> (\<exists>sp. req_sampling_params r = Some sp \<and>
       (num_output_tokens r < sp_min_tokens sp \<or> num_output_tokens r < max_tokens r \<and> num_tokens r < n)))"
  using assms
  by (auto simp: check_stop_def rbind_Inr_iff Let_def not_le num_output_tokens_def num_tokens_def split: option.splits if_splits)

lemma output_token_loop_output:
  assumes "output_token_loop env n acc ts r = Inr (acc', stopped, r')"
  shows "\<exists>k. acc' = acc @ take k ts \<and> output_token_ids r' = output_token_ids r @ take k ts \<and>
    all_token_ids r' = all_token_ids r @ take k ts \<and>
    max_tokens r' = max_tokens r \<and> req_sampling_params r' = req_sampling_params r \<and>
    (if stopped then 0 < k \<and> k \<le> length ts else k = length ts) \<and>
    (\<forall>j sp. 0 < j \<longrightarrow> j < k + (if stopped then 0 else 1) \<longrightarrow> req_sampling_params r = Some sp \<longrightarrow>
       num_output_tokens r + j < sp_min_tokens sp \<or> num_output_tokens r + j < max_tokens r \<and> num_tokens r + j < n)"
  using assms
proof (induction ts arbitrary: acc r)
  case (Cons x ts)
  obtain r1 b r2 where a: "append_tokens env [x] r = Inr r1" and c: "check_stop r1 n = Inr (b, r2)"
    and rest: "(if b then Inr (acc @ [x], True, r2) else output_token_loop env n (acc @ [x]) ts r2) = Inr (acc', stopped, r')"
    using Cons.prems by (auto simp: rbind_Inr_iff)
  note A = append_tokens_output [OF a] and C = check_stop_output [OF c]
  show ?case
  proof (cases b)
    case True
    then show ?thesis using rest A C by (intro exI [of _ 1]) auto
  next
    case False
    have r2: "num_output_tokens r2 = num_output_tokens r + 1" "num_tokens r2 = num_tokens r + 1" "num_output_tokens r1 = num_output_tokens r + 1"
      "num_tokens r1 = num_tokens r + 1"
      using A C by (simp_all add: num_output_tokens_def num_tokens_def)
    obtain k where k: "acc' = (acc @ [x]) @ take k ts" "output_token_ids r' = output_token_ids r2 @ take k ts"
      "all_token_ids r' = all_token_ids r2 @ take k ts"
      "max_tokens r' = max_tokens r2" "req_sampling_params r' = req_sampling_params r2"
      "if stopped then 0 < k \<and> k \<le> length ts else k = length ts"
      and ks: "\<forall>j sp. 0 < j \<longrightarrow> j < k + (if stopped then 0 else 1) \<longrightarrow> req_sampling_params r2 = Some sp \<longrightarrow>
       num_output_tokens r2 + j < sp_min_tokens sp \<or> num_output_tokens r2 + j < max_tokens r2 \<and> num_tokens r2 + j < n"
      using Cons.IH [of "acc @ [x]" r2] rest False by auto
    have "num_output_tokens r + j < sp_min_tokens sp \<or> num_output_tokens r + j < max_tokens r \<and> num_tokens r + j < n"
      if j: "0 < j" "j < Suc k + (if stopped then 0 else 1)" and sp: "req_sampling_params r = Some sp" for j sp
    proof (cases "j = 1")
      case True
      then show ?thesis using C A sp False r2 by auto
    next
      case jn: False
      have "num_output_tokens r2 + (j - 1) < sp_min_tokens sp \<or> num_output_tokens r2 + (j - 1) < max_tokens r2 \<and> num_tokens r2 + (j - 1) < n"
        using ks [rule_format, of "j - 1" sp] j jn sp A C by auto
      then show ?thesis using r2 A C j(1) by simp
    qed
    then show ?thesis using k A C False by (intro exI [of _ "Suc k"]) auto
  qed
qed (auto intro: exI [of _ 0])


subsection \<open>A short life\<close>

text \<open>A request arrives, is scheduled, and its first output is the end token.\<close>

definition first_state :: "kv_cache_manager \<Rightarrow> scheduler" where
  "first_state k = scheduler_init (small_cfg FCFS) (\<lambda>_. text_request 9 ''z'' []) k 0 False"

definition short_life :: "(kv_cache_manager \<times> scheduler \<times> scheduler \<times> scheduler_output \<times> scheduler) res" where
  "short_life = rbind (kv_cache_manager_init small_config 8 2 None False False False 1 1 False) (\<lambda>k.
     rbind (sched_add_request plain_env 0 (eos_request 0 ''a'' [1, 2, 7] 0) (first_state k)) (\<lambda>s1.
     rbind (schedule plain_env s1) (\<lambda>(s2, out).
     rbind (update_from_output plain_env out (sampled out [0]) s2) (\<lambda>(_, _, _, s3). Inr (k, s1, s2, out, s3)))))"

lemma short_life_eval:
  "case short_life of Inl _ \<Rightarrow> False | Inr (k, s1, s2, out, s3) \<Rightarrow>
     so_num_scheduled_tokens out = [(''a'', 3)] \<and> running s2 = [0] \<and> sched_wf s2 \<and> requests s2 = [(''a'', 0)] \<and>
     status (objs s2 0) = RUNNING \<and> status (objs s3 0) = FINISHED_STOPPED"
  by code_simp

lemma short_life_run:
  obtains k s1 s2 out outs d ev s3 where
    "sched_add_request plain_env 0 (eos_request 0 ''a'' [1, 2, 7] 0) (first_state k) = Inr s1"
    "schedule plain_env s1 = Inr (s2, out)" "update_from_output plain_env out (sampled out [0]) s2 = Inr (outs, d, ev, s3)"
    "so_num_scheduled_tokens out = [(''a'', 3)]" "running s2 = [0]" "sched_wf s2" "requests s2 = [(''a'', 0)]"
    "status (objs s2 0) = RUNNING" "status (objs s3 0) = FINISHED_STOPPED"
proof -
  obtain k s1 s2 out s3 where l: "short_life = Inr (k, s1, s2, out, s3)"
    and e: "so_num_scheduled_tokens out = [(''a'', 3)]" "running s2 = [0]" "sched_wf s2" "requests s2 = [(''a'', 0)]"
      "status (objs s2 0) = RUNNING" "status (objs s3 0) = FINISHED_STOPPED"
    using short_life_eval by (auto split: sum.splits)
  have "sched_add_request plain_env 0 (eos_request 0 ''a'' [1, 2, 7] 0) (first_state k) = Inr s1"
    "schedule plain_env s1 = Inr (s2, out)" "\<exists>outs d ev. update_from_output plain_env out (sampled out [0]) s2 = Inr (outs, d, ev, s3)"
    using l unfolding short_life_def by (auto simp: rbind_Inr_iff)
  then show thesis using that e by blast
qed

theorem engine_reachable_wf_witness:
  "\<exists>k s out. engine_step\<^sup>*\<^sup>* (first_state k, None) (s, Some out) \<and> so_num_scheduled_tokens out = [(''a'', 3)] \<and>
    sched_wf s \<and> requests s = [(''a'', 0)] \<and> count (places s) 0 = 1 \<and> 0 \<in> set (running s)"
proof (rule short_life_run)
  fix k s1 s2 out outs d ev s3
  assume a: "sched_add_request plain_env 0 (eos_request 0 ''a'' [1, 2, 7] 0) (first_state k) = Inr s1"
    and sc: "schedule plain_env s1 = Inr (s2, out)" and o: "so_num_scheduled_tokens out = [(''a'', 3)]"
    and r: "requests s2 = [(''a'', 0)]" "status (objs s2 0) = RUNNING"
  have "engine_step (first_state k, None) (s1, None)"
    by (rule add_new [OF _ a])
      (simp add: arrives_fresh_def first_state_def scheduler_init_def output_ids_def eos_request_def text_request_def plain_request_def)
  then have run: "engine_step\<^sup>*\<^sup>* (first_state k, None) (s2, Some out)"
    using do_schedule [OF sc] by (meson converse_rtranclp_into_rtranclp r_into_rtranclp)
  have live: "\<not> is_finished (objs s2 0)" using r(2) by (simp add: is_finished_def is_finished_status_def less_request_status_def)
  show ?thesis
    using engine_reachable_wf [OF run [unfolded first_state_def]] run o r live
    by (intro exI [of _ k] exI [of _ s2] exI [of _ out]) (auto simp: output_ids_def)
qed



end
