(* ===== verification/Spec2Isabelle.thy ===== *)
theory Spec2Isabelle
  imports WS_Filter WS_Protocol WS_Codec WS_Manager VL_Recycle VL_HitProofs VL_SchedLife
begin

text \<open>
  A model of the core of this repository's serving stack, with the theorems that make it correct.

  The repository is vLLM with a weight-sharing overlay (\<open>src/vllm-0.22.1/vllm\<close> is the current tree,
  \<open>src/vllm\<close> an older copy of it), the elastic KV cache library \<open>src/kvcached\<close> and the orchestrator
  \<open>src/sardeenz\<close>.  Two subsystems are modelled here.

  \<^bold>\<open>Weight sharing\<close> (\<open>distributed/weight_sharing/\<close>): a primary process loads a model, exports IPC handles
  of its parameters through a registry directory (lock, registry file, ready signal), and
  secondaries wait for the signal, read the registry and replace their parameters by the shared ones.

  \<^item> \<open>WS_Filter\<close>: \<open>parameter_filter.py\<close> and the flags of \<open>config/weight_sharing.py\<close>, which parameters are shared.
  \<^item> \<open>WS_Registry\<close>: \<open>registry.py\<close> call by call, on a file system with advisory locks: acquiring, probing,
    waiting (fuel is twice the timeout plus one turn, which \<open>wait_for_primary_returns\<close> shows enough),
    reading with retries.
  \<^item> \<open>WS_Protocol\<close>: the same operations at the granularity of system calls, as a step relation over
    any number of processes that may crash between any two calls; safety holds for crash-only
    runs, and what goes wrong otherwise is stated as theorems.
  \<^item> \<open>WS_Codec\<close>: Base64 and the encoding of IPC handles.
  \<^item> \<open>WS_Manager\<close>: \<open>manager.py\<close>, the export, the pre-opening of handles and the import.

  \<^bold>\<open>The vLLM v1 scheduling core\<close> (\<open>v1/core/\<close>, \<open>v1/request.py\<close>): the scheduler chooses in every step how
  many tokens each request computes; the KV cache manager finds cached prefixes and assigns
  blocks; blocks live in a pool with an eviction queue.

  \<^item> \<open>VL_Queue\<close>: \<open>FreeKVCacheBlockQueue\<close> (\<open>kv_cache_utils.py\<close>), a doubly linked list with sentinels in a store of blocks.
  \<^item> \<open>VL_BlockPool\<close>: \<open>block_pool.py\<close>, reference counts, the hash map of cached blocks and the events.
  \<^item> \<open>VL_Request\<close>: \<open>request.py\<close>, statuses, tokens, block hashes with their extra keys, and the update of a
    streaming session.
  \<^item> \<open>VL_SingleType\<close>, \<open>VL_CacheHit\<close>: \<open>single_type_kv_cache_manager.py\<close>, the managers of each attention type
    and their cache lookups; \<open>VL_Coordinator\<close>: \<open>kv_cache_coordinator.py\<close> and \<open>kv_cache_manager.py\<close>.
  \<^item> \<open>VL_Ledger\<close>, \<open>VL_KVProofs\<close>, \<open>VL_Recycle\<close>, \<open>VL_HitProofs\<close>, \<open>VL_Groups\<close>: the ledger invariant (reference count of a
    block = number of times requests hold it), which every operation of the manager keeps; room for
    every scheduled token; admission; caps of windowed groups; longest cache hits.
  \<^item> \<open>VL_Encoder\<close>: \<open>encoder_cache_manager.py\<close>.
  \<^item> \<open>Py_Heapq\<close>, \<open>VL_ReqQueue\<close>: the heap functions of the Python library as the source uses them, and
    \<open>sched/request_queue.py\<close> refined to sorted lists.
  \<^item> \<open>VL_SchedState\<close>, \<open>VL_Schedule\<close>: \<open>sched/scheduler.py\<close>, the state of \<open>Scheduler\<close> (record \<open>scheduler\<close>) and
    \<open>schedule\<close> with its running loop (preemption included) and its waiting loop, on top of the
    theories above.  \<open>VL_SchedUpdate\<close>: \<open>update_from_output\<close>, stopping (\<open>sched/utils.py\<close>), adding and finishing requests,
    KV transfers and failed loads, draft tokens, resets; \<open>sched/async_scheduler.py\<close>.
  \<^item> \<open>VL_SchedRules\<close>: induction and elimination rules for the two loops, which hide their control flow.
    \<open>VL_SchedInv\<close>: the invariant of a step (what is scheduled, the budget, where each request is).
    \<open>VL_SchedProofs\<close>: what a whole step guarantees.  \<open>VL_SchedFindings\<close>: behaviour that contradicts the
    intention of the code, by evaluation of the model.  \<open>VL_SchedMoves\<close>: what every other operation does
    to the places of requests.  \<open>VL_SchedLife\<close>: the engine loop as a step relation, the invariant of its
    reachable states, and when generation stops.

  \<^bold>\<open>Representation\<close>.  Python integers are \<open>int\<close> or, where the code keeps them non-negative, \<open>nat\<close>;
  dictionaries are association lists where the order of iteration matters and maps otherwise.
  Exceptions are the left side of a sum (type \<open>'a res\<close> of \<open>Prelude\<close>).  Objects with identity are
  stores: KV blocks and requests are addressed by numbers and every mutation goes through the store,
  so that a request in a queue and in the running list is one object.  Loops are recursive functions
  that terminate: the running loop by the number of requests behind the index and the length of the running list, the waiting loop by the
  size of its queues.  Code outside the repository is an argument: digests, PyTorch IPC, the KV connector, grammars and
  the encoder connector (\<open>sched_env\<close>); theorems hold for every value of these arguments unless a
  premise says otherwise.

  \<^bold>\<open>Interfaces\<close>.  Locales state what one component relies on in another and are interpreted on the
  models: \<open>eviction_queue\<close> (what the block pool needs of the free queue), \<open>queue_contract\<close> (the request
  queues, interpreted for both policies), \<open>handle_codec\<close> (IPC handles as text) and \<open>liveness_lock\<close> (the
  registry lock).

  \<^bold>\<open>Not modelled\<close>.  Of the scheduler: \<open>get_grammar_bitmask\<close>, \<open>make_stats\<close>, \<open>reset_connector_cache\<close>, \<open>shutdown\<close>, routed experts, and
  everything that only logs, traces or counts metrics.  The model runner, the workers, kernels,
  model definitions and the entry points compute on tensors or do input and output and are not
  modelled; neither are \<open>src/kvcached\<close> (C++ and CUDA virtual memory), \<open>src/sardeenz\<close> (TypeScript),
  the older tree \<open>src/vllm\<close>, examples, benchmarks and tests.
\<close>

end
